(* ===== verification/Prelude.thy ===== *)
theory Prelude
  imports Main "HOL-Library.Word" "HOL-Library.AList"
begin

text \<open>
  Shared vocabulary of the development: the machine integers of the shim, big-endian byte
  strings, saturating arithmetic, and the \<open>HashMap\<close> of the Rust standard library as an
  association list with the interface contract the components use.
\<close>

section \<open>Machine integers and bytes\<close>

type_synonym u8 = "8 word"
type_synonym u16 = "16 word"
type_synonym u32 = "32 word"
type_synonym u64 = "64 word"
type_synonym bytes = "u8 list"

named_theorems be_simps \<open>big-endian encoding and decoding\<close>
named_theorems hm_simps \<open>lookups after updates of an association list map\<close>
named_theorems frame_simps \<open>fields an operation leaves alone\<close>

text \<open>\<open>to_be_bytes\<close> and \<open>from_be_bytes\<close> for any width of whole bytes.\<close>

fun be_bytes :: "nat \<Rightarrow> nat \<Rightarrow> bytes" where
  "be_bytes 0 n = []"
| "be_bytes (Suc k) n = word_of_nat (n div 256 ^ k) # be_bytes k n"

fun be_val :: "bytes \<Rightarrow> nat" where
  "be_val [] = 0"
| "be_val (b # bs) = unat b * 256 ^ length bs + be_val bs"

lemma length_be_bytes [simp]: "length (be_bytes k n) = k"
  by (induction k) auto

lemma be_bytes_numeral:
  "be_bytes (numeral k) n = word_of_nat (n div 256 ^ pred_numeral k) # be_bytes (pred_numeral k) n"
  by (simp add: numeral_eq_Suc)

lemma unat_u8_less [simp]: "unat (b :: u8) < 256"
  using unsigned_less [of b] by simp

lemma be_val_bound: "be_val bs < 256 ^ length bs"
proof (induction bs)
  case Nil
  then show ?case by simp
next
  case (Cons b bs)
  have "unat b + 1 \<le> 256" using unat_u8_less [of b] by linarith
  then have "(unat b + 1) * 256 ^ length bs \<le> 256 * 256 ^ length bs"
    by (rule mult_le_mono1)
  moreover have "(unat b + 1) * 256 ^ length bs = unat b * 256 ^ length bs + 256 ^ length bs"
    by simp
  ultimately have "unat b * 256 ^ length bs + be_val bs < 256 * 256 ^ length bs"
    using Cons by linarith
  then show ?case by simp
qed

lemma be_val_be_bytes [be_simps]: "be_val (be_bytes k n) = n mod 256 ^ k"
proof (induction k)
  case 0
  then show ?case by simp
next
  case (Suc k)
  have "n mod (256 ^ k * 256) = 256 ^ k * (n div 256 ^ k mod 256) + n mod 256 ^ k"
    by (rule mod_mult2_eq)
  with Suc show ?case
    by (simp add: unat_of_nat take_bit_eq_mod mult.commute)
qed

lemma be_bytes_add_multiple: "be_bytes k (m * 256 ^ k + n) = be_bytes k n"
proof (induction k arbitrary: m)
  case 0
  then show ?case by simp
next
  case (Suc k)
  have tl: "be_bytes k (m * 256 ^ Suc k + n) = be_bytes k n"
    using Suc [of "m * 256"] by (simp add: mult.assoc)
  have "(m * 256 ^ Suc k + n) div 256 ^ k = m * 256 + n div 256 ^ k"
    by (simp add: mult.assoc [symmetric])
  moreover have "(word_of_nat (m * 256) :: u8) = 0"
    by (subst word_of_nat_eq_0_iff) simp
  ultimately have "(word_of_nat ((m * 256 ^ Suc k + n) div 256 ^ k) :: u8) = word_of_nat (n div 256 ^ k)"
    by (simp only: of_nat_add add_0)
  with tl show ?case by (simp del: power_Suc)
qed

lemma be_bytes_be_val [be_simps]: "be_bytes (length bs) (be_val bs) = bs"
proof (induction bs)
  case Nil
  then show ?case by simp
next
  case (Cons b bs)
  have "(unat b * 256 ^ length bs + be_val bs) div 256 ^ length bs = unat b"
    using be_val_bound [of bs] by simp
  with Cons show ?case by (simp add: be_bytes_add_multiple)
qed

text \<open>\<open>saturating_add\<close> and \<open>saturating_sub\<close> of the unsigned integers.\<close>

definition sat_add :: "'a::len word \<Rightarrow> 'a word \<Rightarrow> 'a word" where
  "sat_add a b = (if unat a + unat b < 2 ^ LENGTH('a) then a + b else - 1)"

definition sat_sub :: "'a::len word \<Rightarrow> 'a word \<Rightarrow> 'a word" where
  "sat_sub a b = (if b \<le> a then a - b else 0)"

lemma unat_sat_add:
  "unat (sat_add a b) = min (unat a + unat b) (2 ^ LENGTH('a) - 1)" for a b :: "'a::len word"
proof (cases "unat a + unat b < 2 ^ LENGTH('a)")
  case True
  then show ?thesis by (simp add: sat_add_def unat_word_ariths)
next
  case False
  then have "sat_add a b = - 1" by (simp add: sat_add_def)
  moreover have "unat (- 1 :: 'a word) = 2 ^ LENGTH('a) - 1"
    by (simp add: unsigned_minus_1_eq_mask mask_eq_exp_minus_1)
  ultimately show ?thesis using False by simp
qed

lemma unat_sat_sub: "unat (sat_sub a b) = unat a - unat b"
  by (auto simp: sat_sub_def unat_sub word_le_nat_alt)

section \<open>Hash maps\<close>

text \<open>
  A \<open>HashMap\<close> is an association list with distinct keys. \<open>insert\<close> replaces the value of a
  key in place and appends a new key, \<open>retain\<close> keeps the entries that satisfy a predicate.
  The standard library leaves the iteration order open; here it is the list's order.
\<close>

type_synonym ('k, 'v) hash_map = "('k \<times> 'v) list"

abbreviation hm_get :: "('k, 'v) hash_map \<Rightarrow> 'k \<Rightarrow> 'v option" where
  "hm_get \<equiv> map_of"

abbreviation hm_insert :: "'k \<Rightarrow> 'v \<Rightarrow> ('k, 'v) hash_map \<Rightarrow> ('k, 'v) hash_map" where
  "hm_insert \<equiv> AList.update"

abbreviation hm_remove :: "'k \<Rightarrow> ('k, 'v) hash_map \<Rightarrow> ('k, 'v) hash_map" where
  "hm_remove \<equiv> AList.delete"

definition hm_retain :: "('k \<Rightarrow> bool) \<Rightarrow> ('k, 'v) hash_map \<Rightarrow> ('k, 'v) hash_map" where
  "hm_retain p m = filter (\<lambda>(k, v). p k) m"

abbreviation hm_keys :: "('k, 'v) hash_map \<Rightarrow> 'k list" where
  "hm_keys m \<equiv> map fst m"

abbreviation hm_values :: "('k, 'v) hash_map \<Rightarrow> 'v list" where
  "hm_values m \<equiv> map snd m"

definition hm_ok :: "('k, 'v) hash_map \<Rightarrow> bool" where
  "hm_ok m \<longleftrightarrow> distinct (map fst m)"

lemma hm_get_retain: "hm_get (hm_retain p m) k = (if p k then hm_get m k else None)"
  by (induction m) (auto simp: hm_retain_def)

lemma hm_ok_retain: "hm_ok m \<Longrightarrow> hm_ok (hm_retain p m)"
  by (induction m) (auto simp: hm_ok_def hm_retain_def)

lemma hm_keys_retain: "set (hm_keys (hm_retain p m)) = {k \<in> set (hm_keys m). p k}"
  by (force simp: hm_retain_def image_iff)

lemma length_retain: "length (hm_retain p m) \<le> length m"
  by (simp add: hm_retain_def)

lemma hm_keys_insert [hm_simps]: "set (hm_keys (hm_insert k v m)) = insert k (set (hm_keys m))"
  by (simp add: dom_update)

lemma length_hm_insert: "length (hm_insert k v m) = (if k \<in> set (hm_keys m) then length m else Suc (length m))"
  by (induction m) auto

text \<open>
  What the components rely on: the laws of the map interface, and the lemmas about sequences
  of insertions proved from them once.
\<close>

locale map_interface =
  fixes get :: "'m \<Rightarrow> 'k \<Rightarrow> 'v option"
    and ins :: "'k \<Rightarrow> 'v \<Rightarrow> 'm \<Rightarrow> 'm"
    and rem :: "'k \<Rightarrow> 'm \<Rightarrow> 'm"
    and ret :: "('k \<Rightarrow> bool) \<Rightarrow> 'm \<Rightarrow> 'm"
    and inv :: "'m \<Rightarrow> bool"
  assumes get_ins: "get (ins k v m) = (get m)(k \<mapsto> v)"
    and get_rem: "inv m \<Longrightarrow> get (rem k m) = (get m)(k := None)"
    and get_ret: "get (ret p m) k = (if p k then get m k else None)"
    and inv_ins: "inv m \<Longrightarrow> inv (ins k v m)"
    and inv_rem: "inv m \<Longrightarrow> inv (rem k m)"
    and inv_ret: "inv m \<Longrightarrow> inv (ret p m)"
begin

lemma get_fold_ins:
  "get (fold (\<lambda>(k, v). ins k v) kvs m) k =
     (case map_of (rev kvs) k of None \<Rightarrow> get m k | Some v \<Rightarrow> Some v)"
  by (induction kvs arbitrary: m)
     (auto simp: get_ins map_add_def split: option.splits)

lemma get_fold_ins_same:
  "k \<in> set ks \<Longrightarrow> get (fold (\<lambda>k. ins k v) ks m) k = Some v"
proof (induction ks rule: rev_induct)
  case (snoc x xs)
  then show ?case by (auto simp: get_ins)
qed simp

lemma get_fold_ins_other:
  "k \<notin> set ks \<Longrightarrow> get (fold (\<lambda>k. ins k v) ks m) k = get m k"
  by (induction ks arbitrary: m) (auto simp: get_ins)

lemma inv_fold_ins: "inv m \<Longrightarrow> inv (fold (\<lambda>k. ins k v) ks m)"
  by (induction ks arbitrary: m) (auto simp: inv_ins)

end

interpretation hm: map_interface hm_get hm_insert hm_remove hm_retain hm_ok
proof (standard, goal_cases)
  case (1 k v m) show ?case by (rule update_conv')
next
  case (2 m k) show ?case by (rule delete_conv')
next
  case (3 p m k) show ?case by (rule hm_get_retain)
next
  case (4 m k v) then show ?case unfolding hm_ok_def by (rule distinct_update)
next
  case (5 m k) then show ?case unfolding hm_ok_def by (rule distinct_delete)
next
  case (6 m p) then show ?case by (rule hm_ok_retain)
qed

lemmas hm_get_simps [hm_simps] = hm.get_ins hm_get_retain fun_upd_apply

section \<open>Prefix codes\<close>

text \<open>
  The contract of a self-delimiting encoding: decoding what was encoded gives the value and
  leaves whatever follows. Sequences of encoded values then have one reading only.
\<close>

locale prefix_codec =
  fixes enc :: "'a \<Rightarrow> bytes"
    and dec :: "bytes \<Rightarrow> ('a \<times> bytes) option"
    and valid :: "'a \<Rightarrow> bool"
  assumes dec_enc: "valid a \<Longrightarrow> dec (enc a @ rest) = Some (a, rest)"
    and enc_nonempty: "enc a \<noteq> []"
begin

lemma enc_append_inject:
  assumes "valid a" "valid b" "enc a @ r = enc b @ r'"
  shows "a = b \<and> r = r'"
proof -
  have "Some (a, r) = dec (enc b @ r')"
    using dec_enc [OF assms(1), of r] unfolding assms(3) ..
  then show ?thesis unfolding dec_enc [OF assms(2)] by blast
qed

lemma enc_list_inject:
  "\<forall>a\<in>set as. valid a \<Longrightarrow> \<forall>b\<in>set bs. valid b \<Longrightarrow>
   concat (map enc as) = concat (map enc bs) \<Longrightarrow> as = bs"
proof (induction as arbitrary: bs)
  case Nil
  then show ?case using enc_nonempty by (cases bs) auto
next
  case (Cons a as)
  have "bs \<noteq> []"
  proof
    assume "bs = []"
    with Cons.prems(3) have "enc a = []" by simp
    with enc_nonempty show False by blast
  qed
  then obtain b bs' where bs: "bs = b # bs'" by (cases bs) blast+
  have va: "valid a" and vas: "\<forall>a\<in>set as. valid a" using Cons.prems(1) by simp_all
  have vb: "valid b" and vbs: "\<forall>b\<in>set bs'. valid b" using Cons.prems(2) bs by simp_all
  have eq: "enc a @ concat (map enc as) = enc b @ concat (map enc bs')"
    using Cons.prems(3) unfolding bs list.map concat.simps .
  from enc_append_inject [OF va vb eq]
  have "a = b" and cc: "concat (map enc as) = concat (map enc bs')" by blast+
  moreover have "as = bs'" by (rule Cons.IH [OF vas vbs cc])
  ultimately show ?case unfolding bs by blast
qed

end

end
