(* ===== verification/Text.thy ===== *)
theory Text
  imports Prelude
begin

text \<open>
  The string functions of the standard library the parsers use: \<open>str::from_utf8\<close>,
  \<open>split_whitespace\<close>, \<open>trim\<close>, \<open>lines\<close>, \<open>splitn(3, ':')\<close>, \<open>parse::<u32>\<close> and
  \<open>parse::<u64>\<close>, and decimal formatting. A Rust string is the list of its code points.
\<close>

type_synonym str = "nat list"

definition str_of :: "string \<Rightarrow> str" where
  "str_of s = map of_char s"

section \<open>UTF-8\<close>

definition is_cont :: "nat \<Rightarrow> bool" where
  "is_cont b \<longleftrightarrow> 128 \<le> b \<and> b \<le> 191"

fun utf8_decode :: "nat list \<Rightarrow> str option" where
  "utf8_decode [] = Some []"
| "utf8_decode (a # r) =
     (if a < 128 then map_option ((#) a) (utf8_decode r)
      else case r of [] \<Rightarrow> None | b # r1 \<Rightarrow>
        if 194 \<le> a \<and> a \<le> 223 \<and> is_cont b
        then map_option ((#) ((a - 192) * 64 + (b - 128))) (utf8_decode r1)
        else case r1 of [] \<Rightarrow> None | c # r2 \<Rightarrow>
          if 224 \<le> a \<and> a \<le> 239 \<and> is_cont b \<and> is_cont c \<and> (a = 224 \<longrightarrow> 160 \<le> b) \<and> (a = 237 \<longrightarrow> b \<le> 159)
          then map_option ((#) ((a - 224) * 4096 + (b - 128) * 64 + (c - 128))) (utf8_decode r2)
          else case r2 of [] \<Rightarrow> None | d # r3 \<Rightarrow>
            if 240 \<le> a \<and> a \<le> 244 \<and> is_cont b \<and> is_cont c \<and> is_cont d
               \<and> (a = 240 \<longrightarrow> 144 \<le> b) \<and> (a = 244 \<longrightarrow> b \<le> 143)
            then map_option ((#) ((a - 240) * 262144 + (b - 128) * 4096 + (c - 128) * 64 + (d - 128)))
                   (utf8_decode r3)
            else None)"

definition from_utf8 :: "bytes \<Rightarrow> str option" where
  "from_utf8 bs = utf8_decode (map unat bs)"

text \<open>The UTF-8 bytes of a string.\<close>

definition utf8_char :: "nat \<Rightarrow> nat list" where
  "utf8_char c =
     (if c < 128 then [c]
      else if c < 2048 then [192 + c div 64, 128 + c mod 64]
      else if c < 65536 then [224 + c div 4096, 128 + c div 64 mod 64, 128 + c mod 64]
      else [240 + c div 262144, 128 + c div 4096 mod 64, 128 + c div 64 mod 64, 128 + c mod 64])"

definition path_of_str :: "str \<Rightarrow> string" where
  "path_of_str s = map char_of (concat (map utf8_char s))"

lemma path_of_str_append [simp]: "path_of_str (a @ b) = path_of_str a @ path_of_str b"
  by (simp add: path_of_str_def)

lemma path_of_str_of: "list_all (\<lambda>c. of_char c < (128 :: nat)) s \<Longrightarrow> path_of_str (str_of s) = s"
  by (induction s) (simp_all add: path_of_str_def str_of_def utf8_char_def)

lemma utf8_decode_ascii: "\<forall>c\<in>set s. c < 128 \<Longrightarrow> utf8_decode s = Some s"
  by (induction s) auto

section \<open>White space\<close>

definition is_ws :: "nat \<Rightarrow> bool" where
  "is_ws c \<longleftrightarrow> (9 \<le> c \<and> c \<le> 13) \<or> c = 32 \<or> c = 133 \<or> c = 160 \<or> c = 5760
     \<or> (8192 \<le> c \<and> c \<le> 8202) \<or> c = 8232 \<or> c = 8233 \<or> c = 8239 \<or> c = 8287 \<or> c = 12288"

fun ws_fields :: "str \<Rightarrow> str \<Rightarrow> str list" where
  "ws_fields acc [] = (if acc = [] then [] else [acc])"
| "ws_fields acc (c # cs) =
     (if is_ws c then (if acc = [] then ws_fields [] cs else acc # ws_fields [] cs)
      else ws_fields (acc @ [c]) cs)"

definition split_whitespace :: "str \<Rightarrow> str list" where
  "split_whitespace s = ws_fields [] s"

definition trim_str :: "str \<Rightarrow> str" where
  "trim_str s = rev (dropWhile is_ws (rev (dropWhile is_ws s)))"

lemma ws_fields_token:
  "\<forall>c\<in>set t. \<not> is_ws c \<Longrightarrow> acc @ t \<noteq> [] \<Longrightarrow> is_ws w \<Longrightarrow>
   ws_fields acc (t @ w # s) = (acc @ t) # ws_fields [] s"
  by (induction t arbitrary: acc) auto

lemma ws_fields_last:
  "\<forall>c\<in>set t. \<not> is_ws c \<Longrightarrow> acc @ t \<noteq> [] \<Longrightarrow> ws_fields acc t = [acc @ t]"
  by (induction t arbitrary: acc) auto

text \<open>The join of fields with single spaces, the way \<open>/proc\<close> files write them.\<close>

fun unwords :: "str list \<Rightarrow> str" where
  "unwords [] = []"
| "unwords [t] = t"
| "unwords (t # u # ts) = t @ 32 # unwords (u # ts)"

definition word_ok :: "str \<Rightarrow> bool" where
  "word_ok t \<longleftrightarrow> t \<noteq> [] \<and> (\<forall>c\<in>set t. \<not> is_ws c)"

lemma is_ws_space [simp]: "is_ws 32"
  by (simp add: is_ws_def)

lemma split_unwords:
  assumes "\<forall>t\<in>set ts. word_ok t"
  shows "split_whitespace (unwords ts) = ts"
  using assms
proof (induction ts rule: unwords.induct)
  case 1
  then show ?case by (simp add: split_whitespace_def)
next
  case (2 t)
  then show ?case by (simp add: split_whitespace_def word_ok_def ws_fields_last)
next
  case (3 t u ts)
  then show ?case by (simp add: split_whitespace_def word_ok_def ws_fields_token)
qed

lemma split_leading_space: "split_whitespace (32 # s) = split_whitespace s"
  by (simp add: split_whitespace_def)

section \<open>Numbers\<close>

fun digits_val :: "nat \<Rightarrow> str \<Rightarrow> nat option" where
  "digits_val acc [] = Some acc"
| "digits_val acc (c # cs) = (if 48 \<le> c \<and> c \<le> 57 then digits_val (acc * 10 + (c - 48)) cs else None)"

text \<open>
  \<open>from_str_radix(10)\<close> of an unsigned type with values below \<open>bound\<close>: an empty string fails,
  one leading \<open>+\<close> is allowed before at least one digit, and a value out of range fails.
\<close>

definition parse_uint :: "nat \<Rightarrow> str \<Rightarrow> nat option" where
  "parse_uint bound s =
     (if s = [] then None
      else case digits_val 0 (if hd s = 43 \<and> tl s \<noteq> [] then tl s else s) of
        None \<Rightarrow> None
      | Some n \<Rightarrow> if n < bound then Some n else None)"

definition parse_u32 :: "str \<Rightarrow> u32 option" where
  "parse_u32 s = map_option word_of_nat (parse_uint (2 ^ 32) s)"

definition parse_u64 :: "str \<Rightarrow> u64 option" where
  "parse_u64 s = map_option word_of_nat (parse_uint (2 ^ 64) s)"

fun show_nat :: "nat \<Rightarrow> str" where
  "show_nat n = (if n < 10 then [48 + n] else show_nat (n div 10) @ [48 + n mod 10])"

declare show_nat.simps [simp del]

definition fmt_nat :: "nat \<Rightarrow> string" where
  "fmt_nat n = map char_of (show_nat n)"

lemma digits_val_append:
  "digits_val acc (xs @ ys) = (case digits_val acc xs of None \<Rightarrow> None | Some v \<Rightarrow> digits_val v ys)"
  by (induction xs arbitrary: acc) auto

lemma digits_val_show_nat: "digits_val 0 (show_nat n) = Some n"
proof (induction n rule: show_nat.induct)
  case (1 n)
  show ?case
  proof (cases "n < 10")
    case True
    then show ?thesis by (simp add: show_nat.simps [of n])
  next
    case False
    with 1 show ?thesis by (simp add: show_nat.simps [of n] digits_val_append)
  qed
qed

lemma show_nat_digits: "c \<in> set (show_nat n) \<Longrightarrow> 48 \<le> c \<and> c \<le> 57"
proof (induction n rule: show_nat.induct)
  case (1 n)
  then show ?case by (subst (asm) show_nat.simps) (auto split: if_splits)
qed

lemma show_nat_nonempty [simp]: "show_nat n \<noteq> []"
  by (subst show_nat.simps) simp

lemma word_ok_show_nat [simp]: "word_ok (show_nat n)"
  by (auto simp: word_ok_def is_ws_def dest!: show_nat_digits)

lemma parse_uint_show_nat: "n < bound \<Longrightarrow> parse_uint bound (show_nat n) = Some n"
proof -
  assume "n < bound"
  have "hd (show_nat n) \<noteq> 43"
    using show_nat_digits [of "hd (show_nat n)" n] by simp
  then show ?thesis using \<open>n < bound\<close>
    by (simp add: parse_uint_def digits_val_show_nat)
qed

lemma parse_u32_show_nat [simp]: "parse_u32 (show_nat (unat w)) = Some w"
  using parse_uint_show_nat [of "unat w" "2 ^ 32"] unsigned_less [of w, where ?'a = nat]
  by (simp add: parse_u32_def)

lemma parse_u64_show_nat [simp]: "parse_u64 (show_nat (unat w)) = Some w"
  using parse_uint_show_nat [of "unat w" "2 ^ 64"] unsigned_less [of w, where ?'a = nat]
  by (simp add: parse_u64_def)

section \<open>Lines and separators\<close>

text \<open>
  \<open>str::lines\<close>: a line ends at a newline (or at the end of a nonempty rest), and one carriage
  return before the newline is dropped.
\<close>

definition strip_cr :: "str \<Rightarrow> str" where
  "strip_cr l = (if l \<noteq> [] \<and> last l = 13 then butlast l else l)"

fun lines_from :: "str \<Rightarrow> str \<Rightarrow> str list" where
  "lines_from acc [] = (if acc = [] then [] else [acc])"
| "lines_from acc (c # cs) = (if c = 10 then strip_cr acc # lines_from [] cs else lines_from (acc @ [c]) cs)"

definition str_lines :: "str \<Rightarrow> str list" where
  "str_lines s = lines_from [] s"

text \<open>The first piece before the separator and the rest after it, if the separator occurs.\<close>

fun split_once :: "nat \<Rightarrow> str \<Rightarrow> (str \<times> str) option" where
  "split_once sep [] = None"
| "split_once sep (c # cs) =
     (if c = sep then Some ([], cs)
      else case split_once sep cs of None \<Rightarrow> None | Some (a, b) \<Rightarrow> Some (c # a, b))"

text \<open>\<open>splitn(3, sep)\<close>: at most three pieces, the last one unsplit.\<close>

definition splitn3 :: "nat \<Rightarrow> str \<Rightarrow> str list" where
  "splitn3 sep s =
     (case split_once sep s of
        None \<Rightarrow> [s]
      | Some (a, r) \<Rightarrow> (case split_once sep r of None \<Rightarrow> [a, r] | Some (b, r') \<Rightarrow> [a, b, r']))"

lemma split_once_append: "sep \<notin> set a \<Longrightarrow> split_once sep (a @ sep # r) = Some (a, r)"
  by (induction a) auto

lemma split_once_None: "sep \<notin> set s \<Longrightarrow> split_once sep s = None"
  by (induction s) auto

lemma lines_from_line: "10 \<notin> set l \<Longrightarrow> lines_from acc (l @ 10 # s) = strip_cr (acc @ l) # lines_from [] s"
  by (induction l arbitrary: acc) auto

end
