(* ===== verification/IoError.thy ===== *)
theory IoError
  imports Text
begin

text \<open>
  \<open>std::io::Error\<close> as the shim uses it, and \<open>error_reason\<close> of
  \<open>native/forcola_shim/src/spawn_error.rs\<close>. An error is either a raw OS error number or a
  kind with a message; \<open>kind\<close> of an OS error is the table the standard library keeps for
  Unix. The error numbers are those of Linux, the platform the development models; every kind
  the shim never tests for is \<open>Other\<close>.
\<close>

datatype error_kind =
    NotFound | PermissionDenied | InvalidInput | InvalidData | Unsupported | AlreadyExists
  | WouldBlock | Interrupted | TimedOut | BrokenPipe | WriteZero | UnexpectedEof | OutOfMemory
  | Other

datatype io_error = Os int | Custom error_kind string

fun raw_os_error :: "io_error \<Rightarrow> int option" where
  "raw_os_error (Os n) = Some n"
| "raw_os_error (Custom k m) = None"

section \<open>Error numbers\<close>

definition EPERM :: int where "EPERM = 1"
definition ENOENT :: int where "ENOENT = 2"
definition ESRCH :: int where "ESRCH = 3"
definition EINTR :: int where "EINTR = 4"
definition EIO :: int where "EIO = 5"
definition E2BIG :: int where "E2BIG = 7"
definition ENOEXEC :: int where "ENOEXEC = 8"
definition EBADF :: int where "EBADF = 9"
definition ECHILD :: int where "ECHILD = 10"
definition EAGAIN :: int where "EAGAIN = 11"
definition ENOMEM :: int where "ENOMEM = 12"
definition EACCES :: int where "EACCES = 13"
definition EBUSY :: int where "EBUSY = 16"
definition EEXIST :: int where "EEXIST = 17"
definition ENOTDIR :: int where "ENOTDIR = 20"
definition EINVAL :: int where "EINVAL = 22"
definition ENFILE :: int where "ENFILE = 23"
definition EMFILE :: int where "EMFILE = 24"
definition ETXTBSY :: int where "ETXTBSY = 26"
definition ENOSPC :: int where "ENOSPC = 28"
definition EROFS :: int where "EROFS = 30"
definition EPIPE :: int where "EPIPE = 32"
definition ERANGE :: int where "ERANGE = 34"
definition ENAMETOOLONG :: int where "ENAMETOOLONG = 36"
definition ENOLCK :: int where "ENOLCK = 37"
definition ENOSYS :: int where "ENOSYS = 38"
definition ELOOP :: int where "ELOOP = 40"
definition ENOTSUP :: int where "ENOTSUP = 95"
definition ETIMEDOUT :: int where "ETIMEDOUT = 110"

lemmas errno_defs =
  EPERM_def ENOENT_def ESRCH_def EINTR_def EIO_def E2BIG_def ENOEXEC_def EBADF_def ECHILD_def
  EAGAIN_def ENOMEM_def EACCES_def EBUSY_def EEXIST_def ENOTDIR_def EINVAL_def ENFILE_def
  EMFILE_def ETXTBSY_def ENOSPC_def EROFS_def EPIPE_def ERANGE_def ENAMETOOLONG_def ENOLCK_def
  ENOSYS_def ELOOP_def ENOTSUP_def ETIMEDOUT_def

definition decode_error_kind :: "int \<Rightarrow> error_kind" where
  "decode_error_kind n =
     (if n = ENOENT then NotFound
      else if n = EACCES \<or> n = EPERM then PermissionDenied
      else if n = EINVAL then InvalidInput
      else if n = ENOSYS \<or> n = ENOTSUP then Unsupported
      else if n = EEXIST then AlreadyExists
      else if n = EAGAIN then WouldBlock
      else if n = EINTR then Interrupted
      else if n = ETIMEDOUT then TimedOut
      else if n = EPIPE then BrokenPipe
      else if n = ENOMEM then OutOfMemory
      else Other)"

fun kind :: "io_error \<Rightarrow> error_kind" where
  "kind (Os n) = decode_error_kind n"
| "kind (Custom k m) = k"

abbreviation is_interrupted :: "io_error \<Rightarrow> bool" where
  "is_interrupted e \<equiv> kind e = Interrupted"

text \<open>\<open>matches!(error.raw_os_error(), Some(libc::ESRCH | libc::ENOENT))\<close>\<close>

definition disappeared :: "io_error \<Rightarrow> bool" where
  "disappeared e \<longleftrightarrow> (raw_os_error e = Some ESRCH \<or> raw_os_error e = Some ENOENT)"

lemma kind_Os_not_InvalidData [simp]: "kind (Os n) \<noteq> InvalidData"
  by (simp add: decode_error_kind_def)

section \<open>Stable error names\<close>

definition errno_names :: "(int \<times> string) list" where
  "errno_names =
     [(ENOENT, ''enoent''), (ENOTDIR, ''enotdir''), (EACCES, ''eacces''), (EPERM, ''eperm''),
      (EINVAL, ''einval''), (ENOEXEC, ''enoexec''), (E2BIG, ''e2big''), (ELOOP, ''eloop''),
      (ENAMETOOLONG, ''enametoolong''), (ENOMEM, ''enomem''), (EMFILE, ''emfile''),
      (ENFILE, ''enfile''), (EIO, ''eio''), (EBADF, ''ebadf''), (EROFS, ''erofs''),
      (ENOSPC, ''enospc''), (EBUSY, ''ebusy''), (ETXTBSY, ''etxtbsy''), (EAGAIN, ''eagain''),
      (EINTR, ''eintr''), (EPIPE, ''epipe''), (ESRCH, ''esrch''), (EEXIST, ''eexist''),
      (ENOSYS, ''enosys''), (ENOTSUP, ''enotsup''), (ENOLCK, ''enolck'')]"

fun kind_name :: "error_kind \<Rightarrow> string" where
  "kind_name NotFound = ''not_found''"
| "kind_name PermissionDenied = ''permission_denied''"
| "kind_name InvalidInput = ''invalid_input''"
| "kind_name InvalidData = ''invalid_data''"
| "kind_name Unsupported = ''unsupported''"
| "kind_name AlreadyExists = ''already_exists''"
| "kind_name WouldBlock = ''would_block''"
| "kind_name Interrupted = ''interrupted''"
| "kind_name TimedOut = ''timed_out''"
| "kind_name BrokenPipe = ''broken_pipe''"
| "kind_name WriteZero = ''write_zero''"
| "kind_name UnexpectedEof = ''unexpected_eof''"
| "kind_name OutOfMemory = ''out_of_memory''"
| "kind_name Other = ''other''"

definition error_reason :: "io_error \<Rightarrow> string" where
  "error_reason e =
     (case raw_os_error e of
        Some n \<Rightarrow> (case map_of errno_names n of Some name \<Rightarrow> name | None \<Rightarrow> kind_name (kind e))
      | None \<Rightarrow> kind_name (kind e))"

lemma kind_name_inject: "kind_name a = kind_name b \<longleftrightarrow> a = b"
  by (cases a; cases b; simp)

lemma errno_names_distinct: "distinct (map fst errno_names)" "distinct (map snd errno_names)"
  by (simp_all add: errno_names_def errno_defs)

lemma errno_name_not_kind_name:
  "(n, name) \<in> set errno_names \<Longrightarrow> name \<noteq> kind_name k"
  by (cases k) (auto simp: errno_names_def)

text \<open>
  Two OS errors of the table carry the same name only when they are the same error: a name is a
  stable stand-in for the number.
\<close>

lemma error_reason_Os_inject:
  assumes "m \<in> set (map fst errno_names)" "error_reason (Os m) = error_reason (Os n)"
  shows "m = n"
proof -
  obtain name where m: "map_of errno_names m = Some name"
    using assms(1) by (cases "map_of errno_names m") (auto simp: map_of_eq_None_iff)
  then have mem: "(m, name) \<in> set errno_names" by (rule map_of_SomeD)
  have "map_of errno_names n = Some name"
  proof (cases "map_of errno_names n")
    case None
    with assms(2) m have "name = kind_name (kind (Os n))" by (simp add: error_reason_def)
    with errno_name_not_kind_name [OF mem, of "kind (Os n)"] show ?thesis by simp
  next
    case (Some name')
    with assms(2) m show ?thesis by (simp add: error_reason_def)
  qed
  then have "(n, name) \<in> set errno_names" by (rule map_of_SomeD)
  with mem errno_names_distinct(2) show "m = n"
    by (metis (no_types, lifting) distinct_map inj_on_def fst_conv snd_conv)
qed

end
