(* ===== verification/Frame.thy ===== *)
theory Frame
  imports IoError
begin

text \<open>
  Wire framing, \<open>native/forcola_shim/src/frame.rs\<close>: a 4-byte big-endian length, a tag byte
  and the payload. A \<open>Read\<close> is the script of what its \<open>read\<close> calls deliver (chunks of
  any size, errors, then end of file) and a \<open>Write\<close> is the bytes written so far with the
  script of its calls' outcomes, so short reads, interrupts, end of file in the middle of a
  frame and partial writes are all inputs of the model.
\<close>

section \<open>Byte streams\<close>

datatype read_event = Chunk bytes | Fail io_error

type_synonym stream = "read_event list"

text \<open>One \<open>read\<close> into a buffer of \<open>n\<close> bytes; no bytes means end of file.\<close>

fun stream_read :: "nat \<Rightarrow> stream \<Rightarrow> (io_error + bytes) \<times> stream" where
  "stream_read n [] = (Inr [], [])"
| "stream_read n (Fail e # s) = (Inl e, s)"
| "stream_read n (Chunk bs # s) =
     (Inr (take n bs), if length bs \<le> n then s else Chunk (drop n bs) # s)"

fun event_size :: "read_event \<Rightarrow> nat" where
  "event_size (Chunk bs) = Suc (length bs)"
| "event_size (Fail e) = 1"

definition stream_size :: "stream \<Rightarrow> nat" where
  "stream_size s = sum_list (map event_size s)"

lemma stream_read_smaller:
  "stream_read n s = (Inl e, s') \<Longrightarrow> stream_size s' < stream_size s"
  "stream_read n s = (Inr bs, s') \<Longrightarrow> 0 < n \<Longrightarrow> bs \<noteq> [] \<Longrightarrow> stream_size s' < stream_size s"
  by (cases "(n, s)" rule: stream_read.cases; auto simp: stream_size_def split: if_splits)+

fun event_bytes :: "read_event \<Rightarrow> bytes" where
  "event_bytes (Chunk bs) = bs"
| "event_bytes (Fail e) = []"

text \<open>The bytes a stream still holds, and the streams whose reads deliver all of them: no empty
  read before the end, and no error but an interrupt.\<close>

definition stream_bytes :: "stream \<Rightarrow> bytes" where
  "stream_bytes s = concat (map event_bytes s)"

fun clean_event :: "read_event \<Rightarrow> bool" where
  "clean_event (Chunk bs) \<longleftrightarrow> bs \<noteq> []"
| "clean_event (Fail e) \<longleftrightarrow> is_interrupted e"

definition clean :: "stream \<Rightarrow> bool" where
  "clean s \<longleftrightarrow> (\<forall>ev\<in>set s. clean_event ev)"

datatype write_event = WriteOk | WriteFail nat io_error

record sink =
  sink_out :: bytes
  sink_script :: "write_event list"

text \<open>A \<open>write_all\<close> that fails has written a prefix of its argument.\<close>

definition write_all :: "bytes \<Rightarrow> sink \<Rightarrow> (io_error + unit) \<times> sink" where
  "write_all bs w =
     (case sink_script w of
        [] \<Rightarrow> (Inr (), w\<lparr>sink_out := sink_out w @ bs\<rparr>)
      | WriteOk # r \<Rightarrow> (Inr (), w\<lparr>sink_out := sink_out w @ bs, sink_script := r\<rparr>)
      | WriteFail n e # r \<Rightarrow> (Inl e, w\<lparr>sink_out := sink_out w @ take n bs, sink_script := r\<rparr>))"

definition flush :: "sink \<Rightarrow> (io_error + unit) \<times> sink" where
  "flush w = write_all [] w"

section \<open>Tags and frames\<close>

definition TAG_SPAWN :: u8 where "TAG_SPAWN = 0x01"
definition TAG_STDIN :: u8 where "TAG_STDIN = 0x02"
definition TAG_EOF :: u8 where "TAG_EOF = 0x03"
definition TAG_KILL :: u8 where "TAG_KILL = 0x04"
definition TAG_CREDIT :: u8 where "TAG_CREDIT = 0x05"
definition TAG_STDERR_CREDIT :: u8 where "TAG_STDERR_CREDIT = 0x06"
definition TAG_HELLO :: u8 where "TAG_HELLO = 0x07"
definition TAG_STDOUT :: u8 where "TAG_STDOUT = 0x11"
definition TAG_STDERR :: u8 where "TAG_STDERR = 0x12"
definition TAG_EXIT :: u8 where "TAG_EXIT = 0x13"
definition TAG_ERROR :: u8 where "TAG_ERROR = 0x14"
definition TAG_CAPABILITIES :: u8 where "TAG_CAPABILITIES = 0x15"
definition TAG_SPAWNED :: u8 where "TAG_SPAWNED = 0x16"
definition TAG_TRACKED :: u8 where "TAG_TRACKED = 0x17"

lemmas inbound_tag_defs = TAG_SPAWN_def TAG_STDIN_def TAG_EOF_def TAG_KILL_def TAG_CREDIT_def
  TAG_STDERR_CREDIT_def TAG_HELLO_def

lemmas outbound_tag_defs = TAG_STDOUT_def TAG_STDERR_def TAG_EXIT_def TAG_ERROR_def
  TAG_CAPABILITIES_def TAG_SPAWNED_def TAG_TRACKED_def

definition MAX_FRAME_LEN :: nat where "MAX_FRAME_LEN = 64 * 1024 * 1024"

record frame =
  tag :: u8
  payload :: bytes

definition new_frame :: "u8 \<Rightarrow> bytes \<Rightarrow> frame" where
  "new_frame t p = \<lparr>tag = t, payload = p\<rparr>"

section \<open>Reading\<close>

text \<open>
  \<open>read_exact_or_eof\<close>: the loop over \<open>filled < buf.len()\<close>, with \<open>buf\<close> the bytes
  filled so far. \<open>None\<close> is the \<open>Ok(false)\<close> of a clean end of file.
\<close>

function read_exact_or_eof :: "nat \<Rightarrow> bytes \<Rightarrow> stream \<Rightarrow> (io_error + bytes option) \<times> stream" where
  "read_exact_or_eof n buf s =
     (if length buf < n then
        (case stream_read (n - length buf) s of
           (Inr bs, s') \<Rightarrow>
             if bs = [] then
               (if buf = [] then (Inr None, s')
                else (Inl (Custom UnexpectedEof ''stream ended mid-frame''), s'))
             else read_exact_or_eof n (buf @ bs) s'
         | (Inl e, s') \<Rightarrow> if is_interrupted e then read_exact_or_eof n buf s' else (Inl e, s'))
      else (Inr (Some buf), s))"
  by pat_completeness auto
termination
  by (relation "measure (\<lambda>(n, buf, s). stream_size s)")
     (auto dest: stream_read_smaller stream_read_smaller [OF sym])

text \<open>\<open>Read::read_exact\<close> of the standard library.\<close>

function read_exact :: "nat \<Rightarrow> bytes \<Rightarrow> stream \<Rightarrow> (io_error + bytes) \<times> stream" where
  "read_exact n buf s =
     (if length buf < n then
        (case stream_read (n - length buf) s of
           (Inr bs, s') \<Rightarrow>
             if bs = [] then (Inl (Custom UnexpectedEof ''failed to fill whole buffer''), s')
             else read_exact n (buf @ bs) s'
         | (Inl e, s') \<Rightarrow> if is_interrupted e then read_exact n buf s' else (Inl e, s'))
      else (Inr buf, s))"
  by pat_completeness auto
termination
  by (relation "measure (\<lambda>(n, buf, s). stream_size s)")
     (auto dest: stream_read_smaller stream_read_smaller [OF sym])

declare read_exact_or_eof.simps [simp del] read_exact.simps [simp del]

definition read_frame :: "stream \<Rightarrow> (io_error + frame option) \<times> stream" where
  "read_frame r =
     (case read_exact_or_eof 4 [] r of
        (Inl e, r1) \<Rightarrow> (Inl e, r1)
      | (Inr None, r1) \<Rightarrow> (Inr None, r1)
      | (Inr (Some len_buf), r1) \<Rightarrow>
          let len = be_val len_buf in
          if len = 0 then
            (Inl (Custom InvalidData ''frame length must include at least the tag byte''), r1)
          else if len > MAX_FRAME_LEN then
            (Inl (Custom InvalidData 
              (''frame length '' @ fmt_nat len @ '' exceeds the '' @ fmt_nat MAX_FRAME_LEN @ ''-byte cap'')), r1)
          else
            (case read_exact len [] r1 of
               (Inl e, r2) \<Rightarrow> (Inl e, r2)
             | (Inr body, r2) \<Rightarrow> (Inr (Some (new_frame (hd body) (tl body))), r2)))"

section \<open>Writing\<close>

definition write_frame :: "u8 \<Rightarrow> bytes \<Rightarrow> sink \<Rightarrow> (io_error + unit) \<times> sink" where
  "write_frame t p w =
     (let len = (word_of_nat (length p + 1) :: u32) in
      case write_all (be_bytes 4 (unat len)) w of
        (Inl e, w1) \<Rightarrow> (Inl e, w1)
      | (Inr _, w1) \<Rightarrow>
          (case write_all [t] w1 of
             (Inl e, w2) \<Rightarrow> (Inl e, w2)
           | (Inr _, w2) \<Rightarrow>
               (case write_all p w2 of
                  (Inl e, w3) \<Rightarrow> (Inl e, w3)
                | (Inr _, w3) \<Rightarrow> flush w3)))"

section \<open>The format\<close>

text \<open>One frame as bytes, and the one reading of a byte string as its first frame.\<close>

definition encode_frame :: "frame \<Rightarrow> bytes" where
  "encode_frame f = be_bytes 4 (length (payload f) + 1) @ tag f # payload f"

datatype parsed = AtEof | Truncated | Invalid | Parsed frame bytes

definition parse_frame :: "bytes \<Rightarrow> parsed" where
  "parse_frame bs =
     (if bs = [] then AtEof
      else if length bs < 4 then Truncated
      else let len = be_val (take 4 bs); body = drop 4 bs in
        if len = 0 \<or> len > MAX_FRAME_LEN then Invalid
        else if length body < len then Truncated
        else Parsed \<lparr>tag = hd body, payload = take (len - 1) (tl body)\<rparr> (drop len body))"

definition decode_frame :: "bytes \<Rightarrow> (frame \<times> bytes) option" where
  "decode_frame bs = (case parse_frame bs of Parsed f r \<Rightarrow> Some (f, r) | _ \<Rightarrow> None)"

definition frame_fits :: "frame \<Rightarrow> bool" where
  "frame_fits f \<longleftrightarrow> length (payload f) < MAX_FRAME_LEN"

lemma parse_encode_frame:
  assumes "frame_fits f"
  shows "parse_frame (encode_frame f @ rest) = Parsed f rest"
proof -
  have "be_val (be_bytes 4 (length (payload f) + 1)) = length (payload f) + 1"
    using assms by (simp add: be_simps frame_fits_def MAX_FRAME_LEN_def)
  moreover have "be_bytes 4 (length (payload f) + 1) \<noteq> []"
    using length_be_bytes [of 4 "length (payload f) + 1"] by (metis list.size(3) zero_neq_numeral)
  ultimately show ?thesis
    using assms by (simp add: parse_frame_def encode_frame_def frame_fits_def Let_def)
qed

interpretation frame_codec: prefix_codec encode_frame decode_frame frame_fits
  by unfold_locales
     (auto simp: decode_frame_def parse_encode_frame, auto simp: encode_frame_def)

section \<open>Reading a clean stream\<close>

lemma clean_Cons [simp]: "clean (ev # s) \<longleftrightarrow> clean_event ev \<and> clean s"
  by (simp add: clean_def)

lemma clean_Nil [simp]: "clean []"
  by (simp add: clean_def)

lemma stream_bytes_simps [simp]:
  "stream_bytes [] = []"
  "stream_bytes (Chunk bs # s) = bs @ stream_bytes s"
  "stream_bytes (Fail e # s) = stream_bytes s"
  by (simp_all add: stream_bytes_def)

lemma stream_read_clean [consumes 2, case_names eof intr data]:
  assumes "clean s" "0 < n"
  obtains (eof) "s = []" "stream_read n s = (Inr [], [])"
    | (intr) e s' where "stream_read n s = (Inl e, s')" "is_interrupted e" "clean s'"
        "stream_bytes s' = stream_bytes s"
    | (data) bs s' where "stream_read n s = (Inr bs, s')" "bs \<noteq> []" "length bs \<le> n" "clean s'"
        "stream_bytes s = bs @ stream_bytes s'"
  using assms
proof (cases "(n, s)" rule: stream_read.cases)
  case (3 n' bs s')
  have "take n bs \<noteq> []" using assms 3 by auto
  moreover have "clean (if length bs \<le> n then s' else Chunk (drop n bs) # s')"
    using assms 3 by simp
  moreover have "stream_bytes s
      = take n bs @ stream_bytes (if length bs \<le> n then s' else Chunk (drop n bs) # s')"
    using 3 by (simp add: append_assoc [symmetric] del: append_assoc)
  ultimately show ?thesis using 3 by (intro data) auto
qed (auto intro: that)

lemma read_exact_clean:
  assumes "clean s" "length buf \<le> n"
  shows "if n \<le> length buf + length (stream_bytes s)
         then \<exists>s'. read_exact n buf s = (Inr (buf @ take (n - length buf) (stream_bytes s)), s')
                \<and> clean s' \<and> stream_bytes s' = drop (n - length buf) (stream_bytes s)
         else \<exists>e s'. read_exact n buf s = (Inl e, s') \<and> kind e = UnexpectedEof"
  using assms
proof (induction n buf s rule: read_exact.induct)
  case (1 n buf s)
  show ?case
  proof (cases "length buf < n")
    case False
    with "1.prems" show ?thesis by (simp add: read_exact.simps [of n buf s])
  next
    case True
    then have pos: "0 < n - length buf" by simp
    from "1.prems"(1) pos show ?thesis
    proof (cases rule: stream_read_clean)
      case eof
      with True show ?thesis by (simp add: read_exact.simps [of n buf "[]"])
    next
      case (intr e s')
      have eq: "read_exact n buf s = read_exact n buf s'"
        using True intr(1,2) by (simp add: read_exact.simps [of n buf s])
      show ?thesis unfolding eq intr(4) [symmetric]
        using "1.IH"(1) [OF True intr(1) [symmetric] refl intr(2,3) "1.prems"(2)] .
    next
      case (data bs s')
      have le: "length (buf @ bs) \<le> n" using data(3) True by simp
      have take: "buf @ take (n - length buf) (stream_bytes s)
          = (buf @ bs) @ take (n - length (buf @ bs)) (stream_bytes s')"
        using data(3,5) by simp
      have drop: "drop (n - length buf) (stream_bytes s) = drop (n - length (buf @ bs)) (stream_bytes s')"
        using data(3,5) by simp
      have eq: "read_exact n buf s = read_exact n (buf @ bs) s'"
        using True data(1,2) by (simp add: read_exact.simps [of n buf s])
      have len: "length buf + length (stream_bytes s) = length (buf @ bs) + length (stream_bytes s')"
        using data(5) by simp
      show ?thesis unfolding eq take drop len
        using "1.IH"(2) [OF True data(1) [symmetric] refl data(2) data(4) le] .
    qed
  qed
qed

lemma read_exact_length:
  "fst (read_exact n b s) = Inr body \<Longrightarrow> length b \<le> n \<Longrightarrow> length body = n"
proof (induction n b s rule: read_exact.induct)
  case (1 n b s)
  have "bs \<noteq> [] \<Longrightarrow> stream_read (n - length b) s = (Inr bs, s') \<Longrightarrow> length (b @ bs) \<le> n" for bs s'
    using "1.prems"(2) by (cases "(n - length b, s)" rule: stream_read.cases) auto
  with 1 show ?case
    by (subst (asm) read_exact.simps) (auto split: prod.splits sum.splits if_splits)
qed

text \<open>\<open>read_exact_or_eof\<close> differs from \<open>read_exact\<close> only at the very first read.\<close>

definition same_outcome ::
  "(io_error + bytes option) \<times> stream \<Rightarrow> (io_error + bytes) \<times> stream \<Rightarrow> bool" where
  "same_outcome a b =
     (snd a = snd b \<and>
      (case fst b of
         Inr buf \<Rightarrow> fst a = Inr (Some buf)
       | Inl e \<Rightarrow> (case fst a of Inl e' \<Rightarrow> kind e' = kind e | Inr _ \<Rightarrow> False)))"

lemma read_exact_or_eof_data:
  assumes "clean s" "buf \<noteq> [] \<or> stream_bytes s \<noteq> []"
  shows "same_outcome (read_exact_or_eof n buf s) (read_exact n buf s)"
  using assms
proof (induction n buf s rule: read_exact.induct)
  case (1 n buf s)
  note unfold = read_exact.simps [of n buf s] read_exact_or_eof.simps [of n buf s]
  show ?case
  proof (cases "length buf < n")
    case False
    then show ?thesis by (simp add: unfold same_outcome_def)
  next
    case True
    then have pos: "0 < n - length buf" by simp
    from "1.prems"(1) pos show ?thesis
    proof (cases rule: stream_read_clean)
      case eof
      with True "1.prems" show ?thesis
        by (simp add: read_exact.simps [of n buf "[]"] read_exact_or_eof.simps [of n buf "[]"]
            same_outcome_def)
    next
      case (intr e s')
      moreover have "buf \<noteq> [] \<or> stream_bytes s' \<noteq> []" using "1.prems"(2) intr(4) by simp
      ultimately show ?thesis
        using "1.IH"(1) [OF True intr(1) [symmetric] refl intr(2,3)] True by (simp add: unfold)
    next
      case (data bs s')
      then show ?thesis
        using "1.IH"(2) [OF True data(1) [symmetric] refl data(2) data(4)] True by (simp add: unfold)
    qed
  qed
qed

lemma read_exact_or_eof_empty:
  assumes "clean s" "stream_bytes s = []" "0 < n"
  shows "\<exists>s'. read_exact_or_eof n [] s = (Inr None, s') \<and> clean s' \<and> stream_bytes s' = []"
  using assms
proof (induction s)
  case Nil
  then show ?case by (simp add: read_exact_or_eof.simps [of n "[]" "[]"])
next
  case (Cons ev s)
  then obtain e where ev: "ev = Fail e" "is_interrupted e" by (cases ev) auto
  with Cons show ?case by (simp add: read_exact_or_eof.simps [of n "[]" "Fail e # s"])
qed

section \<open>Properties\<close>

text \<open>What reading one frame must deliver, told from the bytes of the stream alone.\<close>

definition frame_result_ok :: "bytes \<Rightarrow> (io_error + frame option) \<times> stream \<Rightarrow> bool" where
  "frame_result_ok bs r =
     (case parse_frame bs of
        AtEof \<Rightarrow> fst r = Inr None
      | Truncated \<Rightarrow> (case fst r of Inl e \<Rightarrow> kind e = UnexpectedEof | Inr _ \<Rightarrow> False)
      | Invalid \<Rightarrow> (case fst r of Inl e \<Rightarrow> kind e = InvalidData | Inr _ \<Rightarrow> False)
      | Parsed f rest \<Rightarrow> fst r = Inr (Some f) \<and> clean (snd r) \<and> stream_bytes (snd r) = rest)"

lemma read_exact_clean_full:
  assumes "clean s" "n \<le> length (stream_bytes s)"
  obtains s' where "read_exact n [] s = (Inr (take n (stream_bytes s)), s')" "clean s'"
    "stream_bytes s' = drop n (stream_bytes s)"
  using read_exact_clean [OF assms(1), of "[]" n] assms(2) by auto

lemma read_exact_clean_short:
  assumes "clean s" "length (stream_bytes s) < n"
  obtains e s' where "read_exact n [] s = (Inl e, s')" "kind e = UnexpectedEof"
  using read_exact_clean [OF assms(1), of "[]" n] assms(2) by auto

lemma read_length_prefix:
  assumes "clean s" "4 \<le> length (stream_bytes s)"
  obtains s' where "read_exact_or_eof 4 [] s = (Inr (Some (take 4 (stream_bytes s))), s')" "clean s'"
    "stream_bytes s' = drop 4 (stream_bytes s)"
proof -
  obtain s' where s': "read_exact 4 [] s = (Inr (take 4 (stream_bytes s)), s')" "clean s'"
      "stream_bytes s' = drop 4 (stream_bytes s)"
    using assms by (rule read_exact_clean_full)
  have "stream_bytes s \<noteq> []" using assms(2) by auto
  with assms(1) have "same_outcome (read_exact_or_eof 4 [] s) (read_exact 4 [] s)"
    by (intro read_exact_or_eof_data) auto
  with s' that show ?thesis
    by (cases "read_exact_or_eof 4 [] s") (auto simp: same_outcome_def)
qed

lemma read_body_ok:
  assumes len: "0 < len" "len \<le> MAX_FRAME_LEN" and s: "clean s1"
    and pre: "read_exact_or_eof 4 [] s = (Inr (Some lb), s1)" "be_val lb = len"
  shows "if length (stream_bytes s1) < len
         then (case fst (read_frame s) of Inl e \<Rightarrow> kind e = UnexpectedEof | Inr _ \<Rightarrow> False)
         else \<exists>s2. read_frame s = (Inr (Some \<lparr>tag = hd (stream_bytes s1),
                 payload = take (len - 1) (tl (stream_bytes s1))\<rparr>), s2) \<and> clean s2 \<and>
               stream_bytes s2 = drop len (stream_bytes s1)"
proof (cases "length (stream_bytes s1) < len")
  case True
  obtain e s2 where "read_exact len [] s1 = (Inl e, s2)" "kind e = UnexpectedEof"
    using s True by (rule read_exact_clean_short)
  with True len pre show ?thesis by (simp add: read_frame_def Let_def)
next
  case False
  then have "len \<le> length (stream_bytes s1)" by simp
  with s obtain s2 where s2: "read_exact len [] s1 = (Inr (take len (stream_bytes s1)), s2)"
      "clean s2" "stream_bytes s2 = drop len (stream_bytes s1)"
    by (rule read_exact_clean_full)
  have "tl (take len (stream_bytes s1)) = take (len - 1) (tl (stream_bytes s1))"
    using len(1) by (cases "stream_bytes s1"; cases len; simp)
  moreover have "hd (take len (stream_bytes s1)) = hd (stream_bytes s1)"
    using len(1) by simp
  ultimately show ?thesis
    using False len pre s2 by (simp add: read_frame_def Let_def new_frame_def)
qed

lemma read_frame_parses:
  assumes s: "clean s"
  shows "frame_result_ok (stream_bytes s) (read_frame s)"
proof (cases "stream_bytes s = []")
  case True
  with s obtain s' where "read_exact_or_eof 4 [] s = (Inr None, s')"
    using read_exact_or_eof_empty [of s 4] by auto
  with True show ?thesis by (simp add: frame_result_ok_def parse_frame_def read_frame_def)
next
  case ne: False
  show ?thesis
  proof (cases "length (stream_bytes s) < 4")
    case True
    obtain e s' where "read_exact 4 [] s = (Inl e, s')" "kind e = UnexpectedEof"
      using s True by (rule read_exact_clean_short)
    then have "case fst (read_frame s) of Inl e \<Rightarrow> kind e = UnexpectedEof | Inr _ \<Rightarrow> False"
      using read_exact_or_eof_data [OF s, of "[]" 4] ne
      by (cases "read_exact_or_eof 4 [] s")
         (auto simp: same_outcome_def read_frame_def split: sum.splits)
    with True ne show ?thesis by (simp add: frame_result_ok_def parse_frame_def)
  next
    case False
    then have "4 \<le> length (stream_bytes s)" by simp
    with s obtain s1 where s1: "read_exact_or_eof 4 [] s = (Inr (Some (take 4 (stream_bytes s))), s1)"
        "clean s1" "stream_bytes s1 = drop 4 (stream_bytes s)"
      by (rule read_length_prefix)
    define len where "len = be_val (take 4 (stream_bytes s))"
    show ?thesis
    proof (cases "len = 0 \<or> len > MAX_FRAME_LEN")
      case True
      with s1(1) ne False show ?thesis
        by (auto simp: frame_result_ok_def parse_frame_def read_frame_def Let_def len_def)
    next
      case ok: False
      then have "0 < len" "len \<le> MAX_FRAME_LEN" by auto
      from read_body_ok [OF this s1(2,1) len_def [symmetric]] ok ne False show ?thesis
        by (auto simp: frame_result_ok_def parse_frame_def Let_def len_def s1(3) simp del: length_drop
            split: if_splits)
    qed
  qed
qed

text \<open>Reading consumes the stream, so the reader's loop over frames ends.\<close>

lemma stream_read_size:
  "stream_size (snd (stream_read n s)) \<le> stream_size s"
  by (cases "(n, s)" rule: stream_read.cases) (auto simp: stream_size_def)

lemma read_exact_size: "stream_size (snd (read_exact n buf s)) \<le> stream_size s"
proof (induction n buf s rule: read_exact.induct)
  case (1 n buf s)
  then show ?case
    using stream_read_size [of "n - length buf" s]
    by (subst read_exact.simps) (fastforce split: prod.splits sum.splits)
qed

lemma read_exact_or_eof_size:
  "stream_size (snd (read_exact_or_eof n buf s)) \<le> stream_size s \<and>
   (fst (read_exact_or_eof n buf s) = Inr (Some b) \<longrightarrow> length buf < n \<longrightarrow>
      stream_size (snd (read_exact_or_eof n buf s)) < stream_size s)"
proof (induction n buf s rule: read_exact_or_eof.induct)
  case (1 n buf s)
  note size = stream_read_size [of "n - length buf" s]
  show ?case
  proof (cases "length buf < n")
    case False
    then show ?thesis by (auto simp: read_exact_or_eof.simps [of n buf s])
  next
    case True
    obtain r s' where rd: "stream_read (n - length buf) s = (r, s')" by fastforce
    show ?thesis
    proof (cases r)
      case (Inl e)
      with rd True size stream_read_smaller(1) [of "n - length buf" s e s']
        "1.IH"(1) [OF True rd [symmetric] Inl] show ?thesis
        by (auto simp: read_exact_or_eof.simps [of n buf s])
    next
      case (Inr bs)
      with rd True size stream_read_smaller(2) [of "n - length buf" s bs s']
        "1.IH"(2) [OF True rd [symmetric] Inr] show ?thesis
        by (auto simp: read_exact_or_eof.simps [of n buf s])
    qed
  qed
qed

lemma read_frame_smaller:
  assumes "read_frame s = (Inr (Some f), s')"
  shows "stream_size s' < stream_size s"
proof -
  obtain lb s1 where s1: "read_exact_or_eof 4 [] s = (Inr (Some lb), s1)"
    and "snd (read_exact (be_val lb) [] s1) = s'"
    using assms by (auto simp: read_frame_def Let_def split: prod.splits sum.splits option.splits if_splits)
  then show ?thesis
    using read_exact_or_eof_size [of 4 "[]" s lb] read_exact_size [of "be_val lb" "[]" s1] by auto
qed

text \<open>The two ends of a connection: frames sent one after the other, and the reader's loop, which
  ends with the error that stopped it, if one did.\<close>

primrec send_all :: "frame list \<Rightarrow> sink \<Rightarrow> (io_error + unit) \<times> sink" where
  "send_all [] w = (Inr (), w)"
| "send_all (f # fs) w =
     (case write_frame (tag f) (payload f) w of
        (Inl e, w') \<Rightarrow> (Inl e, w')
      | (Inr _, w') \<Rightarrow> send_all fs w')"

function recv_all :: "stream \<Rightarrow> frame list \<times> io_error option" where
  "recv_all s =
     (case read_frame s of
        (Inr (Some f), s') \<Rightarrow> (let (fs, e) = recv_all s' in (f # fs, e))
      | (Inr None, _) \<Rightarrow> ([], None)
      | (Inl e, _) \<Rightarrow> ([], Some e))"
  by pat_completeness auto
termination
  by (relation "measure stream_size") (auto dest: read_frame_smaller [OF sym])

declare recv_all.simps [simp del]

lemma write_all_Ok: "write_all bs w = (Inr (), w') \<Longrightarrow> sink_out w' = sink_out w @ bs"
  by (auto simp: write_all_def split: list.splits write_event.splits)

lemma write_all_Err: "write_all bs w = (Inl e, w') \<Longrightarrow> \<exists>k. sink_out w' = sink_out w @ take k bs"
  by (auto simp: write_all_def split: list.splits write_event.splits)

lemma encode_frame_len:
  "length p < 2 ^ 32 - 1 \<Longrightarrow>
   be_bytes 4 (unat (word_of_nat (length p + 1) :: u32)) @ t # p = encode_frame \<lparr>tag = t, payload = p\<rparr>"
proof -
  assume "length p < 2 ^ 32 - 1"
  then have "unat (word_of_nat (length p + 1) :: u32) = length p + 1"
    by (simp only: unat_of_nat take_bit_eq_mod) simp
  then show ?thesis by (simp add: encode_frame_def)
qed

lemma write_frame_Ok:
  assumes "write_frame t p w = (Inr (), w')" "length p < 2 ^ 32 - 1"
  shows "sink_out w' = sink_out w @ encode_frame \<lparr>tag = t, payload = p\<rparr>"
  using assms(1) unfolding encode_frame_len [OF assms(2), of t, symmetric]
  by (auto simp: write_frame_def flush_def Let_def dest!: write_all_Ok split: prod.splits sum.splits)

lemma frame_fits_32: "frame_fits f \<Longrightarrow> length (payload f) < 2 ^ 32 - 1"
  by (simp add: frame_fits_def MAX_FRAME_LEN_def)

lemma send_all_Ok:
  "send_all fs w = (Inr (), w') \<Longrightarrow> \<forall>f\<in>set fs. frame_fits f \<Longrightarrow>
   sink_out w' = sink_out w @ concat (map encode_frame fs)"
proof (induction fs arbitrary: w)
  case (Cons f fs)
  then obtain w1 where w1: "write_frame (tag f) (payload f) w = (Inr (), w1)"
    and rest: "send_all fs w1 = (Inr (), w')"
    by (auto split: prod.splits sum.splits)
  from write_frame_Ok [OF w1] Cons.prems(2) frame_fits_32 [of f]
  have "sink_out w1 = sink_out w @ encode_frame f" by (simp add: encode_frame_def)
  with Cons.IH [OF rest] Cons.prems(2) show ?case by simp
qed simp

lemma recv_all_encoded:
  "clean s \<Longrightarrow> \<forall>f\<in>set fs. frame_fits f \<Longrightarrow> stream_bytes s = concat (map encode_frame fs) \<Longrightarrow>
   recv_all s = (fs, None)"
proof (induction fs arbitrary: s)
  case Nil
  with read_frame_parses [of s] show ?case
    by (cases "read_frame s")
       (auto simp: recv_all.simps [of s] frame_result_ok_def parse_frame_def)
next
  case (Cons f fs)
  have "parse_frame (stream_bytes s) = Parsed f (concat (map encode_frame fs))"
    using Cons.prems parse_encode_frame [of f] by simp
  with read_frame_parses [OF Cons.prems(1)] obtain s' where
    "read_frame s = (Inr (Some f), s')" "clean s'" "stream_bytes s' = concat (map encode_frame fs)"
    by (cases "read_frame s") (auto simp: frame_result_ok_def)
  with Cons show ?case by (simp add: recv_all.simps [of s])
qed

text \<open>C9: Frames written one after the other with \<open>write_frame\<close> come back from the reader's
  loop unchanged and in order, followed by a clean end of file, however the byte stream is cut
  into reads and wherever reads are interrupted.\<close>

theorem frames_roundtrip:
  assumes "\<forall>f\<in>set fs. frame_fits f"
    and "send_all fs w = (Inr (), w')"
    and "clean s" "stream_bytes s = drop (length (sink_out w)) (sink_out w')"
  shows "recv_all s = (fs, None)"
proof -
  from send_all_Ok [OF assms(2,1)] assms(4)
  have "stream_bytes s = concat (map encode_frame fs)" by simp
  with assms(3,1) show ?thesis by (rule recv_all_encoded)
qed

theorem frames_roundtrip_witness:
  "recv_all [Chunk [0, 0], Fail (Os EINTR), Chunk [0, 2, 0x11], Chunk [104, 0, 0, 0, 1, 0x03]]
     = ([\<lparr>tag = TAG_STDOUT, payload = [104]\<rparr>, \<lparr>tag = TAG_EOF, payload = []\<rparr>], None)"
proof (rule frames_roundtrip [where w = "\<lparr>sink_out = [], sink_script = []\<rparr>"])
  show "send_all [\<lparr>tag = TAG_STDOUT, payload = [104]\<rparr>, \<lparr>tag = TAG_EOF, payload = []\<rparr>]
          \<lparr>sink_out = [], sink_script = []\<rparr>
        = (Inr (), \<lparr>sink_out = [0, 0, 0, 2, 0x11, 104, 0, 0, 0, 1, 0x03], sink_script = []\<rparr>)"
    by (simp add: write_frame_def write_all_def flush_def Let_def TAG_STDOUT_def TAG_EOF_def
        be_bytes_numeral)
qed (simp_all add: frame_fits_def MAX_FRAME_LEN_def decode_error_kind_def errno_defs)

text \<open>C29: \<open>read_frame\<close> implements the frame format: told from the bytes of the stream alone it
  returns the first frame and leaves exactly the bytes after it, reports a clean end of file only
  at a frame boundary, rejects a zero or oversized length as invalid data and a stream that ends
  inside a frame as an unexpected end of file.\<close>

theorem read_frame_implements_format:
  assumes "clean s"
  shows "frame_result_ok (stream_bytes s) (read_frame s)"
  using assms by (rule read_frame_parses)

theorem read_frame_implements_format_witness:
  "frame_result_ok [0, 0, 0, 10, 0x11, 104] (read_frame [Chunk [0, 0, 0, 10, 0x11, 104]])"
  using read_frame_implements_format [of "[Chunk [0, 0, 0, 10, 0x11, 104]]"] by simp

text \<open>Whatever the stream delivers, errors included, a frame that \<open>read_frame\<close> returns is
  below the length cap: no length prefix makes the shim hold more than the cap.\<close>

theorem read_frame_bounded:
  assumes "fst (read_frame s) = Inr (Some f)"
  shows "length (payload f) < MAX_FRAME_LEN"
proof -
  obtain lb s1 body where "fst (read_exact (be_val lb) [] s1) = Inr body" "f = new_frame (hd body) (tl body)"
      "be_val lb \<noteq> 0" "be_val lb \<le> MAX_FRAME_LEN"
    using assms
    by (auto simp: read_frame_def Let_def not_less split: prod.splits sum.splits option.splits if_splits)
       (metis fst_conv)
  with read_exact_length [of "be_val lb" "[]" s1 body] show ?thesis by (simp add: new_frame_def)
qed

theorem read_frame_bounded_witness:
  "length (payload (new_frame 0x11 [104])) < MAX_FRAME_LEN"
  by (rule read_frame_bounded [of "[Chunk [0, 0, 0, 2, 0x11, 104]]"])
     (simp add: read_frame_def Let_def read_exact_or_eof.simps read_exact.simps MAX_FRAME_LEN_def
       new_frame_def)

end
