(* ===== verification/Credit.thy ===== *)
theory Credit
  imports Frame
begin

text \<open>
  The read budget of \<open>native/forcola_shim/src/credit.rs\<close>. A \<open>Credit\<close> is the state behind
  the mutex; every method is one critical section, so one function on the state. The condition
  variable of \<open>await_permit\<close> is modelled by the operations the other threads perform while the
  pump waits: each of them notifies, and the loop looks again.
\<close>

section \<open>State and operations\<close>

record credit =
  available :: u64
  uncorked :: bool
  cancelled :: bool

datatype permit = Read nat | Uncork | Cancel

definition credit_new :: credit where
  "credit_new = \<lparr>available = 0, uncorked = False, cancelled = False\<rparr>"

definition grant :: "u64 \<Rightarrow> credit \<Rightarrow> credit" where
  "grant n st = st\<lparr>available := sat_add (available st) n\<rparr>"

definition uncork :: "credit \<Rightarrow> credit" where
  "uncork st = st\<lparr>uncorked := True\<rparr>"

definition cancel :: "credit \<Rightarrow> credit" where
  "cancel st = st\<lparr>cancelled := True\<rparr>"

definition consume :: "nat \<Rightarrow> credit \<Rightarrow> credit" where
  "consume n st = st\<lparr>available := sat_sub (available st) (word_of_nat n)\<rparr>"

datatype credit_op = OpGrant u64 | OpUncork | OpCancel

fun apply_op :: "credit_op \<Rightarrow> credit \<Rightarrow> credit" where
  "apply_op (OpGrant n) st = grant n st"
| "apply_op OpUncork st = uncork st"
| "apply_op OpCancel st = cancel st"

text \<open>One look of the loop in \<open>await_permit\<close>; \<open>None\<close> is \<open>cvar.wait\<close>.\<close>

definition look :: "nat \<Rightarrow> credit \<Rightarrow> permit option" where
  "look m st =
     (if cancelled st then Some Cancel
      else if uncorked st then Some Uncork
      else if available st > 0 then Some (Read (min (unat (available st)) m))
      else None)"

text \<open>The loop, with the operations that arrive while it waits; \<open>None\<close> while it is still parked
  after all of them.\<close>

fun await_permit :: "nat \<Rightarrow> credit \<Rightarrow> credit_op list \<Rightarrow> (permit \<times> credit \<times> credit_op list) option" where
  "await_permit m st ops =
     (case look m st of
        Some p \<Rightarrow> Some (p, st, ops)
      | None \<Rightarrow> (case ops of [] \<Rightarrow> None | op # ops' \<Rightarrow> await_permit m (apply_op op st) ops'))"

declare await_permit.simps [simp del]

definition parse_grant :: "bytes \<Rightarrow> u64 option" where
  "parse_grant p = (if length p = 8 then Some (word_of_nat (be_val p)) else None)"

lemmas credit_defs = credit_new_def grant_def uncork_def cancel_def consume_def

section \<open>The budget contract\<close>

text \<open>
  What a pump may rely on: a grant of \<open>n\<close> adds at most \<open>n\<close>, and taking what is there
  subtracts it. Over any run, then, what was taken is covered by what was granted.
\<close>

datatype budget_op = Give nat | Take nat

locale read_budget =
  fixes avail :: "'b \<Rightarrow> nat"
    and give :: "nat \<Rightarrow> 'b \<Rightarrow> 'b"
    and take_off :: "nat \<Rightarrow> 'b \<Rightarrow> 'b"
    and within :: "nat \<Rightarrow> bool"
  assumes avail_give: "within n \<Longrightarrow> avail (give n b) \<le> avail b + n"
    and avail_take: "n \<le> avail b \<Longrightarrow> avail (take_off n b) = avail b - n"
begin

primrec run :: "budget_op list \<Rightarrow> 'b \<Rightarrow> 'b option" where
  "run [] b = Some b"
| "run (x # xs) b =
     (case x of
        Give n \<Rightarrow> if within n then run xs (give n b) else None
      | Take n \<Rightarrow> if n \<le> avail b then run xs (take_off n b) else None)"

primrec given :: "budget_op list \<Rightarrow> nat" where
  "given [] = 0"
| "given (x # xs) = (case x of Give n \<Rightarrow> n + given xs | Take n \<Rightarrow> given xs)"

primrec taken :: "budget_op list \<Rightarrow> nat" where
  "taken [] = 0"
| "taken (x # xs) = (case x of Give n \<Rightarrow> taken xs | Take n \<Rightarrow> n + taken xs)"

lemma taken_le_given: "run xs b = Some b' \<Longrightarrow> taken xs + avail b' \<le> avail b + given xs"
proof (induction xs arbitrary: b)
  case (Cons x xs)
  show ?case
  proof (cases x)
    case (Give n)
    with Cons.prems have w: "within n" and r: "run xs (give n b) = Some b'"
      by (auto split: if_splits)
    from Cons.IH [OF r] avail_give [OF w, of b] Give show ?thesis by simp
  next
    case (Take n)
    with Cons.prems have le: "n \<le> avail b" and r: "run xs (take_off n b) = Some b'"
      by (auto split: if_splits)
    from Cons.IH [OF r] avail_take [OF le] le Take show ?thesis by simp
  qed
qed simp

end

definition credit_avail :: "credit \<Rightarrow> nat" where
  "credit_avail st = unat (available st)"

lemma credit_avail_grant: "credit_avail (grant n st) = min (credit_avail st + unat n) (2 ^ 64 - 1)"
  by (simp add: credit_avail_def grant_def unat_sat_add)

lemma credit_avail_consume:
  "n < 2 ^ 64 \<Longrightarrow> credit_avail (consume n st) = credit_avail st - n"
  by (simp add: credit_avail_def consume_def unat_sat_sub unat_of_nat take_bit_eq_mod)

lemma credit_avail_less: "credit_avail st < 2 ^ 64"
  using unsigned_less [of "available st", where ?'a = nat] by (simp add: credit_avail_def)

interpretation credit_budget:
  read_budget credit_avail "\<lambda>n. grant (word_of_nat n)" consume "\<lambda>n. n < 2 ^ 64"
proof unfold_locales
  fix n :: nat and b assume "n < 2 ^ 64"
  then show "credit_avail (grant (word_of_nat n) b) \<le> credit_avail b + n"
    by (simp add: credit_avail_grant unat_of_nat take_bit_eq_mod)
next
  fix n :: nat and b assume "n \<le> credit_avail b"
  then show "credit_avail (consume n b) = credit_avail b - n"
    using credit_avail_less [of b] by (intro credit_avail_consume) linarith
qed

section \<open>Properties\<close>

lemma look_Read:
  "look m st = Some (Read k) \<Longrightarrow> k \<le> credit_avail st \<and> k \<le> m \<and> (0 < m \<longrightarrow> 0 < k)"
  by (auto simp: look_def credit_avail_def word_gt_0 unat_gt_0 split: if_splits)

lemma look_None: "look m st = None \<longleftrightarrow> \<not> cancelled st \<and> \<not> uncorked st \<and> available st = 0"
  by (auto simp: look_def word_gt_0)

lemma grant_codec_roundtrip: "parse_grant (be_bytes 8 (unat n)) = Some n"
  using unsigned_less [of n, where ?'a = nat]
  by (simp add: parse_grant_def be_simps)

text \<open>The 8-byte big-endian payload of a CREDIT frame.\<close>

definition encode_grant :: "u64 \<Rightarrow> bytes" where
  "encode_grant n = be_bytes 8 (unat n)"

definition decode_grant :: "bytes \<Rightarrow> (u64 \<times> bytes) option" where
  "decode_grant bs = map_option (\<lambda>n. (n, drop 8 bs)) (parse_grant (take 8 bs))"

interpretation grant_codec: prefix_codec encode_grant decode_grant "\<lambda>_. True"
proof unfold_locales
  fix n rest
  show "decode_grant (encode_grant n @ rest) = Some (n, rest)"
    by (simp add: decode_grant_def encode_grant_def grant_codec_roundtrip)
next
  fix n show "encode_grant n \<noteq> []"
    using length_be_bytes [of 8 "unat n"] by (metis encode_grant_def list.size(3) zero_neq_numeral)
qed

text \<open>\<open>parse_grant\<close> accepts exactly the payloads of eight bytes, and reads each as the number
  whose big-endian form it is.\<close>

theorem parse_grant_exact: "parse_grant p = Some n \<longleftrightarrow> p = be_bytes 8 (unat n)"
proof
  assume "parse_grant p = Some n"
  then have len: "length p = 8" and n: "n = word_of_nat (be_val p)"
    by (auto simp: parse_grant_def split: if_splits)
  from be_val_bound [of p] len have "be_val p < 2 ^ 64" by simp
  with n have "unat n = be_val p" by (simp add: unat_of_nat take_bit_eq_mod)
  with len be_bytes_be_val [of p] show "p = be_bytes 8 (unat n)" by simp
next
  assume "p = be_bytes 8 (unat n)"
  then show "parse_grant p = Some n" by (simp add: grant_codec_roundtrip)
qed

definition after_ops :: "credit \<Rightarrow> credit_op list \<Rightarrow> nat \<Rightarrow> credit" where
  "after_ops st ops k = fold apply_op (take k ops) st"

lemma after_ops_simps [simp]:
  "after_ops st ops 0 = st"
  "after_ops st (op # ops) (Suc k) = after_ops (apply_op op st) ops k"
  by (simp_all add: after_ops_def)

text \<open>No wake-up is lost and none is spurious: \<open>await_permit\<close> returns right after the first
  operation (or at once) that leaves something to permit, with the permit that state gives, and
  stays parked as long as every state it sees is uncancelled, corked and without budget.\<close>

theorem await_permit_first:
  "case await_permit m st ops of
     None \<Rightarrow> \<forall>j\<le>length ops. look m (after_ops st ops j) = None
   | Some (p, st', ops') \<Rightarrow>
       \<exists>k\<le>length ops. st' = after_ops st ops k \<and> ops' = drop k ops \<and> look m st' = Some p
         \<and> (\<forall>j<k. look m (after_ops st ops j) = None)"
proof (induction m st ops rule: await_permit.induct)
  case (1 m st ops)
  show ?case
  proof (cases "look m st")
    case (Some p)
    then show ?thesis by (simp add: await_permit.simps [of m st ops] exI [of _ 0])
  next
    case None
    show ?thesis
    proof (cases ops)
      case Nil
      with None show ?thesis by (simp add: await_permit.simps [of m st "[]"])
    next
      case (Cons op ops')
      have eq: "await_permit m st ops = await_permit m (apply_op op st) ops'"
        using None Cons by (simp add: await_permit.simps [of m st "op # ops'"])
      note IH = "1.IH" [OF None Cons]
      show ?thesis
      proof (cases "await_permit m st ops")
        case parked: None
        have "look m (after_ops st ops j) = None" if "j \<le> length ops" for j
          using IH parked None that Cons eq by (cases j) auto
        then show ?thesis by (simp add: parked)
      next
        case (Some r)
        then obtain p st' rest where r: "await_permit m st ops = Some (p, st', rest)"
          by (cases r) auto
        with eq have r': "await_permit m (apply_op op st) ops' = Some (p, st', rest)" by simp
        from IH obtain k where k: "k \<le> length ops'" "st' = after_ops (apply_op op st) ops' k"
          "rest = drop k ops'" "look m st' = Some p"
          "\<forall>j<k. look m (after_ops (apply_op op st) ops' j) = None" unfolding r' by auto
        have "look m (after_ops st ops j) = None" if "j < Suc k" for j
          using k(5) None that Cons by (cases j) auto
        with k r Cons show ?thesis by (auto intro!: exI [of _ "Suc k"])
      qed
    qed
  qed
qed

theorem await_permit_first_witness:
  "await_permit 100 credit_new [OpGrant 50, OpCancel] = Some (Read 50, grant 50 credit_new, [OpCancel])
   \<and> (\<exists>k\<le>2. grant 50 credit_new = after_ops credit_new [OpGrant 50, OpCancel] k \<and> 
        (\<forall>j<k. look 100 (after_ops credit_new [OpGrant 50, OpCancel] j) = None))"
proof -
  have run: "await_permit 100 credit_new [OpGrant 50, OpCancel]
      = Some (Read 50, grant 50 credit_new, [OpCancel])"
    by (simp add: await_permit.simps look_def credit_defs sat_add_def)
  with await_permit_first [where m = 100 and st = credit_new and ops = "[OpGrant 50, OpCancel]"] show ?thesis
    by (auto simp: numeral_2_eq_2)
qed

end
