(* ===== verification/Pump.thy ===== *)
theory Pump
  imports Credit
begin

text \<open>
  The output pumps of \<open>native/forcola_shim/src/supervisor.rs\<close>. \<open>pump_eager\<close> is a loop on one
  pipe and one writer. \<open>pump_gated\<close> shares its budget with the supervisor, which grants,
  uncorks and cancels while the pump sits between any two of its steps, and with the child,
  which writes and closes the pipe: a step relation over all of them.
\<close>

section \<open>The eager pump\<close>

definition BUF_LEN :: nat where "BUF_LEN = 8192"

function pump_eager :: "u8 \<Rightarrow> stream \<Rightarrow> sink \<Rightarrow> stream \<times> sink" where
  "pump_eager t pipe out =
     (case stream_read BUF_LEN pipe of
        (Inr bs, pipe') \<Rightarrow>
          if bs = [] then (pipe', out)
          else (case write_frame t bs out of
                  (Inl e, out') \<Rightarrow> (pipe', out')
                | (Inr _, out') \<Rightarrow> pump_eager t pipe' out')
      | (Inl e, pipe') \<Rightarrow> if is_interrupted e then pump_eager t pipe' out else (pipe', out))"
  by pat_completeness auto
termination
  by (relation "measure (\<lambda>(t, pipe, out). stream_size pipe)")
     (auto simp: BUF_LEN_def dest: stream_read_smaller [OF sym])

declare pump_eager.simps [simp del]

section \<open>The gated pump\<close>

text \<open>Where the pump thread is in its loop, with the bytes in its buffer.\<close>

datatype pump_exit = ExCancelled | ExEof | ExPipeError | ExWriteError

datatype pump_pc =
    AtPermit                 \<comment> \<open>about to call \<open>await_permit\<close>\<close>
  | Uncorked                 \<comment> \<open>in \<open>pipe.read(buf)\<close> with an \<open>Uncork\<close> permit\<close>
  | Gated nat                \<comment> \<open>in \<open>pipe.read(&mut buf[..cap])\<close> with a \<open>Read cap\<close> permit\<close>
  | Consuming bytes          \<comment> \<open>about to call \<open>credit.consume(n)\<close>\<close>
  | Holding bytes            \<comment> \<open>about to write \<open>buf[..n]\<close> as one frame\<close>
  | Exited pump_exit bytes   \<comment> \<open>the loop has ended; the bytes a failed write left unsent\<close>

record pump_sys =
  ps_pc :: pump_pc
  ps_credit :: credit
  ps_pipe :: bytes         \<comment> \<open>in the pipe, written by the child and not yet read\<close>
  ps_closed :: bool        \<comment> \<open>no writer is left\<close>
  ps_out :: "bytes list"   \<comment> \<open>the payloads of the frames sent so far\<close>
  ps_written :: bytes      \<comment> \<open>history: all the child wrote\<close>
  ps_granted :: nat        \<comment> \<open>history: the sum of the grants\<close>

definition pump_start :: pump_sys where
  "pump_start = \<lparr>ps_pc = AtPermit, ps_credit = credit_new, ps_pipe = [], ps_closed = False,
     ps_out = [], ps_written = [], ps_granted = 0\<rparr>"

fun permit_pc :: "permit \<Rightarrow> pump_pc" where
  "permit_pc Cancel = Exited ExCancelled []"
| "permit_pc Uncork = Uncorked"
| "permit_pc (Read cap) = Gated cap"

inductive pump_gated_step :: "pump_sys \<Rightarrow> pump_sys \<Rightarrow> bool" where
  child_write: "\<not> ps_closed s \<Longrightarrow>
     pump_gated_step s (s\<lparr>ps_pipe := ps_pipe s @ bs, ps_written := ps_written s @ bs\<rparr>)"
| child_close: "pump_gated_step s (s\<lparr>ps_closed := True\<rparr>)"
| sup_grant: "pump_gated_step s
     (s\<lparr>ps_credit := grant n (ps_credit s), ps_granted := ps_granted s + unat n\<rparr>)"
| sup_uncork: "pump_gated_step s (s\<lparr>ps_credit := uncork (ps_credit s)\<rparr>)"
| sup_cancel: "pump_gated_step s (s\<lparr>ps_credit := cancel (ps_credit s)\<rparr>)"
| permit: "ps_pc s = AtPermit \<Longrightarrow> look BUF_LEN (ps_credit s) = Some p \<Longrightarrow>
     pump_gated_step s (s\<lparr>ps_pc := permit_pc p\<rparr>)"
| read_uncorked: "ps_pc s = Uncorked \<Longrightarrow> ps_pipe s = bs @ rest \<Longrightarrow> bs \<noteq> [] \<Longrightarrow> length bs \<le> BUF_LEN \<Longrightarrow>
     pump_gated_step s (s\<lparr>ps_pc := Holding bs, ps_pipe := rest\<rparr>)"
| read_gated: "ps_pc s = Gated cap \<Longrightarrow> ps_pipe s = bs @ rest \<Longrightarrow> bs \<noteq> [] \<Longrightarrow> length bs \<le> cap \<Longrightarrow>
     pump_gated_step s (s\<lparr>ps_pc := Consuming bs, ps_pipe := rest\<rparr>)"
| read_eof: "ps_pc s = Uncorked \<or> ps_pc s = Gated cap \<Longrightarrow> ps_pipe s = [] \<Longrightarrow> ps_closed s \<Longrightarrow>
     pump_gated_step s (s\<lparr>ps_pc := Exited ExEof []\<rparr>)"
| read_interrupted: "ps_pc s = Uncorked \<or> ps_pc s = Gated cap \<Longrightarrow>
     pump_gated_step s (s\<lparr>ps_pc := AtPermit\<rparr>)"
| read_error: "ps_pc s = Uncorked \<or> ps_pc s = Gated cap \<Longrightarrow>
     pump_gated_step s (s\<lparr>ps_pc := Exited ExPipeError []\<rparr>)"
| consumed: "ps_pc s = Consuming bs \<Longrightarrow>
     pump_gated_step s (s\<lparr>ps_pc := Holding bs, ps_credit := consume (length bs) (ps_credit s)\<rparr>)"
| sent: "ps_pc s = Holding bs \<Longrightarrow>
     pump_gated_step s (s\<lparr>ps_pc := AtPermit, ps_out := ps_out s @ [bs]\<rparr>)"
| send_failed: "ps_pc s = Holding bs \<Longrightarrow>
     pump_gated_step s (s\<lparr>ps_pc := Exited ExWriteError bs\<rparr>)"

inductive pump_reach :: "pump_sys \<Rightarrow> bool" where
  start: "pump_reach pump_start"
| step: "pump_reach s \<Longrightarrow> pump_gated_step s t \<Longrightarrow> pump_reach t"

inductive_cases pump_gated_stepE: "pump_gated_step s t"

section \<open>Invariant\<close>

text \<open>The bytes the pump has read and not sent.\<close>

fun in_hand :: "pump_pc \<Rightarrow> bytes" where
  "in_hand (Consuming bs) = bs"
| "in_hand (Holding bs) = bs"
| "in_hand (Exited why bs) = bs"
| "in_hand _ = []"

text \<open>The bytes in hand that the budget has already paid for.\<close>

fun paid :: "pump_pc \<Rightarrow> nat" where
  "paid (Holding bs) = length bs"
| "paid (Exited why bs) = length bs"
| "paid _ = 0"

definition forwarded :: "pump_sys \<Rightarrow> nat" where
  "forwarded s = length (concat (ps_out s))"

fun pc_fits :: "pump_pc \<Rightarrow> nat \<Rightarrow> bool" where
  "pc_fits (Gated cap) avail \<longleftrightarrow> cap \<le> avail"
| "pc_fits (Consuming bs) avail \<longleftrightarrow> length bs \<le> avail"
| "pc_fits _ avail \<longleftrightarrow> True"

fun pc_bounded :: "pump_pc \<Rightarrow> bool" where
  "pc_bounded (Gated cap) \<longleftrightarrow> cap \<le> BUF_LEN"
| "pc_bounded (Consuming bs) \<longleftrightarrow> bs \<noteq> [] \<and> length bs \<le> BUF_LEN"
| "pc_bounded (Holding bs) \<longleftrightarrow> bs \<noteq> [] \<and> length bs \<le> BUF_LEN"
| "pc_bounded _ \<longleftrightarrow> True"

definition pump_inv :: "pump_sys \<Rightarrow> bool" where
  "pump_inv s \<longleftrightarrow>
     concat (ps_out s) @ in_hand (ps_pc s) @ ps_pipe s = ps_written s
     \<and> pc_bounded (ps_pc s)
     \<and> (\<forall>bs\<in>set (ps_out s). bs \<noteq> [] \<and> length bs \<le> BUF_LEN)
     \<and> (\<not> uncorked (ps_credit s) \<longrightarrow> ps_pc s \<noteq> Uncorked
          \<and> pc_fits (ps_pc s) (credit_avail (ps_credit s))
          \<and> forwarded s + paid (ps_pc s) + credit_avail (ps_credit s) \<le> ps_granted s)
     \<and> (\<forall>bs. ps_pc s = Exited ExEof bs \<longrightarrow> bs = [] \<and> ps_pipe s = [] \<and> ps_closed s)"


lemma uncorked_ops [simp]:
  "uncorked (grant n c) = uncorked c" "uncorked (uncork c)" "uncorked (cancel c) = uncorked c"
  "uncorked (consume k c) = uncorked c"
  by (simp_all add: credit_defs)

lemma credit_avail_ops [simp]:
  "credit_avail (uncork c) = credit_avail c" "credit_avail (cancel c) = credit_avail c"
  by (simp_all add: credit_defs credit_avail_def)

lemma credit_avail_grant_le: "credit_avail (grant n c) \<le> credit_avail c + unat n"
  by (simp add: credit_avail_grant)

lemma credit_avail_grant_ge: "credit_avail c \<le> credit_avail (grant n c)"
  using credit_avail_less [of c] by (simp add: credit_avail_grant)

lemma pc_fits_mono: "pc_fits pc a \<Longrightarrow> a \<le> b \<Longrightarrow> pc_fits pc b"
  by (cases pc) auto

lemma pump_inv_start: "pump_inv pump_start"
  by (simp add: pump_inv_def pump_start_def forwarded_def credit_avail_def credit_new_def)

lemma pump_inv_permit:
  assumes "pump_inv s" "ps_pc s = AtPermit" "look BUF_LEN (ps_credit s) = Some p"
  shows "pump_inv (s\<lparr>ps_pc := permit_pc p\<rparr>)"
proof (cases p)
  case (Read k)
  with assms(3) look_Read [of BUF_LEN "ps_credit s" k] assms(1,2) show ?thesis
    by (auto simp: pump_inv_def forwarded_def)
next
  case Uncork
  with assms show ?thesis by (auto simp: pump_inv_def look_def split: if_splits)
next
  case Cancel
  with assms show ?thesis by (auto simp: pump_inv_def forwarded_def)
qed

lemma pump_inv_consumed:
  assumes "pump_inv s" "ps_pc s = Consuming bs"
  shows "pump_inv (s\<lparr>ps_pc := Holding bs, ps_credit := consume (length bs) (ps_credit s)\<rparr>)"
proof -
  have "length bs \<le> 8192" using assms by (simp add: pump_inv_def BUF_LEN_def)
  then have "credit_avail (consume (length bs) (ps_credit s)) = credit_avail (ps_credit s) - length bs"
    by (intro credit_avail_consume) simp
  with assms show ?thesis by (auto simp: pump_inv_def forwarded_def)
qed

lemma pump_inv_grant:
  assumes "pump_inv s"
  shows "pump_inv (s\<lparr>ps_credit := grant n (ps_credit s), ps_granted := ps_granted s + unat n\<rparr>)"
  using assms credit_avail_grant_le [of n "ps_credit s"] credit_avail_grant_ge [of "ps_credit s" n]
  by (auto simp: pump_inv_def forwarded_def elim: pc_fits_mono)

lemma pump_inv_step: "pump_gated_step s t \<Longrightarrow> pump_inv s \<Longrightarrow> pump_inv t"
proof (induction rule: pump_gated_step.induct)
  case (sup_grant s n)
  then show ?case by (rule pump_inv_grant)
next
  case (permit s p)
  then show ?case by (intro pump_inv_permit)
next
  case (consumed s bs)
  then show ?case by (intro pump_inv_consumed)
next
  case (child_write s bs)
  then show ?case by (auto simp: pump_inv_def forwarded_def)
next
  case (read_gated s cap bs rest)
  then show ?case by (auto simp: pump_inv_def forwarded_def)
qed (auto simp: pump_inv_def forwarded_def)

lemma pump_reach_inv: "pump_reach s \<Longrightarrow> pump_inv s"
  by (induction rule: pump_reach.induct) (auto intro: pump_inv_start pump_inv_step)

section \<open>Properties\<close>

text \<open>C16: Backpressure holds: as long as the budget has not been uncorked, the bytes the pump has
  sent are covered by the credit granted, under every interleaving of the pump with grants, a
  cancellation and the child's writes.\<close>

theorem gated_pump_within_credit:
  assumes "pump_reach s" "\<not> uncorked (ps_credit s)"
  shows "length (concat (ps_out s)) + credit_avail (ps_credit s) \<le> ps_granted s"
  using pump_reach_inv [OF assms(1)] assms(2) by (simp add: pump_inv_def forwarded_def)

text \<open>C21: The pump neither loses, repeats nor reorders output, and every frame holds between one and
  8192 bytes: what it has sent is always a prefix of what the child wrote, and when it has exited
  at end of file it is all of it.\<close>

theorem gated_pump_in_order:
  assumes "pump_reach s"
  shows "take (length (concat (ps_out s))) (ps_written s) = concat (ps_out s)
    \<and> (\<forall>bs\<in>set (ps_out s). bs \<noteq> [] \<and> length bs \<le> 8192)
    \<and> (ps_pc s = Exited ExEof [] \<longrightarrow> concat (ps_out s) = ps_written s)"
proof -
  from pump_reach_inv [OF assms] have
    inv: "concat (ps_out s) @ in_hand (ps_pc s) @ ps_pipe s = ps_written s"
      "\<forall>bs\<in>set (ps_out s). bs \<noteq> [] \<and> length bs \<le> BUF_LEN"
      "ps_pc s = Exited ExEof [] \<longrightarrow> ps_pipe s = []"
    by (auto simp: pump_inv_def)
  then have "take (length (concat (ps_out s))) (ps_written s) = concat (ps_out s)"
    by (metis append_eq_conv_conj)
  with inv show ?thesis by (auto simp: BUF_LEN_def)
qed

text \<open>A run that sends two bytes on a grant of three.\<close>

definition pump_example :: pump_sys where
  "pump_example = \<lparr>ps_pc = AtPermit, ps_credit = credit_new\<lparr>available := 1\<rparr>, ps_pipe = [3],
     ps_closed = False, ps_out = [[1, 2]], ps_written = [1, 2, 3], ps_granted = 3\<rparr>"

lemma pump_example_reach: "pump_reach pump_example"
proof -
  note go = pump_reach.step
  have "pump_reach (pump_start\<lparr>ps_pipe := [1, 2, 3], ps_written := [1, 2, 3]\<rparr>)" (is "pump_reach ?s1")
    using go [OF pump_reach.start child_write [of pump_start "[1, 2, 3]"]] by (simp add: pump_start_def)
  from go [OF this sup_grant [of _ 3]]
  have "pump_reach (?s1\<lparr>ps_credit := grant 3 credit_new, ps_granted := 3\<rparr>)" (is "pump_reach ?s2")
    by (simp add: pump_start_def)
  from go [OF this permit [of _ "Read 3"]]
  have "pump_reach (?s2\<lparr>ps_pc := Gated 3\<rparr>)" (is "pump_reach ?s3")
    by (simp add: pump_start_def look_def credit_defs sat_add_def BUF_LEN_def)
  from go [OF this read_gated [of _ 3 "[1, 2]" "[3]"]]
  have "pump_reach (?s3\<lparr>ps_pc := Consuming [1, 2], ps_pipe := [3]\<rparr>)" (is "pump_reach ?s4")
    by simp
  from go [OF this consumed [of _ "[1, 2]"]]
  have "pump_reach (?s4\<lparr>ps_pc := Holding [1, 2], ps_credit := credit_new\<lparr>available := 1\<rparr>\<rparr>)"
    (is "pump_reach ?s5")
    by (simp add: credit_defs sat_add_def sat_sub_def)
  from go [OF this sent [of _ "[1, 2]"]] show ?thesis
    by (simp add: pump_example_def pump_start_def)
qed

theorem gated_pump_within_credit_witness:
  "\<not> uncorked (ps_credit pump_example) \<and> length (concat (ps_out pump_example)) \<le> ps_granted pump_example"
  using gated_pump_within_credit [OF pump_example_reach]
  by (simp add: pump_example_def credit_new_def)

theorem gated_pump_in_order_witness:
  "take 2 (ps_written pump_example) = [1, 2]"
  using gated_pump_in_order [OF pump_example_reach] by (simp add: pump_example_def)

lemma write_frame_good_sink:
  assumes "sink_script w = []" "length p < 2 ^ 32 - 1"
  obtains w' where "write_frame t p w = (Inr (), w')" "sink_script w' = []"
    "sink_out w' = sink_out w @ encode_frame \<lparr>tag = t, payload = p\<rparr>"
proof -
  obtain w' where w': "write_frame t p w = (Inr (), w')" "sink_script w' = []"
    using assms(1) by (simp add: write_frame_def write_all_def flush_def Let_def)
  with write_frame_Ok [OF w'(1) assms(2)] that show ?thesis by blast
qed

text \<open>The eager pump forwards all of a child's output: over a pipe without read errors and a
  writer that accepts every write it sends frames of its tag and of at most 8192 bytes, whose
  payloads put together are the child's output.\<close>

theorem eager_pump_complete:
  assumes "clean pipe" "sink_script out = []"
  shows "\<exists>fs. sink_out (snd (pump_eager t pipe out)) = sink_out out @ concat (map encode_frame fs)
    \<and> concat (map payload fs) = stream_bytes pipe
    \<and> (\<forall>f\<in>set fs. tag f = t \<and> payload f \<noteq> [] \<and> length (payload f) \<le> 8192)"
  using assms
proof (induction t pipe out rule: pump_eager.induct)
  case (1 t pipe out)
  have pos: "0 < BUF_LEN" by (simp add: BUF_LEN_def)
  from "1.prems"(1) pos show ?case
  proof (cases rule: stream_read_clean)
    case eof
    then show ?thesis by (simp add: pump_eager.simps [of t "[]" out] exI [of _ "[]"])
  next
    case (intr e pipe')
    with "1.IH"(1) [OF intr(1) [symmetric] refl] "1.prems"(2) show ?thesis
      by (simp add: pump_eager.simps [of t pipe out])
  next
    case (data bs pipe')
    from data(3) have small: "length bs < 2 ^ 32 - 1" by (simp add: BUF_LEN_def)
    obtain out' where out': "write_frame t bs out = (Inr (), out')" "sink_script out' = []"
        "sink_out out' = sink_out out @ encode_frame \<lparr>tag = t, payload = bs\<rparr>"
      using "1.prems"(2) small by (rule write_frame_good_sink)
    from "1.IH"(2) [OF data(1) [symmetric] refl data(2) out'(1) [symmetric] refl data(4) out'(2)]
    obtain fs where fs: "sink_out (snd (pump_eager t pipe' out'))
          = sink_out out' @ concat (map encode_frame fs)"
        "concat (map payload fs) = stream_bytes pipe'"
        "\<forall>f\<in>set fs. tag f = t \<and> payload f \<noteq> [] \<and> length (payload f) \<le> 8192" by auto
    have "pump_eager t pipe out = pump_eager t pipe' out'"
      using data(1,2) out'(1) by (simp add: pump_eager.simps [of t pipe out])
    with fs data(2,3,5) out'(3) show ?thesis
      by (intro exI [of _ "\<lparr>tag = t, payload = bs\<rparr> # fs"]) (simp add: BUF_LEN_def)
  qed
qed

theorem eager_pump_complete_witness:
  "\<exists>fs. sink_out (snd (pump_eager TAG_STDOUT [Chunk [1], Fail (Os EINTR), Chunk [2, 3]]
            \<lparr>sink_out = [], sink_script = []\<rparr>)) = concat (map encode_frame fs)
     \<and> concat (map payload fs) = [1, 2, 3]"
  using eager_pump_complete [of "[Chunk [1], Fail (Os EINTR), Chunk [2, 3]]"
      "\<lparr>sink_out = [], sink_script = []\<rparr>" TAG_STDOUT]
  by (auto simp: decode_error_kind_def errno_defs)

end
