(* ===== verification/ChildOs.thy ===== *)
theory ChildOs
  imports IoError
begin

text \<open>
  The system calls a forked child makes between \<open>fork\<close> and \<open>exec\<close>, as data, and the operating
  system as a function of the call and the world: \<open>Inl\<close> the error number, \<open>Inr\<close> the
  nonnegative result. The kernel is a parameter of every definition that runs such calls.
\<close>

datatype child_call =
    Chdir string
  | Setsid
  | SetControllingTty nat
  | SetWindowSize nat u16 u16
  | WriteProcs nat bytes
  | Setgroups "u32 list"
  | Setgid u32
  | Setuid u32

type_synonym 'w child_os = "child_call \<Rightarrow> 'w \<Rightarrow> (int + nat) \<times> 'w"

text \<open>A call whose result only says whether it failed: \<open>if call() < 0 { return Err(last_os_error()) }\<close>.\<close>

definition checked :: "'w child_os \<Rightarrow> child_call \<Rightarrow> 'w \<Rightarrow> (io_error + unit) \<times> 'w" where
  "checked sys c w =
     (case sys c w of (Inl e, w') \<Rightarrow> (Inl (Os e), w') | (Inr _, w') \<Rightarrow> (Inr (), w'))"

text \<open>The calls of a list in order, up to the first that fails.\<close>

fun run_calls :: "'w child_os \<Rightarrow> child_call list \<Rightarrow> 'w \<Rightarrow> (io_error + unit) \<times> 'w" where
  "run_calls sys [] w = (Inr (), w)"
| "run_calls sys (c # cs) w =
     (case checked sys c w of (Inl e, w') \<Rightarrow> (Inl e, w') | (Inr _, w') \<Rightarrow> run_calls sys cs w')"

text \<open>An operating system that also records the calls it was asked for.\<close>

definition logged :: "'w child_os \<Rightarrow> ('w \<times> child_call list) child_os" where
  "logged sys c wl = (let (r, w') = sys c (fst wl) in (r, (w', snd wl @ [c])))"

lemma checked_logged:
  "checked (logged sys) c (w, l) = (let (r, w') = checked sys c w in (r, (w', l @ [c])))"
  by (auto simp: checked_def logged_def Let_def split: prod.splits sum.splits)

lemma run_calls_append:
  "run_calls sys (as @ bs) w =
     (case run_calls sys as w of (Inl e, w') \<Rightarrow> (Inl e, w') | (Inr _, w') \<Rightarrow> run_calls sys bs w')"
  by (induction as arbitrary: w) (auto split: prod.splits sum.splits)

text \<open>The log of a run is a prefix of the list: all of it, or up to and with the call that failed.\<close>

lemma run_calls_log_error:
  "\<exists>k\<le>length cs. snd (snd (run_calls (logged sys) cs (w, l))) = l @ take k cs
     \<and> (case fst (run_calls (logged sys) cs (w, l)) of
          Inr _ \<Rightarrow> k = length cs
        | Inl e \<Rightarrow> 0 < k \<and> (\<exists>w1 w2. checked sys (cs ! (k - 1)) w1 = (Inl e, w2)))"
proof (induction cs arbitrary: w l)
  case (Cons c cs)
  obtain r w' where c: "checked sys c w = (r, w')" by force
  show ?case
  proof (cases r)
    case (Inl e)
    with c have "\<exists>w1 w2. checked sys c w1 = (Inl e, w2)" by blast
    with c Inl show ?thesis by (intro exI [of _ 1]) (simp add: checked_logged)
  next
    case (Inr u)
    define run where "run = run_calls (logged sys) cs (w', l @ [c])"
    from Cons [of w' "l @ [c]"] obtain k where k: "k \<le> length cs" "snd (snd run) = l @ [c] @ take k cs"
      "case fst run of Inr _ \<Rightarrow> k = length cs
       | Inl e \<Rightarrow> 0 < k \<and> (\<exists>w1 w2. checked sys (cs ! (k - 1)) w1 = (Inl e, w2))"
      by (auto simp: run_def)
    have "run_calls (logged sys) (c # cs) (w, l) = run"
      using c Inr by (simp add: checked_logged run_def)
    with k show ?thesis by (intro exI [of _ "Suc k"]) (simp split: sum.splits)
  qed
qed simp

lemma run_calls_single [simp]: "run_calls sys [c] w = checked sys c w"
  by (auto split: prod.splits sum.splits)

end
