(* ===== verification/SpawnError.thy ===== *)
theory SpawnError
  imports Frame
begin

text \<open>
  Attribution of spawn failures, \<open>native/forcola_shim/src/spawn_error.rs\<close>: the child writes one
  eight-byte report into a close-on-exec pipe, and the parent reads it after the spawn has failed
  to learn which operation did. The pipe is its content with the outcomes of the coming
  \<open>write\<close> calls; text that only the C library knows (\<open>Display\<close> of an OS error) is a
  parameter.
\<close>

section \<open>Stages and failures\<close>

datatype stage = StSpawn | StCwd | StExec | StPrivdrop | StCgroup | StPty

fun stage_code :: "stage \<Rightarrow> u8" where
  "stage_code StSpawn = 1"
| "stage_code StCwd = 2"
| "stage_code StExec = 3"
| "stage_code StPrivdrop = 4"
| "stage_code StCgroup = 5"
| "stage_code StPty = 6"

record spawn_failure =
  sf_stage :: stage
  sf_error :: io_error
  sf_path :: "string option"
  sf_message :: string

definition spawn_failure_new ::
  "(io_error \<Rightarrow> string) \<Rightarrow> stage \<Rightarrow> io_error \<Rightarrow> string option \<Rightarrow> spawn_failure" where
  "spawn_failure_new display st e path =
     \<lparr>sf_stage = st, sf_error = e, sf_path = path, sf_message = display e\<rparr>"

definition spawn_failure_with_message ::
  "stage \<Rightarrow> io_error \<Rightarrow> string option \<Rightarrow> string \<Rightarrow> spawn_failure" where
  "spawn_failure_with_message st e path msg =
     \<lparr>sf_stage = st, sf_error = e, sf_path = path, sf_message = msg\<rparr>"

record spawn_error_report =
  se_stage :: stage
  se_reason :: string
  se_errno :: "int option"
  se_path :: "string option"

definition failure_report :: "spawn_failure \<Rightarrow> spawn_error_report" where
  "failure_report f = \<lparr>se_stage = sf_stage f, se_reason = error_reason (sf_error f),
     se_errno = raw_os_error (sf_error f), se_path = sf_path f\<rparr>"

section \<open>The channel\<close>

text \<open>The pipe of the reports and its copies above the standard descriptors. An \<open>OwnedFd\<close> is
  closed where it goes out of scope, the youngest first.\<close>

record 'w pipe_os =
  pp_pipe :: "'w \<Rightarrow> (int + nat \<times> nat) \<times> 'w"
  pp_dupfd :: "nat \<Rightarrow> nat \<Rightarrow> 'w \<Rightarrow> (int + nat) \<times> 'w"
  pp_close :: "nat \<Rightarrow> 'w \<Rightarrow> 'w"

definition channel :: "'w pipe_os \<Rightarrow> 'w \<Rightarrow> (io_error + nat \<times> nat) \<times> 'w" where
  "channel os w =
     (case pp_pipe os w of
        (Inl e, w) \<Rightarrow> (Inl (Os e), w)
      | (Inr (r, wr), w) \<Rightarrow>
          (case pp_dupfd os r 3 w of
             (Inl e, w) \<Rightarrow> (Inl (Os e), pp_close os r (pp_close os wr w))
           | (Inr r', w) \<Rightarrow>
               (case pp_dupfd os wr 3 w of
                  (Inl e, w) \<Rightarrow> (Inl (Os e), pp_close os r (pp_close os wr (pp_close os r' w)))
                | (Inr wr', w) \<Rightarrow> (Inr (r', wr'), pp_close os r (pp_close os wr w)))))"

text \<open>A new descriptor was free, a copy is at least the number it was asked for.\<close>

definition fd_laws :: "'w pipe_os \<Rightarrow> ('w \<Rightarrow> nat set) \<Rightarrow> bool" where
  "fd_laws os fds \<longleftrightarrow>
     (\<forall>w. case pp_pipe os w of
        (Inl e, w') \<Rightarrow> fds w' = fds w
      | (Inr (r, wr), w') \<Rightarrow> r \<notin> fds w \<and> wr \<notin> fds w \<and> r \<noteq> wr \<and> fds w' = {r, wr} \<union> fds w)
     \<and> (\<forall>fd lo w. case pp_dupfd os fd lo w of
        (Inl e, w') \<Rightarrow> fds w' = fds w
      | (Inr d, w') \<Rightarrow> lo \<le> d \<and> d \<notin> fds w \<and> fds w' = insert d (fds w))
     \<and> (\<forall>fd w. fds (pp_close os fd w) = fds w - {fd})"

text \<open>Opening the channel leaves its two ends, above the standard descriptors, or nothing.\<close>

lemma channel_fds:
  assumes "fd_laws os fds" "channel os w = (x, w')"
  shows "case x of
      Inl e \<Rightarrow> fds w' = fds w
    | Inr (r, wr) \<Rightarrow> 3 \<le> r \<and> 3 \<le> wr \<and> r \<noteq> wr \<and> r \<notin> fds w \<and> wr \<notin> fds w \<and> fds w' = {r, wr} \<union> fds w"
proof -
  note laws = assms(1) [unfolded fd_laws_def]
  have close: "fds (pp_close os fd w) = fds w - {fd}" for fd w using laws by blast
  obtain p w1 where p: "pp_pipe os w = (p, w1)" by force
  show ?thesis
  proof (cases p)
    case (Inl e)
    have "fds w1 = fds w" using laws [THEN conjunct1, rule_format, of w] p Inl by simp
    with assms(2) p Inl show ?thesis by (auto simp: channel_def)
  next
    case (Inr ends)
    obtain r wr where ends: "ends = (r, wr)" by force
    have 1: "r \<notin> fds w" "wr \<notin> fds w" "r \<noteq> wr" "fds w1 = {r, wr} \<union> fds w"
      using laws [THEN conjunct1, rule_format, of w] p Inr ends by simp_all
    have dup: "case pp_dupfd os fd lo w of (Inl e, w') \<Rightarrow> fds w' = fds w
        | (Inr d, w') \<Rightarrow> lo \<le> d \<and> d \<notin> fds w \<and> fds w' = insert d (fds w)" for fd lo w
      using laws [THEN conjunct2, THEN conjunct1] by (elim allE)
    obtain a w2 where a: "pp_dupfd os r 3 w1 = (a, w2)" by force
    obtain b w3 where b: "pp_dupfd os wr 3 w2 = (b, w3)" by force
    show ?thesis
      using assms(2) p Inr ends a b 1 dup [where fd = r and lo = 3 and w = w1] dup [where fd = wr and lo = 3 and w = w2]
      by (cases a; cases b) (auto simp: channel_def close)
  qed
qed

section \<open>The report pipe\<close>

text \<open>\<open>WroteN n\<close> is a \<open>write\<close> that returned \<open>n\<close> (at most the bytes it was given), \<open>WroteErr\<close>
  one that failed; with no outcome left a \<open>write\<close> takes everything.\<close>

datatype write_outcome = WroteN nat | WroteErr int

record report_pipe =
  rp_bytes :: bytes
  rp_outcomes :: "write_outcome list"

definition report_bytes :: "stage \<Rightarrow> int \<Rightarrow> bytes" where
  "report_bytes st errno = [0x46, 0x53, stage_code st, 0] @ be_bytes 4 (unat (word_of_int errno :: u32))"

text \<open>The loop of \<open>ChildReporter::write\<close> over the outcomes of its \<open>write\<close> calls.\<close>

fun report_write_loop :: "bytes \<Rightarrow> bytes \<Rightarrow> write_outcome list \<Rightarrow> (io_error + unit) \<times> report_pipe" where
  "report_write_loop record content [] =
     (Inr (), \<lparr>rp_bytes = content @ record, rp_outcomes = []\<rparr>)"
| "report_write_loop record content (WroteN n # os) =
     (if n = length record then Inr () else Inl (Os EIO),
      \<lparr>rp_bytes = content @ take n record, rp_outcomes = os\<rparr>)"
| "report_write_loop record content (WroteErr e # os) =
     (if e = EINTR then report_write_loop record content os
      else (Inl (Os e), \<lparr>rp_bytes = content, rp_outcomes = os\<rparr>))"

definition reporter_write :: "stage \<Rightarrow> int \<Rightarrow> report_pipe \<Rightarrow> (io_error + unit) \<times> report_pipe" where
  "reporter_write st errno p = report_write_loop (report_bytes st errno) (rp_bytes p) (rp_outcomes p)"

definition reporter_check :: "stage \<Rightarrow> (io_error + unit) \<Rightarrow> report_pipe \<Rightarrow> (io_error + unit) \<times> report_pipe" where
  "reporter_check st result p =
     (case result of
        Inl e \<Rightarrow>
          (result, snd (reporter_write st (case raw_os_error e of Some n \<Rightarrow> n | None \<Rightarrow> EINVAL) p))
      | Inr _ \<Rightarrow> (result, p))"

definition ready_for_exec :: "report_pipe \<Rightarrow> (io_error + unit) \<times> report_pipe" where
  "ready_for_exec p = reporter_write StExec 0 p"

section \<open>Reading the report\<close>

text \<open>\<open>i32::from_be_bytes\<close> of four bytes.\<close>

definition be_i32 :: "bytes \<Rightarrow> int" where
  "be_i32 bs = sint (word_of_nat (be_val bs) :: u32)"

definition attribute :: "bytes \<Rightarrow> io_error \<Rightarrow> stage" where
  "attribute b e =
     (if take 2 b = [0x46, 0x53] \<and> b ! 3 = 0 then
        let code = b ! 2; n = be_i32 (drop 4 b) in
        if code = 2 \<and> n > 0 \<and> raw_os_error e = Some n then StCwd
        else if code = 3 \<and> n = 0 then StExec
        else if code = 4 \<and> n > 0 \<and> raw_os_error e = Some n then StPrivdrop
        else if code = 5 \<and> n > 0 \<and> raw_os_error e = Some n then StCgroup
        else if code = 6 \<and> n > 0 \<and> raw_os_error e = Some n then StPty
        else StSpawn
      else StSpawn)"

definition report_failure ::
  "(io_error \<Rightarrow> string) \<Rightarrow> stream \<Rightarrow> io_error \<Rightarrow> string \<Rightarrow> string option \<Rightarrow> string option \<Rightarrow> spawn_failure" where
  "report_failure display pipe e argv0 cwd cgroup =
     (let st = (case fst (read_exact 8 [] pipe) of Inr b \<Rightarrow> attribute b e | Inl _ \<Rightarrow> StSpawn);
          path = (case st of StCwd \<Rightarrow> cwd | StExec \<Rightarrow> Some argv0 | StCgroup \<Rightarrow> cgroup | _ \<Rightarrow> None)
      in spawn_failure_new display st e path)"

section \<open>The report as a code\<close>

lemma length_report_bytes [simp]: "length (report_bytes st n) = 8"
  by (simp add: report_bytes_def)

lemma stage_code_inject [simp]: "stage_code a = stage_code b \<longleftrightarrow> a = b"
  by (cases a; cases b; simp)

definition stage_of_code :: "u8 \<Rightarrow> stage option" where
  "stage_of_code c = find (\<lambda>st. stage_code st = c) [StSpawn, StCwd, StExec, StPrivdrop, StCgroup, StPty]"

lemma stage_of_code_stage_code [simp]: "stage_of_code (stage_code st) = Some st"
  by (cases st) (simp_all add: stage_of_code_def)

lemma be_i32_report:
  assumes "- (2 ^ 31) \<le> n" "n < 2 ^ 31"
  shows "be_i32 (be_bytes 4 (unat (word_of_int n :: u32))) = n"
proof -
  have "unat (word_of_int n :: u32) < 256 ^ 4"
    using unsigned_less [of "word_of_int n :: u32", where ?'a = nat] by simp
  then have "be_i32 (be_bytes 4 (unat (word_of_int n :: u32))) = sint (word_of_int n :: u32)"
    by (simp add: be_i32_def be_simps)
  also have "\<dots> = n"
    using assms by (simp add: sint_sbintrunc' signed_take_bit_int_eq_self_iff)
  finally show ?thesis .
qed

definition encode_report :: "stage \<times> u32 \<Rightarrow> bytes" where
  "encode_report r = report_bytes (fst r) (uint (snd r))"

definition decode_report :: "bytes \<Rightarrow> ((stage \<times> u32) \<times> bytes) option" where
  "decode_report bs =
     (if 8 \<le> length bs \<and> take 2 bs = [0x46, 0x53] \<and> bs ! 3 = 0 then
        map_option (\<lambda>st. ((st, word_of_nat (be_val (take 4 (drop 4 bs)))), drop 8 bs))
          (stage_of_code (bs ! 2))
      else None)"

interpretation report_codec: prefix_codec encode_report decode_report "\<lambda>_. True"
proof unfold_locales
  fix r :: "stage \<times> u32" and rest
  have "unat (snd r) < 256 ^ 4"
    using unsigned_less [of "snd r", where ?'a = nat] by simp
  then show "decode_report (encode_report r @ rest) = Some (r, rest)"
    by (cases r) (simp add: decode_report_def encode_report_def report_bytes_def be_simps)
next
  fix r show "encode_report r \<noteq> []" by (simp add: encode_report_def report_bytes_def)
qed

lemma report_write_loop_ok:
  assumes "list_all (\<lambda>o'. o' = WroteErr EINTR) os"
  shows "report_write_loop r c os = (Inr (), \<lparr>rp_bytes = c @ r, rp_outcomes = []\<rparr>)"
  using assms by (induction os) auto

lemma read_exact_report:
  assumes "clean s" "stream_bytes s = b @ rest" "length b = n"
  shows "fst (read_exact n [] s) = Inr b"
proof -
  have "n \<le> length (stream_bytes s)" using assms(2,3) by simp
  with assms(1) obtain s' where "read_exact n [] s = (Inr (take n (stream_bytes s)), s')"
    by (rule read_exact_clean_full)
  with assms(2,3) show ?thesis by simp
qed

lemma attribute_report_bytes:
  assumes "st \<in> {StCwd, StPrivdrop, StCgroup, StPty}" "0 < n" "n < 2 ^ 31"
  shows "attribute (report_bytes st n) (Os n) = st"
proof -
  have "drop 4 (report_bytes st n) = be_bytes 4 (unat (word_of_int n :: u32))"
    by (simp add: report_bytes_def)
  with assms(2,3) be_i32_report [of n] have n: "be_i32 (drop 4 (report_bytes st n)) = n" by simp
  have b: "take 2 (report_bytes st n) = [0x46, 0x53]" "report_bytes st n ! 3 = 0"
    "report_bytes st n ! 2 = stage_code st" by (simp_all add: report_bytes_def)
  show ?thesis using assms(1,2) unfolding attribute_def Let_def n b by auto
qed

lemma attribute_exec: "attribute (report_bytes StExec 0) e = StExec"
proof -
  have "drop 4 (report_bytes StExec 0) = be_bytes 4 0" by (simp add: report_bytes_def)
  then have n: "be_i32 (drop 4 (report_bytes StExec 0)) = 0"
    using be_i32_report [of 0] by simp
  have b: "take 2 (report_bytes StExec 0) = [0x46, 0x53]" "report_bytes StExec 0 ! 3 = 0"
    "report_bytes StExec 0 ! 2 = 3" by (simp_all add: report_bytes_def)
  show ?thesis unfolding attribute_def Let_def n b by simp
qed

section \<open>Properties\<close>

text \<open>C30: A failing operation of the child is attributed to its stage: when \<open>check\<close> reports an
  OS error of one of the stages the parent distinguishes into the empty pipe, however often the
  write is interrupted, \<open>failure\<close> with the same error names that stage and the path that
  belongs to it.\<close>

theorem reported_failure_is_attributed:
  assumes "st \<in> {StCwd, StPrivdrop, StCgroup, StPty}" "0 < n" "n < 2 ^ 31"
    and "reporter_check st (Inl (Os n)) \<lparr>rp_bytes = [], rp_outcomes = os\<rparr> = (r, p)"
    and "list_all (\<lambda>o'. o' = WroteErr EINTR) os"
    and "clean pipe" "stream_bytes pipe = rp_bytes p"
  shows "r = Inl (Os n)
    \<and> sf_stage (report_failure display pipe (Os n) argv0 cwd cgroup) = st
    \<and> sf_path (report_failure display pipe (Os n) argv0 cwd cgroup)
        = (case st of StCwd \<Rightarrow> cwd | StCgroup \<Rightarrow> cgroup | _ \<Rightarrow> None)"
proof -
  have p: "r = Inl (Os n)" "rp_bytes p = report_bytes st n"
    using assms(4,5) by (auto simp: reporter_check_def reporter_write_def report_write_loop_ok)
  have "fst (read_exact 8 [] pipe) = Inr (report_bytes st n)"
    using assms(6,7) p(2) by (intro read_exact_report [of pipe _ "[]"]) simp_all
  with p(1) attribute_report_bytes [OF assms(1-3)] assms(1) show ?thesis
    by (auto simp: report_failure_def spawn_failure_new_def Let_def)
qed

theorem reported_failure_is_attributed_witness:
  "sf_stage (report_failure (\<lambda>e. '''') [Chunk (report_bytes StCwd ENOTDIR)] (Os ENOTDIR)
      ''echo'' (Some ''a-file'') None) = StCwd"
proof -
  have "reporter_check StCwd (Inl (Os ENOTDIR)) \<lparr>rp_bytes = [], rp_outcomes = [WroteErr EINTR]\<rparr>
      = (Inl (Os ENOTDIR), \<lparr>rp_bytes = report_bytes StCwd ENOTDIR, rp_outcomes = []\<rparr>)"
    by (simp add: reporter_check_def reporter_write_def)
  from reported_failure_is_attributed [OF _ _ _ this] show ?thesis
    by (simp add: ENOTDIR_def report_bytes_def)
qed

text \<open>The parent never invents an attribution: whatever is in the pipe, a stage other than
  \<open>spawn\<close> is named only when the first eight bytes are the report of that stage, carrying errno
  0 for the exec marker and otherwise the very error the spawn returned.\<close>

theorem attribution_needs_report:
  assumes "st = sf_stage (report_failure display pipe e argv0 cwd cgroup)" "st \<noteq> StSpawn"
  shows "\<exists>n rest. fst (read_exact 8 [] pipe) = Inr (report_bytes st n)
    \<and> (if st = StExec then n = 0 else n > 0 \<and> e = Os n)"
proof -
  obtain b where b: "fst (read_exact 8 [] pipe) = Inr b" and st: "st = attribute b e"
    using assms by (auto simp: report_failure_def spawn_failure_new_def Let_def split: sum.splits)
  have len: "length b = 8"
    using b read_exact_length [of 8 "[]" pipe b] by simp
  define n where "n = be_i32 (drop 4 b)"
  have hdr: "take 2 b = [0x46, 0x53]" "b ! 3 = 0" "b ! 2 = stage_code st"
    and n: "if st = StExec then n = 0 else n > 0 \<and> raw_os_error e = Some n"
    using st assms(2) by (auto simp: attribute_def n_def Let_def split: if_splits)
  have "b = report_bytes st n"
  proof -
    have "b = take 2 b @ [b ! 2, b ! 3] @ drop 4 b"
      using len by (simp add: list_eq_iff_nth_eq nth_append nth_Cons' less_Suc_eq numeral_eq_Suc)
    moreover have "drop 4 b = be_bytes 4 (unat (word_of_int n :: u32))"
    proof -
      have "be_val (drop 4 b) < 2 ^ 32" using be_val_bound [of "drop 4 b"] len by simp
      moreover have "(word_of_int n :: u32) = word_of_nat (be_val (drop 4 b))"
        by (simp add: n_def be_i32_def)
      ultimately have "unat (word_of_int n :: u32) = be_val (drop 4 b)"
        by (simp add: unat_of_nat take_bit_eq_mod)
      with be_bytes_be_val [of "drop 4 b"] len show ?thesis by simp
    qed
    ultimately show ?thesis using hdr by (simp add: report_bytes_def)
  qed
  with b n show ?thesis by (cases e) (auto split: if_splits)
qed

theorem attribution_needs_report_witness:
  "\<exists>n. fst (read_exact 8 [] [Chunk (report_bytes StExec 0)]) = Inr (report_bytes StExec n)"
proof -
  have "fst (read_exact 8 [] [Chunk (report_bytes StExec 0)]) = Inr (report_bytes StExec 0)"
    by (intro read_exact_report [of _ _ "[]"]) (simp_all add: report_bytes_def)
  then have "StExec = sf_stage (report_failure (\<lambda>e. '''') [Chunk (report_bytes StExec 0)] (Os ENOENT)
      ''missing'' None None)"
    by (simp add: report_failure_def spawn_failure_new_def attribute_exec Let_def)
  from attribution_needs_report [OF this] show ?thesis by auto
qed

end
