(* ===== verification/Cgroup.thy ===== *)
theory Cgroup
  imports ChildOs SpawnError
begin

text \<open>
  Cgroup v2 containment, \<open>native/forcola_shim/src/cgroup.rs\<close>: the parent prepares a directory
  and its \<open>cgroup.procs\<close> descriptor, the child writes its own pid there, and the supervisor
  kills, observes and removes the directory. The file system is a record of operations on a
  world; paths are the bytes of their UTF-8 form.
\<close>

section \<open>The file system\<close>

record 'w fs_ops =
  fs_exists :: "string \<Rightarrow> 'w \<Rightarrow> bool \<times> 'w"
  fs_read :: "string \<Rightarrow> 'w \<Rightarrow> (io_error + bytes) \<times> 'w"
  fs_mkdir :: "string \<Rightarrow> 'w \<Rightarrow> (io_error + unit) \<times> 'w"
  fs_rmdir :: "string \<Rightarrow> 'w \<Rightarrow> (io_error + unit) \<times> 'w"
  fs_open_write :: "string \<Rightarrow> 'w \<Rightarrow> (io_error + nat) \<times> 'w"
  fs_write_all :: "nat \<Rightarrow> bytes \<Rightarrow> 'w \<Rightarrow> (io_error + unit) \<times> 'w"
  fs_close :: "nat \<Rightarrow> 'w \<Rightarrow> 'w"

text \<open>\<open>Path::join\<close>\<close>

definition path_join :: "string \<Rightarrow> string \<Rightarrow> string" where
  "path_join a b =
     (if b \<noteq> [] \<and> hd b = CHR ''/'' then b
      else if a = [] \<or> last a = CHR ''/'' then a @ b
      else a @ ''/'' @ b)"

text \<open>\<open>read_to_string\<close>: the bytes, which must be UTF-8.\<close>

definition read_to_string :: "'w fs_ops \<Rightarrow> string \<Rightarrow> 'w \<Rightarrow> (io_error + str) \<times> 'w" where
  "read_to_string fs p w =
     (case fs_read fs p w of
        (Inl e, w') \<Rightarrow> (Inl e, w')
      | (Inr bs, w') \<Rightarrow>
          (case from_utf8 bs of
             None \<Rightarrow> Inl (Custom InvalidData ''stream did not contain valid UTF-8'')
           | Some s \<Rightarrow> Inr s, w'))"

section \<open>The child's half\<close>

definition MAX_PID_DIGITS :: nat where "MAX_PID_DIGITS = 11"

text \<open>\<open>format_pid\<close>: the loop that fills the stack buffer from its end; \<open>None\<close> stands for the
  panic of an index below zero.\<close>

function format_digits :: "nat \<Rightarrow> nat \<Rightarrow> bytes \<Rightarrow> (nat \<times> bytes) option" where
  "format_digits value i buf =
     (if value > 0 then
        if i = 0 then None
        else format_digits (value div 10) (i - 1) (buf[i - 1 := 48 + word_of_nat (value mod 10)])
      else Some (i, buf))"
  by pat_completeness auto
termination by (relation "measure (\<lambda>(v, i, b). v)") auto

declare format_digits.simps [simp del]

definition format_pid :: "u32 \<Rightarrow> bytes option" where
  "format_pid pid =
     (let negative = sint pid < 0;
          value = nat \<bar>sint pid\<bar>;
          buf = replicate MAX_PID_DIGITS 0;
          i = length buf
      in case (if value = 0 then Some (i - 1, buf[i - 1 := 48]) else format_digits value i buf) of
           None \<Rightarrow> None
         | Some (i, buf) \<Rightarrow>
             if negative then (if i = 0 then None else Some (drop (i - 1) (buf[i - 1 := 45])))
             else Some (drop i buf))"

definition join_in_child :: "'w child_os \<Rightarrow> u32 \<Rightarrow> nat \<Rightarrow> 'w \<Rightarrow> (io_error + unit) \<times> 'w" where
  "join_in_child sys pid procs_fd w =
     (let b = the (format_pid pid) in
      case sys (WriteProcs procs_fd b) w of
        (Inl e, w') \<Rightarrow> (Inl (Os e), w')
      | (Inr n, w') \<Rightarrow> (if n \<noteq> length b then Inl (Os EIO) else Inr (), w'))"

section \<open>The parent's half\<close>

definition CGROUP_ROOT :: string where "CGROUP_ROOT = ''/sys/fs/cgroup''"

record cgroup =
  cg_dir :: string
  cg_procs :: nat
  cg_kill_fd :: "nat option"

fun parse_cgroup_lines :: "str list \<Rightarrow> str option" where
  "parse_cgroup_lines [] = None"
| "parse_cgroup_lines (line # ls) =
     (case splitn3 58 line of
        [hid, controllers, path] \<Rightarrow>
          if hid = str_of ''0'' \<and> controllers = [] then Some path else parse_cgroup_lines ls
      | _ \<Rightarrow> None)"

definition parse_own_cgroup :: "str \<Rightarrow> str option" where
  "parse_own_cgroup contents = parse_cgroup_lines (str_lines contents)"

definition is_cgroup2 :: "'w fs_ops \<Rightarrow> 'w \<Rightarrow> bool \<times> 'w" where
  "is_cgroup2 fs w = fs_exists fs (path_join CGROUP_ROOT ''cgroup.controllers'') w"

definition own_cgroup_dir :: "'w fs_ops \<Rightarrow> 'w \<Rightarrow> (io_error + string) \<times> 'w" where
  "own_cgroup_dir fs w =
     (case read_to_string fs ''/proc/self/cgroup'' w of
        (Inl e, w') \<Rightarrow> (Inl e, w')
      | (Inr contents, w') \<Rightarrow>
          (case parse_own_cgroup contents of
             None \<Rightarrow> Inl (Custom NotFound ''no cgroup v2 line'')
           | Some rel \<Rightarrow> Inr (path_join CGROUP_ROOT (path_of_str (dropWhile (\<lambda>c. c = 47) rel))), w'))"

definition preparation_error ::
  "(io_error \<Rightarrow> string) \<Rightarrow> io_error \<Rightarrow> string \<Rightarrow> string \<Rightarrow> spawn_failure" where
  "preparation_error display e path ctxt =
     spawn_failure_with_message StCgroup e (Some path) (ctxt @ '': '' @ display e)"

text \<open>The counter behind the directory names is \<open>seq\<close>, the process id \<open>pid\<close>.\<close>

definition create_child_dir ::
  "(io_error \<Rightarrow> string) \<Rightarrow> 'w fs_ops \<Rightarrow> nat \<Rightarrow> nat \<Rightarrow> string \<Rightarrow> 'w \<Rightarrow> (spawn_failure + string) \<times> 'w" where
  "create_child_dir display fs pid sequence parent w =
     (let dir = path_join parent (''forcola-'' @ fmt_nat pid @ ''-'' @ fmt_nat sequence) in
      case fs_mkdir fs dir w of
        (Inl e, w') \<Rightarrow> (Inl (preparation_error display e dir ''subtree not delegated''), w')
      | (Inr _, w') \<Rightarrow> (Inr dir, w'))"

definition try_prepare ::
  "(io_error \<Rightarrow> string) \<Rightarrow> 'w fs_ops \<Rightarrow> nat \<Rightarrow> nat \<Rightarrow> bool \<Rightarrow> 'w \<Rightarrow> (spawn_failure + cgroup) \<times> 'w" where
  "try_prepare display fs pid sequence required w0 =
     (case is_cgroup2 fs w0 of (v2, w1) \<Rightarrow>
      if \<not> v2 then
        (Inl (spawn_failure_new display StCgroup (Custom Unsupported ''no cgroup v2 unified hierarchy'')
           (Some (CGROUP_ROOT @ ''/cgroup.controllers''))), w1)
      else case own_cgroup_dir fs w1 of
        (Inl e, w2) \<Rightarrow> (Inl (preparation_error display e ''/proc/self/cgroup'' ''cannot read own cgroup''), w2)
      | (Inr own, w2) \<Rightarrow>
      (case create_child_dir display fs pid sequence own w2 of
        (Inl f, w3) \<Rightarrow> (Inl f, w3)
      | (Inr dir, w3) \<Rightarrow>
      (case fs_open_write fs (path_join dir ''cgroup.procs'') w3 of
        (Inl e, w4) \<Rightarrow>
          (Inl (preparation_error display e (path_join dir ''cgroup.procs'') ''cannot open cgroup.procs''),
           snd (fs_rmdir fs dir w4))
      | (Inr procs, w4) \<Rightarrow>
      if required then
        (case fs_open_write fs (path_join dir ''cgroup.kill'') w4 of
           (Inr fd, w5) \<Rightarrow> (Inr \<lparr>cg_dir = dir, cg_procs = procs, cg_kill_fd = Some fd\<rparr>, w5)
         | (Inl e, w5) \<Rightarrow>
             (Inl (preparation_error display e (path_join dir ''cgroup.kill'') ''cannot open cgroup.kill''),
              snd (fs_rmdir fs dir (fs_close fs procs w5))))
      else (Inr \<lparr>cg_dir = dir, cg_procs = procs, cg_kill_fd = None\<rparr>, w4))))"

definition prepare_cgroup ::
  "(io_error \<Rightarrow> string) \<Rightarrow> 'w fs_ops \<Rightarrow> nat \<Rightarrow> nat \<Rightarrow> 'w \<Rightarrow> cgroup option \<times> 'w" where
  "prepare_cgroup display fs pid sequence w =
     (case try_prepare display fs pid sequence False w of
        (Inr cg, w') \<Rightarrow> (Some cg, w') | (Inl f, w') \<Rightarrow> (None, w'))"

definition prepare_required ::
  "(io_error \<Rightarrow> string) \<Rightarrow> 'w fs_ops \<Rightarrow> nat \<Rightarrow> nat \<Rightarrow> 'w \<Rightarrow> (spawn_failure + cgroup) \<times> 'w" where
  "prepare_required display fs pid sequence w =
     (case try_prepare display fs pid sequence True w of
        (Inr cg, w') \<Rightarrow> (Inr cg, w')
      | (Inl f, w') \<Rightarrow>
          (Inl (spawn_failure_with_message StCgroup (sf_error f) (sf_path f)
             (''cgroup containment unavailable: '' @ sf_message f)), w'))"

section \<open>The supervisor's operations\<close>

definition cgroup_kill :: "'w fs_ops \<Rightarrow> cgroup \<Rightarrow> 'w \<Rightarrow> 'w" where
  "cgroup_kill fs cg w =
     (case cg_kill_fd cg of
        Some fd \<Rightarrow> snd (fs_write_all fs fd [49] w)
      | None \<Rightarrow>
          (case fs_open_write fs (path_join (cg_dir cg) ''cgroup.kill'') w of
             (Inr fd, w') \<Rightarrow> fs_close fs fd (snd (fs_write_all fs fd [49] w'))
           | (Inl e, w') \<Rightarrow> w'))"

definition cgroup_drained :: "'w fs_ops \<Rightarrow> cgroup \<Rightarrow> 'w \<Rightarrow> bool \<times> 'w" where
  "cgroup_drained fs cg w =
     (case read_to_string fs (path_join (cg_dir cg) ''cgroup.procs'') w of
        (Inr contents, w') \<Rightarrow> (split_whitespace contents = [], w')
      | (Inl e, w') \<Rightarrow> (False, w'))"

definition cgroup_remove :: "'w fs_ops \<Rightarrow> cgroup \<Rightarrow> 'w \<Rightarrow> 'w" where
  "cgroup_remove fs cg w = snd (fs_rmdir fs (cg_dir cg) w)"

section \<open>Lemmas\<close>

definition digits_of :: "nat \<Rightarrow> bytes" where
  "digits_of v = (if v = 0 then [] else map word_of_nat (show_nat v))"

lemma digits_of_step: "0 < v \<Longrightarrow> digits_of v = digits_of (v div 10) @ [48 + word_of_nat (v mod 10)]"
  using show_nat.simps [of v] by (cases "v < 10") (auto simp: digits_of_def show_nat.simps [of 0])

lemma format_digits_spec:
  "length (digits_of v) \<le> i \<Longrightarrow> i \<le> length buf \<Longrightarrow>
   format_digits v i buf
     = Some (i - length (digits_of v), take (i - length (digits_of v)) buf @ digits_of v @ drop i buf)"
proof (induction v i buf rule: format_digits.induct)
  case (1 v i buf)
  show ?case
  proof (cases "v = 0")
    case True
    then show ?thesis by (simp add: format_digits.simps [of 0 i buf] digits_of_def)
  next
    case False
    then have v: "v > 0" by simp
    note step = digits_of_step [OF v]
    have i: "i \<noteq> 0" using "1.prems"(1) step by auto
    define b where "b = buf[i - 1 := 48 + word_of_nat (v mod 10)]"
    have IH: "format_digits (v div 10) (i - 1) b
      = Some (i - 1 - length (digits_of (v div 10)),
          take (i - 1 - length (digits_of (v div 10))) b @ digits_of (v div 10) @ drop (i - 1) b)"
      using "1.IH" [OF v i] "1.prems" step by (simp add: b_def)
    have "drop (i - 1) b = (48 + word_of_nat (v mod 10)) # drop i buf"
      using i "1.prems"(2) unfolding b_def
      by (simp add: drop_update_swap Cons_nth_drop_Suc [symmetric])
    moreover have "take (i - 1 - n) b = take (i - Suc n) buf" for n
      unfolding b_def by simp
    ultimately show ?thesis
      using v i IH step by (simp add: format_digits.simps [of v i buf] b_def)
  qed
qed

lemma length_show_nat: "n < 10 ^ k \<Longrightarrow> 0 < k \<Longrightarrow> length (show_nat n) \<le> k"
proof (induction k arbitrary: n)
  case (Suc k)
  show ?case
  proof (cases "n < 10")
    case True
    then show ?thesis by (simp add: show_nat.simps [of n])
  next
    case False
    with Suc.prems have "n div 10 < 10 ^ k" "0 < k" by (auto simp: less_mult_imp_div_less intro: Nat.gr0I)
    with Suc.IH [of "n div 10"] False show ?thesis by (simp add: show_nat.simps [of n])
  qed
qed simp

lemma split_v2_line: "splitn3 58 (48 # 58 # 58 # path) = [[48], [], path]"
  by (simp add: splitn3_def)

text \<open>A line of a version 1 hierarchy: an id and a controller list, not both those of version 2.\<close>

definition v1_line :: "str \<Rightarrow> bool" where
  "v1_line l \<longleftrightarrow> 10 \<notin> set l \<and> (\<exists>a c p. l = a @ 58 # c @ 58 # p \<and> 58 \<notin> set a \<and> 58 \<notin> set c
     \<and> \<not> (a = [48] \<and> c = []))"

lemma strip_cr_after: "strip_cr (a @ 58 # p) = a @ 58 # strip_cr p \<or> strip_cr (a @ 58 # p) = a @ 58 # p"
  by (auto simp: strip_cr_def butlast_append)

lemma v1_line_split:
  assumes "v1_line l"
  shows "\<exists>a c p. splitn3 58 (strip_cr l) = [a, c, p] \<and> \<not> (a = [48] \<and> c = [])"
proof -
  obtain a c p where l: "l = a @ 58 # c @ 58 # p" "58 \<notin> set a" "58 \<notin> set c" "\<not> (a = [48] \<and> c = [])"
    using assms unfolding v1_line_def by blast
  have split: "splitn3 58 (a @ 58 # c @ 58 # q) = [a, c, q]" for q
    using l(2,3) by (simp add: splitn3_def split_once_append)
  from strip_cr_after [of "a @ 58 # c" p] split l(1,4) show ?thesis by auto
qed

definition unlines :: "str list \<Rightarrow> str" where
  "unlines ls = concat (map (\<lambda>l. l @ [10]) ls)"

lemma str_lines_Cons: "10 \<notin> set l \<Longrightarrow> str_lines (l @ 10 # s) = strip_cr l # str_lines s"
  using lines_from_line [of l "[]" s] by (simp add: str_lines_def)

lemma parse_own_cgroup_skip: "v1_line l \<Longrightarrow> parse_own_cgroup (l @ 10 # s) = parse_own_cgroup s"
  using v1_line_split [of l]
  by (auto simp: parse_own_cgroup_def str_lines_Cons v1_line_def str_of_def)

text \<open>The decimal form of a pid.\<close>

definition decimal_pid :: "u32 \<Rightarrow> bytes" where
  "decimal_pid pid = map word_of_nat ((if sint pid < 0 then [45] else []) @ show_nat (nat \<bar>sint pid\<bar>))"

lemma format_pid_form: "format_pid pid = Some (decimal_pid pid)"
proof -
  define v where "v = nat \<bar>sint pid\<bar>"
  have "- (2 ^ 31) \<le> sint pid" "sint pid < 2 ^ 31"
    using sint_ge [of pid] sint_lt [of pid] by simp_all
  then have "v < 10 ^ 10" by (simp add: v_def)
  then have len: "length (show_nat v) \<le> 10" by (intro length_show_nat) simp_all
  show ?thesis
  proof (cases "v = 0")
    case True
    then have "sint pid = 0" by (simp add: v_def)
    then show ?thesis
      by (simp add: format_pid_def decimal_pid_def Let_def MAX_PID_DIGITS_def numeral_eq_Suc show_nat.simps)
  next
    case False
    define n where "n = length (show_nat v)"
    have dl: "length (digits_of v) = n" "digits_of v = map word_of_nat (show_nat v)"
      using False by (simp_all add: digits_of_def n_def)
    have n: "n \<le> 10" using len by (simp add: n_def)
    have run: "format_digits v 11 (replicate 11 0)
        = Some (11 - n, replicate (11 - n) 0 @ digits_of v)"
      using format_digits_spec [of v 11 "replicate 11 0"] n dl by simp
    have sign: "drop (11 - n - 1) ((replicate (11 - n) 0 @ d)[11 - n - 1 := 45]) = 45 # d" for d :: bytes
    proof -
      obtain k where k: "11 - n = Suc k" using n by (cases "11 - n") simp_all
      have "(replicate (Suc k) 0 @ d)[k := 45] = replicate k 0 @ 45 # d"
        by (simp add: list_update_append replicate_append_same [symmetric] list_update_append1)
      with k show ?thesis by simp
    qed
    show ?thesis
      using False run n dl(2) sign [of "map word_of_nat (show_nat (nat (- sint pid)))"]
      by (cases "sint pid < 0") (simp_all add: format_pid_def decimal_pid_def Let_def MAX_PID_DIGITS_def v_def)
  qed
qed

section \<open>Properties\<close>

text \<open>The hand-written pid formatter agrees with decimal formatting on every 32-bit pid,
  negative ones and the minimum included, and never runs off its eleven-byte buffer.\<close>

theorem format_pid_decimal:
  "format_pid pid = Some (map word_of_nat
     ((if sint pid < 0 then [45] else []) @ show_nat (nat \<bar>sint pid\<bar>)))"
  using format_pid_form [of pid] by (simp add: decimal_pid_def)

text \<open>A child joins its cgroup or does not run: \<open>join_in_child\<close> succeeds exactly when the one
  write of the pid's decimal form was accepted whole.\<close>

theorem join_in_child_whole:
  "fst (join_in_child sys pid fd w) = Inr () \<longleftrightarrow>
     fst (sys (WriteProcs fd (decimal_pid pid)) w) = Inr (length (decimal_pid pid))"
  by (auto simp: join_in_child_def format_pid_form Let_def split: prod.splits sum.splits)

text \<open>In \<open>/proc/self/cgroup\<close> of a hybrid system the version 2 line is found behind any number
  of version 1 lines, whatever follows it, and its path is returned unchanged, colons included.\<close>

theorem parse_own_cgroup_hybrid:
  assumes "\<forall>l\<in>set pre. v1_line l" "10 \<notin> set path" "path = [] \<or> last path \<noteq> 13"
  shows "parse_own_cgroup (unlines pre @ str_of ''0::'' @ path @ 10 # rest) = Some path"
  using assms(1)
proof (induction pre)
  case Nil
  have "strip_cr (48 # 58 # 58 # path) = 48 # 58 # 58 # path"
    using assms(3) by (auto simp: strip_cr_def)
  then show ?case using assms(2) str_lines_Cons [of "48 # 58 # 58 # path" rest] split_v2_line [of path]
    by (simp add: parse_own_cgroup_def str_of_def unlines_def)
next
  case (Cons l pre)
  then show ?case using parse_own_cgroup_skip [of l] by (simp add: unlines_def)
qed

theorem parse_own_cgroup_hybrid_witness:
  "parse_own_cgroup (unlines [str_of ''12:pids:/a''] @ str_of ''0::'' @ str_of ''/user:x'' @ 10 # str_of ''tail'')
     = Some (str_of ''/user:x'')"
proof (rule parse_own_cgroup_hybrid)
  have "str_of ''12:pids:/a'' = str_of ''12'' @ 58 # str_of ''pids'' @ 58 # str_of ''/a''"
    by (simp add: str_of_def)
  moreover have "10 \<notin> set (str_of ''12:pids:/a'')" "58 \<notin> set (str_of ''12'')" "58 \<notin> set (str_of ''pids'')"
    "str_of ''pids'' \<noteq> []" by (simp_all add: str_of_def)
  ultimately show "\<forall>l\<in>set [str_of ''12:pids:/a'']. v1_line l" unfolding v1_line_def by auto
qed (simp_all add: str_of_def)

text \<open>What the preparation relies on of a file system, seen through the set of its directories:
  creating adds one that was not there, removing takes it away again, nothing else changes it.\<close>

definition dir_laws :: "'w fs_ops \<Rightarrow> ('w \<Rightarrow> string set) \<Rightarrow> bool" where
  "dir_laws fs dirs \<longleftrightarrow>
     (\<forall>p w. dirs (snd (fs_exists fs p w)) = dirs w)
   \<and> (\<forall>p w. dirs (snd (fs_read fs p w)) = dirs w)
   \<and> (\<forall>p w. dirs (snd (fs_open_write fs p w)) = dirs w)
   \<and> (\<forall>fd w. dirs (fs_close fs fd w) = dirs w)
   \<and> (\<forall>p w. case fs_mkdir fs p w of
        (Inr _, w') \<Rightarrow> p \<notin> dirs w \<and> dirs w' = insert p (dirs w)
      | (Inl _, w') \<Rightarrow> dirs w' = dirs w)
   \<and> (\<forall>p w. dirs (snd (fs_rmdir fs p w)) = dirs w - {p})"

lemma dir_laws_steps:
  assumes "dir_laws fs dirs"
  shows "fs_exists fs p w = (b, w') \<Longrightarrow> dirs w' = dirs w"
    and "fs_read fs p w = (bs, w') \<Longrightarrow> dirs w' = dirs w"
    and "fs_open_write fs p w = (fd, w') \<Longrightarrow> dirs w' = dirs w"
    and "fs_mkdir fs p w = (Inr u, w') \<Longrightarrow> p \<notin> dirs w \<and> dirs w' = insert p (dirs w)"
    and "fs_mkdir fs p w = (Inl e, w') \<Longrightarrow> dirs w' = dirs w"
    and "dirs (fs_close fs n w) = dirs w"
    and "dirs (snd (fs_rmdir fs p w)) = dirs w - {p}"
proof -
  show "fs_exists fs p w = (b, w') \<Longrightarrow> dirs w' = dirs w"
    using assms unfolding dir_laws_def by (metis snd_conv)
  show "fs_read fs p w = (bs, w') \<Longrightarrow> dirs w' = dirs w"
    using assms unfolding dir_laws_def by (metis snd_conv)
  show "fs_open_write fs p w = (fd, w') \<Longrightarrow> dirs w' = dirs w"
    using assms unfolding dir_laws_def by (metis snd_conv)
  have "\<forall>p w. case fs_mkdir fs p w of (Inr _, w') \<Rightarrow> p \<notin> dirs w \<and> dirs w' = insert p (dirs w)
      | (Inl _, w') \<Rightarrow> dirs w' = dirs w"
    using assms unfolding dir_laws_def by (elim conjE) assumption
  from spec [OF spec [OF this, of p], of w] show "fs_mkdir fs p w = (Inr u, w') \<Longrightarrow> p \<notin> dirs w \<and> dirs w' = insert p (dirs w)"
    "fs_mkdir fs p w = (Inl e, w') \<Longrightarrow> dirs w' = dirs w" by simp_all
  show "dirs (fs_close fs n w) = dirs w" "dirs (snd (fs_rmdir fs p w)) = dirs w - {p}"
    using assms unfolding dir_laws_def by blast+
qed

lemma dir_laws_own_cgroup_dir:
  assumes "dir_laws fs dirs" "own_cgroup_dir fs w = (r, w')"
  shows "dirs w' = dirs w"
proof -
  obtain bs w1 where bs: "fs_read fs ''/proc/self/cgroup'' w = (bs, w1)" by force
  have "w' = w1"
    using assms(2) unfolding own_cgroup_dir_def read_to_string_def bs
    by (cases bs) (auto split: option.splits)
  with dir_laws_steps(2) [OF assms(1) bs] show ?thesis by simp
qed

lemma dir_laws_create_child_dir:
  assumes "dir_laws fs dirs" "create_child_dir display fs pid sequence parent w = (r, w')"
  shows "case r of Inl f \<Rightarrow> dirs w' = dirs w \<and> sf_stage f = StCgroup
    | Inr dir \<Rightarrow> dir \<notin> dirs w \<and> dirs w' = insert dir (dirs w)"
proof -
  define d where "d = path_join parent (''forcola-'' @ fmt_nat pid @ ''-'' @ fmt_nat sequence)"
  obtain u w1 where u: "fs_mkdir fs d w = (u, w1)" by force
  then have "create_child_dir display fs pid sequence parent w =
      (case u of Inl e \<Rightarrow> (Inl (preparation_error display e d ''subtree not delegated''), w1)
       | Inr _ \<Rightarrow> (Inr d, w1))"
    unfolding create_child_dir_def Let_def d_def [symmetric] by simp
  with assms(2) dir_laws_steps(4,5) [OF assms(1)] u show ?thesis
    by (cases u) (auto simp: preparation_error_def spawn_failure_with_message_def)
qed

lemma try_prepare_dirs:
  assumes "dir_laws fs dirs" "try_prepare display fs pid sequence required w = (r, w')"
  shows "case r of
      Inl f \<Rightarrow> dirs w' = dirs w \<and> sf_stage f = StCgroup
    | Inr cg \<Rightarrow> cg_dir cg \<notin> dirs w \<and> dirs w' = insert (cg_dir cg) (dirs w)
        \<and> (required \<longleftrightarrow> cg_kill_fd cg \<noteq> None)"
proof -
  note laws = dir_laws_steps [OF assms(1)]
  obtain v2 w1 where v2: "is_cgroup2 fs w = (v2, w1)" by force
  have w1: "dirs w1 = dirs w" using v2 laws(1) by (simp add: is_cgroup2_def)
  note run = assms(2) [unfolded try_prepare_def v2, simplified]
  obtain own w2 where own: "own_cgroup_dir fs w1 = (own, w2)" by force
  have w2: "dirs w2 = dirs w1" using own by (rule dir_laws_own_cgroup_dir [OF assms(1)])
  show ?thesis
  proof (cases "\<not> v2 \<or> isl own")
    case True
    with run own w1 w2 show ?thesis
      by (cases v2; cases own)
         (auto simp: spawn_failure_new_def preparation_error_def spawn_failure_with_message_def)
  next
    case False
    then obtain parent where parent: "own = Inr parent" "v2" by (cases own) auto
    obtain dir w3 where dir: "create_child_dir display fs pid sequence parent w2 = (dir, w3)" by force
    note created = dir_laws_create_child_dir [OF assms(1) dir]
    show ?thesis
    proof (cases dir)
      case (Inl f)
      then show ?thesis using run own parent dir created w1 w2 by auto
    next
      case (Inr d)
      obtain fd w4 where fd: "fs_open_write fs (path_join d ''cgroup.procs'') w3 = (fd, w4)" by force
      obtain k w5 where k: "fs_open_write fs (path_join d ''cgroup.kill'') w4 = (k, w5)" by force
      have "dirs w4 = dirs w3" "dirs w5 = dirs w3" using laws(3) fd k by metis+
      moreover have "d \<notin> dirs w" "dirs w3 = insert d (dirs w)" using created Inr w1 w2 by simp_all
      moreover note run [unfolded own parent(1) prod.case sum.case dir Inr fd k]
      ultimately show ?thesis
        by (cases fd; cases required; cases k)
           (auto simp: k parent(2) laws(6,7) preparation_error_def spawn_failure_with_message_def)
    qed
  qed
qed


text \<open>A file system of directories and files that cannot be opened, for the witness.\<close>

definition sample_fs :: "string set fs_ops" where
  "sample_fs = \<lparr>fs_exists = (\<lambda>p w. (True, w)),
     fs_read = (\<lambda>p w. (Inr [48, 58, 58, 47, 117, 10], w)),
     fs_mkdir = (\<lambda>p w. if p \<in> w then (Inl (Os EEXIST), w) else (Inr (), insert p w)),
     fs_rmdir = (\<lambda>p w. (Inr (), w - {p})),
     fs_open_write = (\<lambda>p w. (Inl (Os EACCES), w)),
     fs_write_all = (\<lambda>fd bs w. (Inr (), w)), fs_close = (\<lambda>fd w. w)\<rparr>"

lemma sample_fs_laws: "dir_laws sample_fs (\<lambda>w. w)"
  by (simp add: dir_laws_def sample_fs_def)


end
