(* ===== verification/Identity.thy ===== *)
theory Identity
  imports Cgroup
begin

text \<open>
  Native process identity, \<open>native/forcola_shim/src/identity.rs\<close>: a pid qualified by its kernel
  start time, read from \<open>/proc/<pid>/stat\<close> and the boot id on Linux and from
  \<open>proc_pidinfo\<close> on macOS.
\<close>

section \<open>Identities\<close>

datatype start_time = Linux str u64 | Macos u64 u64

record process_identity =
  pid :: u32
  pgid :: u32
  started :: start_time

record process_record =
  identity :: process_identity
  ppid :: u32
  exited :: bool

definition same_process :: "process_identity \<Rightarrow> process_identity \<Rightarrow> bool" where
  "same_process a b \<longleftrightarrow> pid a = pid b \<and> started a = started b"

lemma same_process_refl [simp]: "same_process a a"
  by (simp add: same_process_def)

lemma same_process_sym: "same_process a b \<Longrightarrow> same_process b a"
  by (simp add: same_process_def)

lemma same_process_trans [trans]: "same_process a b \<Longrightarrow> same_process b c \<Longrightarrow> same_process a c"
  by (simp add: same_process_def)

section \<open>Linux\<close>

fun rposition :: "('a \<Rightarrow> bool) \<Rightarrow> 'a list \<Rightarrow> nat option" where
  "rposition p [] = None"
| "rposition p (x # xs) =
     (case rposition p xs of Some i \<Rightarrow> Some (Suc i) | None \<Rightarrow> if p x then Some 0 else None)"

abbreviation invalid_stat :: "io_error + 'a" where
  "invalid_stat \<equiv> Inl (Custom InvalidData ''invalid process stat'')"

text \<open>The fields after the command name: state, parent, group, and the start time seventeen
  fields after the group.\<close>

definition parse_stat_fields :: "str list \<Rightarrow> io_error + u32 \<times> u32 \<times> u64 \<times> bool" where
  "parse_stat_fields ts =
     (case ts of
        state # pp # pg # rest \<Rightarrow>
          (case parse_u32 pp of
             None \<Rightarrow> invalid_stat
           | Some pp' \<Rightarrow>
               (case (if pg = str_of ''-1'' then Some 0 else parse_u32 pg) of
                  None \<Rightarrow> invalid_stat
                | Some pg' \<Rightarrow>
                    (case drop 16 rest of
                       [] \<Rightarrow> invalid_stat
                     | t # _ \<Rightarrow>
                         (case parse_u64 t of
                            None \<Rightarrow> invalid_stat
                          | Some ticks \<Rightarrow>
                              if pg' = 0 \<or> state = str_of ''X'' \<or> state = str_of ''x'' then Inl (Os ESRCH)
                              else Inr (pp', pg', ticks, state = str_of ''Z'')))))
      | _ \<Rightarrow> invalid_stat)"

definition parse_stat :: "bytes \<Rightarrow> io_error + u32 \<times> u32 \<times> u64 \<times> bool" where
  "parse_stat stat =
     (case rposition (\<lambda>b. b = 41) stat of
        None \<Rightarrow> invalid_stat
      | Some i \<Rightarrow>
          (case from_utf8 (drop (Suc i) stat) of
             None \<Rightarrow> invalid_stat
           | Some s \<Rightarrow> parse_stat_fields (split_whitespace s)))"

definition read_process_linux :: "'w fs_ops \<Rightarrow> u32 \<Rightarrow> 'w \<Rightarrow> (io_error + process_record) \<times> 'w" where
  "read_process_linux fs p w =
     (case fs_read fs (''/proc/'' @ fmt_nat (unat p) @ ''/stat'') w of
        (Inl e, w1) \<Rightarrow> (Inl e, w1)
      | (Inr stat, w1) \<Rightarrow>
          (case parse_stat stat of
             Inl e \<Rightarrow> (Inl e, w1)
           | Inr (parent, grp, ticks, gone) \<Rightarrow>
               (case read_to_string fs ''/proc/sys/kernel/random/boot_id'' w1 of
                  (Inl e, w2) \<Rightarrow> (Inl e, w2)
                | (Inr contents, w2) \<Rightarrow>
                    (let boot_id = trim_str contents in
                     if boot_id = [] then (Inl (Custom InvalidData ''empty boot id''), w2)
                     else (Inr \<lparr>identity = \<lparr>pid = p, pgid = grp, started = Linux boot_id ticks\<rparr>,
                                 ppid = parent, exited = gone\<rparr>, w2)))))"

text \<open>\<open>identity::read\<close>, on either platform's reader.\<close>

definition identity_read ::
  "(u32 \<Rightarrow> 'w \<Rightarrow> (io_error + process_record) \<times> 'w) \<Rightarrow> u32 \<Rightarrow> 'w \<Rightarrow> (io_error + process_identity) \<times> 'w" where
  "identity_read read_process p w =
     (case read_process p w of (Inl e, w') \<Rightarrow> (Inl e, w') | (Inr r, w') \<Rightarrow> (Inr (identity r), w'))"

section \<open>macOS\<close>

record proc_bsdinfo =
  pbi_pid :: u32
  pbi_ppid :: u32
  pbi_pgid :: u32
  pbi_status :: u32
  pbi_start_tvsec :: u64
  pbi_start_tvusec :: u64

text \<open>The result of \<open>proc_pidinfo\<close>: an error, a short write, or the whole structure.\<close>

datatype pidinfo = NoInfo int | ShortInfo | Info proc_bsdinfo

definition read_process_macos :: "(u32 \<Rightarrow> 'w \<Rightarrow> pidinfo \<times> 'w) \<Rightarrow> u32 \<Rightarrow> 'w \<Rightarrow> (io_error + process_record) \<times> 'w" where
  "read_process_macos proc_pidinfo p w =
     (case proc_pidinfo p w of
        (NoInfo e, w') \<Rightarrow> (Inl (Os e), w')
      | (ShortInfo, w') \<Rightarrow> (Inl (Custom InvalidData ''short process info''), w')
      | (Info i, w') \<Rightarrow>
          (if pbi_pid i \<noteq> p \<or> pbi_pgid i = 0 \<or> pbi_start_tvusec i \<ge> 1000000
           then Inl (Custom InvalidData ''invalid process info'')
           else Inr \<lparr>identity = \<lparr>pid = p, pgid = pbi_pgid i,
                       started = Macos (pbi_start_tvsec i) (pbi_start_tvusec i)\<rparr>,
                     ppid = pbi_ppid i, exited = (pbi_status i = 5)\<rparr>, w'))"

section \<open>Lemmas\<close>

lemma rposition_None: "(\<forall>x\<in>set xs. \<not> p x) \<Longrightarrow> rposition p xs = None"
  by (induction xs) auto

lemma rposition_last: "p x \<Longrightarrow> \<forall>y\<in>set ys. \<not> p y \<Longrightarrow> rposition p (xs @ x # ys) = Some (length xs)"
  by (induction xs) (auto simp: rposition_None)

definition ascii :: "str \<Rightarrow> bool" where
  "ascii s \<longleftrightarrow> (\<forall>c\<in>set s. c < 128)"

definition bytes_of :: "str \<Rightarrow> bytes" where
  "bytes_of s = map word_of_nat s"

lemma from_utf8_bytes_of: "ascii s \<Longrightarrow> from_utf8 (bytes_of s) = Some s"
proof -
  assume a: "ascii s"
  then have "map unat (bytes_of s) = s"
    by (induction s) (auto simp: ascii_def bytes_of_def unat_of_nat)
  with a show ?thesis by (simp add: from_utf8_def utf8_decode_ascii ascii_def)
qed

text \<open>A field of a stat line: a word of ASCII without a closing parenthesis.\<close>

definition stat_field :: "str \<Rightarrow> bool" where
  "stat_field t \<longleftrightarrow> word_ok t \<and> ascii t \<and> 41 \<notin> set t"

lemma stat_field_show_nat [simp]: "stat_field (show_nat n)"
  using show_nat_digits [of _ n] by (auto simp: stat_field_def ascii_def dest!: show_nat_digits)

lemma ascii_unwords: "\<forall>t\<in>set ts. stat_field t \<Longrightarrow> ascii (unwords ts) \<and> 41 \<notin> set (unwords ts)"
  by (induction ts rule: unwords.induct) (auto simp: stat_field_def ascii_def)

text \<open>The line the kernel writes; a released group shows as \<open>-1\<close>.\<close>

definition group_field :: "u32 option \<Rightarrow> str" where
  "group_field g = (case g of Some w \<Rightarrow> show_nat (unat w) | None \<Rightarrow> str_of ''-1'')"

definition stat_line ::
  "u32 \<Rightarrow> bytes \<Rightarrow> str \<Rightarrow> u32 \<Rightarrow> u32 option \<Rightarrow> str list \<Rightarrow> u64 \<Rightarrow> str list \<Rightarrow> bytes" where
  "stat_line p comm state parent grp middle ticks rest =
     bytes_of (show_nat (unat p)) @ [32, 40] @ comm @ [41, 32]
     @ bytes_of (unwords ([state, show_nat (unat parent), group_field grp] @ middle @ [show_nat (unat ticks)] @ rest))"

lemma stat_field_group [simp]: "stat_field (group_field g)"
proof (cases g)
  case None
  then show ?thesis
    by (auto simp: group_field_def stat_field_def word_ok_def ascii_def str_of_def is_ws_def)
qed (simp add: group_field_def)

lemma parse_stat_line:
  assumes "stat_field state" "length middle = 16" "\<forall>t\<in>set middle. stat_field t" "\<forall>t\<in>set rest. stat_field t"
  shows "parse_stat (stat_line p comm state parent grp middle ticks rest)
    = parse_stat_fields ([state, show_nat (unat parent), group_field grp] @ middle @ [show_nat (unat ticks)] @ rest)"
proof -
  define fs where "fs = [state, show_nat (unat parent), group_field grp] @ middle @ [show_nat (unat ticks)] @ rest"
  have ok: "\<forall>t\<in>set fs. stat_field t" using assms by (auto simp: fs_def)
  note asc = ascii_unwords [OF ok]
  have "41 \<notin> set (bytes_of (unwords fs))"
  proof
    assume "41 \<in> set (bytes_of (unwords fs))"
    then obtain c where c: "c \<in> set (unwords fs)" "(word_of_nat c :: u8) = 41"
      by (auto simp: bytes_of_def)
    then have "c < 128" using asc by (simp add: ascii_def)
    then have "unat (word_of_nat c :: u8) = c" by (simp add: unat_of_nat)
    with c asc show False by simp
  qed
  then have no: "\<forall>y\<in>set (32 # bytes_of (unwords fs)). \<not> (y = 41)" by auto
  define before where "before = bytes_of (show_nat (unat p)) @ [32, 40] @ comm"
  have line: "stat_line p comm state parent grp middle ticks rest = before @ 41 # bytes_of (32 # unwords fs)"
    by (simp add: stat_line_def fs_def before_def bytes_of_def)
  have "rposition (\<lambda>b. b = 41) (before @ 41 # bytes_of (32 # unwords fs)) = Some (length before)"
    using no by (intro rposition_last) (simp_all add: bytes_of_def)
  moreover have "drop (Suc (length before)) (before @ 41 # bytes_of (32 # unwords fs)) = bytes_of (32 # unwords fs)"
    by simp
  moreover have "from_utf8 (bytes_of (32 # unwords fs)) = Some (32 # unwords fs)"
    using asc by (intro from_utf8_bytes_of) (simp add: ascii_def)
  moreover have "split_whitespace (32 # unwords fs) = fs"
    using ok by (simp add: split_leading_space split_unwords stat_field_def)
  ultimately show ?thesis by (simp add: parse_stat_def line fs_def)
qed

lemma show_nat_not_minus: "show_nat n \<noteq> str_of ''-1''"
  using show_nat_digits [of 45 n] by (auto simp: str_of_def)

section \<open>Properties\<close>

text \<open>C37: \<open>parse_stat\<close> reads back every line the kernel writes, whatever bytes the command name
  holds (spaces, closing parentheses, invalid UTF-8): parent, group, start time and whether the
  process is a zombie. A process whose group was released (\<open>-1\<close> or 0) or that is dead is
  reported as gone (\<open>ESRCH\<close>), not as corrupt.\<close>

theorem parse_stat_roundtrip:
  assumes "stat_field state" "length middle = 16" "\<forall>t\<in>set middle. stat_field t" "\<forall>t\<in>set rest. stat_field t"
  shows "parse_stat (stat_line p comm state parent grp middle ticks rest) =
    (case grp of
       Some g \<Rightarrow> if g = 0 \<or> state \<in> {str_of ''X'', str_of ''x''} then Inl (Os ESRCH)
         else Inr (parent, g, ticks, state = str_of ''Z'')
     | None \<Rightarrow> Inl (Os ESRCH))"
  unfolding parse_stat_line [OF assms]
  using assms(2)
  by (cases grp) (auto simp: parse_stat_fields_def group_field_def show_nat_not_minus)

theorem parse_stat_roundtrip_witness:
  "parse_stat (stat_line 123 [97, 41, 32, 255] (str_of ''S'') 1 (Some 7) (replicate 16 (show_nat 0)) 98765 [show_nat 0])
     = Inr (1, 7, 98765, False)"
  by (subst parse_stat_roundtrip)
     (auto simp: stat_field_def word_ok_def ascii_def str_of_def is_ws_def dest!: show_nat_digits)

text \<open>An error of \<open>parse_stat\<close> is either that the process is gone or that the file is
  corrupt, and what it returns names a group that can be signalled.\<close>

theorem parse_stat_errors:
  "case parse_stat stat of
     Inl e \<Rightarrow> e = Os ESRCH \<or> kind e = InvalidData
   | Inr (parent, grp, ticks, zombie) \<Rightarrow> grp \<noteq> 0"
  by (auto simp: parse_stat_def parse_stat_fields_def split: option.splits list.splits)

end
