(* ===== verification/Tracking.thy ===== *)
theory Tracking
  imports Identity
begin

text \<open>
  Descendant tracking, \<open>native/forcola_shim/src/tracking.rs\<close>: discovery of the processes below the
  shim, signals that are checked against a process identity, and bounded escalation. The
  \<open>Source\<close> trait is a record of operations on a state of its own; \<open>HashMap\<close>s are association
  lists in insertion order; an \<open>Instant\<close> and a \<open>Duration\<close> are numbers of milliseconds;
  \<open>on_macos\<close> stands for \<open>cfg!(target_os = "macos")\<close>.
\<close>

section \<open>State\<close>

definition SAMPLE_INTERVAL :: nat where "SAMPLE_INTERVAL = 50"
definition MAX_GROUPS :: nat where "MAX_GROUPS = 4096"
definition MAX_PROCESSES :: nat where "MAX_PROCESSES = 65536"
definition CONFIRM_GRACE :: nat where "CONFIRM_GRACE = 500"
definition MAX_INCOMPLETE_SCANS :: u8 where "MAX_INCOMPLETE_SCANS = 3"

definition SIGINT :: int where "SIGINT = 2"
definition SIGKILL :: int where "SIGKILL = 9"
definition SIGTERM :: int where "SIGTERM = 15"

record 's source =
  src_read :: "u32 \<Rightarrow> 's \<Rightarrow> (io_error + process_record option) \<times> 's"
  src_children :: "u32 \<Rightarrow> 's \<Rightarrow> (io_error + u32 list) \<times> 's"
  src_group_members :: "u32 \<Rightarrow> 's \<Rightarrow> (io_error + u32 list) \<times> 's"
  src_signal :: "int \<Rightarrow> int \<Rightarrow> 's \<Rightarrow> (io_error + unit) \<times> 's"
  src_reap :: "u32 \<Rightarrow> 's \<Rightarrow> (io_error + unit) \<times> 's"
  src_now :: "nat \<Rightarrow> 's \<Rightarrow> nat \<times> 's"

datatype phase = Interrupt | Terminate | Kill

record sequence =
  seq_phase :: phase
  seq_next :: nat

record cleanup_state =
  cl_interrupt :: "nat option"
  cl_term :: nat
  cl_deadline :: nat
  cl_empty_scans :: u8

record progress =
  done_now :: bool
  confirmed :: bool

record 's tracker =
  world :: 's
  shim :: process_identity
  root_pid :: u32
  processes :: "(u32, process_record) hash_map"
  groups :: "(process_identity, sequence option) hash_map"
  members :: "(process_identity, sequence) hash_map"
  pending :: "process_identity list"
  cleanup :: "cleanup_state option"
  uncertain :: bool
  incomplete_scans :: u8
  root_group_unresolved :: bool
  group_limit :: nat
  process_limit :: nat
  adopt_orphans :: bool

section \<open>Construction and small operations\<close>

definition tracker_empty :: "'s \<Rightarrow> bool \<Rightarrow> process_identity \<Rightarrow> u32 \<Rightarrow> 's tracker" where
  "tracker_empty s on_linux sh root =
     \<lparr>world = s, shim = sh, root_pid = root, processes = [], groups = [], members = [], pending = [],
      cleanup = None, uncertain = False, incomplete_scans = 0, root_group_unresolved = False,
      group_limit = MAX_GROUPS, process_limit = MAX_PROCESSES, adopt_orphans = on_linux\<rparr>"

definition with_source :: "'s \<Rightarrow> bool \<Rightarrow> process_identity \<Rightarrow> process_identity \<Rightarrow> 's tracker" where
  "with_source s on_linux sh root =
     (let tr = tracker_empty s on_linux sh (pid root) in
      tr\<lparr>processes := hm_insert (pid root) \<lparr>identity = root, ppid = pid sh, exited = False\<rparr> (processes tr),
         groups := hm_insert root None (groups tr), pending := pending tr @ [root]\<rparr>)"

definition fail :: "'s tracker \<Rightarrow> 's tracker" where
  "fail tr = tr\<lparr>uncertain := True\<rparr>"

definition root_known :: "'s tracker \<Rightarrow> bool" where
  "root_known tr = (hm_get (processes tr) (root_pid tr) \<noteq> None)"

definition take_new_groups :: "'s tracker \<Rightarrow> process_identity list \<times> 's tracker" where
  "take_new_groups tr = (pending tr, tr\<lparr>pending := []\<rparr>)"

definition cleaning :: "'s tracker \<Rightarrow> bool" where
  "cleaning tr = (cleanup tr \<noteq> None)"

definition expired :: "'s tracker \<Rightarrow> nat \<Rightarrow> bool" where
  "expired tr now = (case cleanup tr of None \<Rightarrow> False | Some c \<Rightarrow> cl_deadline c \<le> now)"

definition begin_cleanup :: "nat \<Rightarrow> nat option \<Rightarrow> nat \<Rightarrow> 's tracker \<Rightarrow> 's tracker" where
  "begin_cleanup now interrupt grace tr =
     (if cleanup tr = None then
        tr\<lparr>cleanup := Some \<lparr>cl_interrupt = interrupt, cl_term = grace,
             cl_deadline = now + (case interrupt of Some d \<Rightarrow> d | None \<Rightarrow> 0) + grace + CONFIRM_GRACE,
             cl_empty_scans = 0\<rparr>\<rparr>
      else tr)"

text \<open>The calls of the source, on the tracker that owns it.\<close>

definition tr_read :: "'s source \<Rightarrow> u32 \<Rightarrow> 's tracker \<Rightarrow> (io_error + process_record option) \<times> 's tracker" where
  "tr_read src p tr = (let (r, s) = src_read src p (world tr) in (r, tr\<lparr>world := s\<rparr>))"

definition tr_children :: "'s source \<Rightarrow> u32 \<Rightarrow> 's tracker \<Rightarrow> (io_error + u32 list) \<times> 's tracker" where
  "tr_children src p tr = (let (r, s) = src_children src p (world tr) in (r, tr\<lparr>world := s\<rparr>))"

definition tr_group_members :: "'s source \<Rightarrow> u32 \<Rightarrow> 's tracker \<Rightarrow> (io_error + u32 list) \<times> 's tracker" where
  "tr_group_members src g tr = (let (r, s) = src_group_members src g (world tr) in (r, tr\<lparr>world := s\<rparr>))"

definition tr_signal :: "'s source \<Rightarrow> int \<Rightarrow> int \<Rightarrow> 's tracker \<Rightarrow> (io_error + unit) \<times> 's tracker" where
  "tr_signal src target sg tr = (let (r, s) = src_signal src target sg (world tr) in (r, tr\<lparr>world := s\<rparr>))"

definition tr_reap :: "'s source \<Rightarrow> u32 \<Rightarrow> 's tracker \<Rightarrow> (io_error + unit) \<times> 's tracker" where
  "tr_reap src p tr = (let (r, s) = src_reap src p (world tr) in (r, tr\<lparr>world := s\<rparr>))"

definition tr_now :: "'s source \<Rightarrow> nat \<Rightarrow> 's tracker \<Rightarrow> nat \<times> 's tracker" where
  "tr_now src reference tr = (let (t, s) = src_now src reference (world tr) in (t, tr\<lparr>world := s\<rparr>))"

lemmas tr_calls = tr_read_def tr_children_def tr_group_members_def tr_signal_def tr_reap_def tr_now_def

section \<open>Scanning\<close>

text \<open>\<open>scan_error\<close>, on the tracker with the scan's \<open>incomplete\<close> flag.\<close>

definition scan_error :: "io_error \<Rightarrow> 's tracker \<times> bool \<Rightarrow> 's tracker \<times> bool" where
  "scan_error e ti =
     (if kind e = InvalidData \<or> kind e = Unsupported then fail (fst ti) else fst ti, True)"

record 's scan =
  sc_tracker :: "'s tracker"
  sc_incomplete :: bool
  sc_queue :: "process_identity list"
  sc_visited :: "(u32, start_time) hash_map"

definition sc_error :: "io_error \<Rightarrow> 's scan \<Rightarrow> 's scan" where
  "sc_error e sc =
     (let (tr, i) = scan_error e (sc_tracker sc, sc_incomplete sc) in
      sc\<lparr>sc_tracker := tr, sc_incomplete := i\<rparr>)"

definition add_process :: "u32 \<Rightarrow> process_record \<Rightarrow> 's tracker \<Rightarrow> 's tracker" where
  "add_process p r tr = tr\<lparr>processes := hm_insert p r (processes tr)\<rparr>"

definition remove_process :: "u32 \<Rightarrow> 's tracker \<Rightarrow> 's tracker" where
  "remove_process p tr = tr\<lparr>processes := hm_remove p (processes tr)\<rparr>"

definition at_limit :: "u32 \<Rightarrow> 's tracker \<Rightarrow> bool" where
  "at_limit p tr \<longleftrightarrow> hm_get (processes tr) p = None \<and> process_limit tr \<le> length (processes tr)"

text \<open>The loop over the children of a verified parent.\<close>

fun scan_children :: "'s source \<Rightarrow> process_identity \<Rightarrow> u32 list \<Rightarrow> 's scan \<Rightarrow> 's scan" where
  "scan_children src expected [] sc = sc"
| "scan_children src expected (p # ps) sc =
     (if p = pid (shim (sc_tracker sc)) then scan_children src expected ps sc
      else case tr_read src p (sc_tracker sc) of
        (Inl e, tr) \<Rightarrow> scan_children src expected ps (sc_error e (sc\<lparr>sc_tracker := tr\<rparr>))
      | (Inr None, tr) \<Rightarrow> scan_children src expected ps (sc\<lparr>sc_tracker := tr\<rparr>)
      | (Inr (Some child), tr) \<Rightarrow>
          if ppid child \<noteq> pid expected then scan_children src expected ps (sc\<lparr>sc_tracker := tr\<rparr>)
          else if hm_get (sc_visited sc) p = Some (started (identity child))
          then scan_children src expected ps (sc\<lparr>sc_tracker := tr\<rparr>)
          else if at_limit p tr then sc\<lparr>sc_tracker := fail tr\<rparr>
          else scan_children src expected ps
                 (sc\<lparr>sc_tracker := add_process p child tr, sc_queue := sc_queue sc @ [identity child]\<rparr>))"

text \<open>The child edges of a verified anchor, which is verified again after they were listed.\<close>

definition scan_edges :: "'s source \<Rightarrow> process_identity \<Rightarrow> 's scan \<Rightarrow> 's scan" where
  "scan_edges src expected sc =
     (case tr_children src (pid expected) (sc_tracker sc) of
        (Inl e, tr) \<Rightarrow>
          if disappeared e then sc\<lparr>sc_tracker := tr\<rparr> else sc_error e (sc\<lparr>sc_tracker := tr\<rparr>)
      | (Inr children, tr) \<Rightarrow>
          (case tr_read src (pid expected) tr of
             (Inl e, tr) \<Rightarrow> sc_error e (sc\<lparr>sc_tracker := tr\<rparr>)
           | (Inr None, tr) \<Rightarrow> sc\<lparr>sc_tracker := tr\<rparr>
           | (Inr (Some parent), tr) \<Rightarrow>
               if same_process (identity parent) expected
               then scan_children src expected children (sc\<lparr>sc_tracker := tr\<rparr>)
               else sc\<lparr>sc_tracker := tr\<rparr>))"

text \<open>An anchor that is gone or replaced is forgotten, unless a newer observation of its pid is
  already there.\<close>

definition forget :: "process_identity \<Rightarrow> 's tracker \<Rightarrow> 's tracker" where
  "forget expected tr =
     (case hm_get (processes tr) (pid expected) of
        Some r \<Rightarrow> if same_process (identity r) expected then remove_process (pid expected) tr else tr
      | None \<Rightarrow> tr)"

text \<open>One anchor of the queue.\<close>

definition scan_visit :: "'s source \<Rightarrow> process_identity \<Rightarrow> 's scan \<Rightarrow> 's scan" where
  "scan_visit src expected sc =
     (let p = pid expected in
      case tr_read src p (sc_tracker sc) of
        (Inl e, tr) \<Rightarrow> sc_error e (sc\<lparr>sc_tracker := tr\<rparr>)
      | (Inr None, tr) \<Rightarrow> sc\<lparr>sc_tracker := forget expected tr\<rparr>
      | (Inr (Some current), tr) \<Rightarrow>
          if same_process (identity current) expected then
            scan_edges src expected
              (sc\<lparr>sc_tracker := (if p \<noteq> pid (shim tr) then add_process p current tr else tr),
                 sc_visited := hm_insert p (started (identity current)) (sc_visited sc)\<rparr>)
          else sc\<lparr>sc_tracker := forget expected tr\<rparr>)"

text \<open>The loop over the queue; \<open>bound\<close> is \<open>process_limit.saturating_mul(2) + 1\<close>.\<close>

function scan_loop :: "'s source \<Rightarrow> nat \<Rightarrow> nat \<Rightarrow> 's scan \<Rightarrow> 's scan" where
  "scan_loop src bound attempts sc =
     (case sc_queue sc of
        [] \<Rightarrow> sc
      | expected # queue \<Rightarrow>
          let sc = sc\<lparr>sc_queue := queue\<rparr> in
          if hm_get (sc_visited sc) (pid expected) = Some (started expected)
          then scan_loop src bound attempts sc
          else if bound < Suc attempts then sc\<lparr>sc_tracker := fail (sc_tracker sc)\<rparr>
          else scan_loop src bound (Suc attempts) (scan_visit src expected sc))"
  by pat_completeness auto
termination
  by (relation "measures [\<lambda>(src, bound, attempts, sc). bound - attempts, \<lambda>(src, bound, attempts, sc). length (sc_queue sc)]")
     auto

declare scan_loop.simps [simp del]

text \<open>The members of the exited root's group, where orphans are not adopted.\<close>

fun root_members ::
  "'s source \<Rightarrow> process_identity \<Rightarrow> u32 list \<Rightarrow> ('s tracker \<times> bool) \<times> bool \<Rightarrow> ('s tracker \<times> bool) \<times> bool" where
  "root_members src expected [] st = st"
| "root_members src expected (p # ps) ((tr, i), unresolved) =
     (case tr_read src p tr of
        (Inl e, tr) \<Rightarrow> root_members src expected ps (scan_error e (tr, i), True)
      | (Inr None, tr) \<Rightarrow> root_members src expected ps ((tr, i), unresolved)
      | (Inr (Some member), tr) \<Rightarrow>
          if pgid (identity member) \<noteq> pgid expected then root_members src expected ps ((tr, i), unresolved)
          else if at_limit p tr then ((fail tr, i), True)
          else root_members src expected ps ((add_process p member tr, i), unresolved))"

definition root_inventory :: "'s source \<Rightarrow> process_identity \<Rightarrow> 's tracker \<times> bool \<Rightarrow> 's tracker \<times> bool" where
  "root_inventory src expected ti =
     (case tr_group_members src (pgid expected) (fst ti) of
        (Inl e, tr) \<Rightarrow> scan_error e (tr, snd ti)
      | (Inr ms, tr) \<Rightarrow>
          (case tr_read src (pid expected) tr of
             (Inl e, tr) \<Rightarrow> scan_error e (tr, snd ti)
           | (Inr None, tr) \<Rightarrow> (fail tr, snd ti)
           | (Inr (Some root), tr) \<Rightarrow>
               if identity root = expected then
                 (case root_members src expected ms ((tr, snd ti), False) of
                    ((tr, i), unresolved) \<Rightarrow> (tr\<lparr>root_group_unresolved := unresolved\<rparr>, i))
               else (fail tr, snd ti)))"

definition scan_root_group :: "'s source \<Rightarrow> 's tracker \<times> bool \<Rightarrow> 's tracker \<times> bool" where
  "scan_root_group src ti =
     (let tr = (fst ti)\<lparr>root_group_unresolved := False\<rparr> in
      if adopt_orphans tr then (tr, snd ti)
      else case hm_get (processes tr) (root_pid tr) of
        None \<Rightarrow> (tr, snd ti)
      | Some root \<Rightarrow>
          if \<not> exited root \<or> pid (identity root) \<noteq> pgid (identity root) then (tr, snd ti)
          else root_inventory src (identity root) (tr\<lparr>root_group_unresolved := True\<rparr>, snd ti))"

text \<open>Adopted zombies are reaped.\<close>

definition reap_one :: "'s source \<Rightarrow> process_record \<Rightarrow> 's tracker \<Rightarrow> 's tracker" where
  "reap_one src r tr =
     (if adopt_orphans tr \<and> pid (identity r) \<noteq> root_pid tr \<and> ppid r = pid (shim tr) \<and> exited r then
        (case tr_reap src (pid (identity r)) tr of
           (Inl e, tr) \<Rightarrow> fail tr
         | (Inr _, tr) \<Rightarrow> remove_process (pid (identity r)) tr)
      else tr)"

definition retain_group :: "'s tracker \<Rightarrow> process_identity \<Rightarrow> bool" where
  "retain_group tr g =
     (case hm_get (processes tr) (pid g) of
        Some leader \<Rightarrow>
          if \<not> same_process (identity leader) g then False
          else identity leader = g \<or> pgid g \<in> set (map (\<lambda>r. pgid (identity r)) (hm_values (processes tr)))
      | None \<Rightarrow> pgid g \<in> set (map (\<lambda>r. pgid (identity r)) (hm_values (processes tr))))"

definition track_group :: "process_record \<Rightarrow> 's tracker \<Rightarrow> 's tracker" where
  "track_group r tr =
     (let g = identity r in
      if pid g = pgid g \<and> hm_get (groups tr) g = None then
        (if group_limit tr \<le> length (groups tr) then tr\<lparr>uncertain := True\<rparr>
         else tr\<lparr>groups := hm_insert g None (groups tr), pending := pending tr @ [g]\<rparr>)
      else tr)"

definition retain_member :: "'s tracker \<Rightarrow> process_identity \<Rightarrow> bool" where
  "retain_member tr m =
     (case hm_get (processes tr) (pid m) of Some r \<Rightarrow> \<not> exited r \<and> identity r = m | None \<Rightarrow> False)"

definition retire :: "'s tracker \<times> bool \<Rightarrow> 's tracker" where
  "retire ti =
     (let (tr, incomplete) = ti;
          tr = tr\<lparr>groups := hm_retain (retain_group tr) (groups tr)\<rparr>;
          tr = fold track_group (hm_values (processes tr)) tr;
          tr = tr\<lparr>members := hm_retain (retain_member tr) (members tr)\<rparr>;
          tr = tr\<lparr>incomplete_scans := (if incomplete then sat_add (incomplete_scans tr) 1 else 0)\<rparr> in
      if MAX_INCOMPLETE_SCANS \<le> incomplete_scans tr then fail tr else tr)"

definition scan_start :: "'s tracker \<Rightarrow> 's scan" where
  "scan_start tr =
     \<lparr>sc_tracker = tr, sc_incomplete = False,
      sc_queue = (if adopt_orphans tr then [shim tr] else []) @ map identity (hm_values (processes tr)),
      sc_visited = []\<rparr>"

definition discover :: "'s source \<Rightarrow> 's tracker \<Rightarrow> 's tracker \<times> bool" where
  "discover src tr =
     (let sc = scan_loop src (2 * process_limit tr + 1) 0 (scan_start tr);
          (tr, incomplete) = scan_root_group src (sc_tracker sc, sc_incomplete sc) in
      (fold (reap_one src) (hm_values (processes tr)) tr, incomplete))"

definition scan :: "'s source \<Rightarrow> 's tracker \<Rightarrow> 's tracker" where
  "scan src tr = retire (discover src tr)"

section \<open>Invariants of a scan\<close>

text \<open>
  What a property of trackers must survive to hold while a scan discovers processes: the calls of
  the source and the updates of the retained processes. Whatever satisfies the contract is
  preserved by the whole of it.
\<close>

locale discovery_ops =
  fixes src :: "'s source"
    and P :: "'s tracker \<Rightarrow> bool"
  assumes read_inv: "P tr \<Longrightarrow> P (snd (tr_read src p tr))"
    and children_inv: "P tr \<Longrightarrow> P (snd (tr_children src p tr))"
    and group_members_inv: "P tr \<Longrightarrow> P (snd (tr_group_members src p tr))"
    and reap_inv: "P tr \<Longrightarrow> P (snd (tr_reap src p tr))"
    and fail_inv: "P tr \<Longrightarrow> P (fail tr)"
    and add_inv: "P tr \<Longrightarrow> P (add_process p r tr)"
    and remove_inv: "P tr \<Longrightarrow> P (remove_process p tr)"
    and unresolved_inv: "P tr \<Longrightarrow> P (tr\<lparr>root_group_unresolved := b\<rparr>)"
begin

lemma read_inv': "tr_read src p tr = (r, tr') \<Longrightarrow> P tr \<Longrightarrow> P tr'"
  by (metis read_inv snd_conv)

lemma children_inv': "tr_children src p tr = (r, tr') \<Longrightarrow> P tr \<Longrightarrow> P tr'"
  by (metis children_inv snd_conv)

lemma group_members_inv': "tr_group_members src p tr = (r, tr') \<Longrightarrow> P tr \<Longrightarrow> P tr'"
  by (metis group_members_inv snd_conv)

lemma reap_inv': "tr_reap src p tr = (r, tr') \<Longrightarrow> P tr \<Longrightarrow> P tr'"
  by (metis reap_inv snd_conv)

lemma scan_error_inv: "P (fst ti) \<Longrightarrow> P (fst (scan_error e ti))"
  by (simp add: scan_error_def fail_inv)

lemma sc_error_inv: "P (sc_tracker sc) \<Longrightarrow> P (sc_tracker (sc_error e sc))"
  using scan_error_inv [of "(sc_tracker sc, sc_incomplete sc)" e]
  by (simp add: sc_error_def split: prod.splits) (metis fst_conv)

lemma scan_children_inv: "P (sc_tracker sc) \<Longrightarrow> P (sc_tracker (scan_children src expected ps sc))"
proof (induction ps arbitrary: sc)
  case (Cons p ps)
  obtain r tr where r: "tr_read src p (sc_tracker sc) = (r, tr)" by force
  have "P tr" using read_inv' [OF r Cons.prems] .
  then show ?case using r Cons
    by (auto split: sum.splits option.splits simp: sc_error_inv fail_inv add_inv)
qed simp

lemma scan_edges_inv: "P (sc_tracker sc) \<Longrightarrow> P (sc_tracker (scan_edges src expected sc))"
proof -
  assume P: "P (sc_tracker sc)"
  obtain k t where k: "tr_children src (pid expected) (sc_tracker sc) = (k, t)" by force
  have t: "P t" using children_inv' [OF k P] .
  obtain q t1 where q: "tr_read src (pid expected) t = (q, t1)" by force
  have t1: "P t1" using read_inv' [OF q t] .
  show ?thesis using k q t t1
    by (cases k; cases q) (auto simp: scan_edges_def sc_error_inv scan_children_inv split: option.splits)
qed

lemma forget_inv: "P tr \<Longrightarrow> P (forget expected tr)"
  by (auto simp: forget_def remove_inv split: option.splits)

lemma scan_visit_inv: "P (sc_tracker sc) \<Longrightarrow> P (sc_tracker (scan_visit src expected sc))"
proof -
  assume P: "P (sc_tracker sc)"
  obtain r tr where r: "tr_read src (pid expected) (sc_tracker sc) = (r, tr)" by force
  have tr: "P tr" using read_inv' [OF r P] .
  show ?thesis using r tr
    by (cases r) (auto simp: scan_visit_def Let_def sc_error_inv forget_inv scan_edges_inv add_inv
        split: option.splits)
qed

lemma scan_loop_inv: "P (sc_tracker sc) \<Longrightarrow> P (sc_tracker (scan_loop src bound attempts sc))"
proof -
  have "src' = src \<Longrightarrow> P (sc_tracker sc) \<Longrightarrow> P (sc_tracker (scan_loop src' bound attempts sc))" for src'
  proof (induction src' bound attempts sc rule: scan_loop.induct)
    case (1 src' bound attempts sc)
    show ?case
    proof (cases "sc_queue sc")
      case Nil
      with "1.prems" show ?thesis by (simp add: scan_loop.simps [of src bound attempts sc])
    next
      case (Cons expected queue)
      with 1 scan_visit_inv [of "sc\<lparr>sc_queue := queue\<rparr>" expected] show ?thesis
        by (auto simp: scan_loop.simps [of src bound attempts sc] Let_def fail_inv)
    qed
  qed
  then show "P (sc_tracker sc) \<Longrightarrow> P (sc_tracker (scan_loop src bound attempts sc))" by simp
qed

lemma root_members_inv: "P (fst (fst st)) \<Longrightarrow> P (fst (fst (root_members src expected ps st)))"
proof (induction ps arbitrary: st)
  case (Cons p ps)
  obtain tr i u where st: "st = ((tr, i), u)" by (metis prod.collapse)
  obtain r t where r: "tr_read src p tr = (r, t)" by force
  have "P t" using read_inv' [OF r] Cons.prems st by simp
  then show ?case using r Cons st
    by (auto split: sum.splits option.splits simp: scan_error_inv fail_inv add_inv)
qed simp

lemma root_inventory_inv: "P (fst ti) \<Longrightarrow> P (fst (root_inventory src expected ti))"
proof -
  assume P: "P (fst ti)"
  obtain g t where g: "tr_group_members src (pgid expected) (fst ti) = (g, t)" by force
  have t: "P t" using group_members_inv' [OF g P] .
  obtain q t1 where q: "tr_read src (pid expected) t = (q, t1)" by force
  have t1: "P t1" using read_inv' [OF q t] .
  have ms: "P (fst (case root_members src expected ms ((t1, snd ti), False) of
      ((tr, i), unresolved) \<Rightarrow> (tr\<lparr>root_group_unresolved := unresolved\<rparr>, i)))" for ms
  proof -
    obtain tr i u where m: "root_members src expected ms ((t1, snd ti), False) = ((tr, i), u)"
      by (metis prod.collapse)
    have "P tr" using root_members_inv [of "((t1, snd ti), False)" expected ms] t1 m by simp
    then show ?thesis by (simp add: m unresolved_inv)
  qed
  show ?thesis using g q t t1 ms
    by (cases g; cases q) (auto simp: root_inventory_def scan_error_inv fail_inv split: option.splits)
qed

lemma scan_root_group_inv: "P (fst ti) \<Longrightarrow> P (fst (scan_root_group src ti))"
  by (auto simp: scan_root_group_def Let_def unresolved_inv split: option.splits
      intro!: root_inventory_inv)

lemma reap_one_inv: "P tr \<Longrightarrow> P (reap_one src r tr)"
proof -
  assume P: "P tr"
  obtain q t where q: "tr_reap src (pid (identity r)) tr = (q, t)" by force
  have "P t" using reap_inv' [OF q P] .
  with P q show ?thesis by (cases q) (auto simp: reap_one_def fail_inv remove_inv)
qed

lemma fold_inv: "(\<And>x t. P t \<Longrightarrow> P (f x t)) \<Longrightarrow> P t \<Longrightarrow> P (fold f xs t)"
  by (induction xs arbitrary: t) auto

lemma discover_inv: "P tr \<Longrightarrow> P (fst (discover src tr))"
proof -
  assume P: "P tr"
  define sc where "sc = scan_loop src (2 * process_limit tr + 1) 0 (scan_start tr)"
  have "P (sc_tracker sc)" using P scan_loop_inv [of "scan_start tr"] by (simp add: sc_def scan_start_def)
  then have "P (fst (scan_root_group src (sc_tracker sc, sc_incomplete sc)))"
    by (intro scan_root_group_inv) simp
  then show ?thesis unfolding discover_def Let_def sc_def [symmetric]
    by (auto split: prod.splits intro!: fold_inv reap_one_inv)
qed

end

text \<open>The updates that end a scan.\<close>

locale scan_ops = discovery_ops src P for src :: "'s source" and P :: "'s tracker \<Rightarrow> bool" +
  assumes retain_groups_inv: "P tr \<Longrightarrow> P (tr\<lparr>groups := hm_retain q (groups tr)\<rparr>)"
    and track_inv: "P tr \<Longrightarrow> P (track_group r tr)"
    and retain_members_inv: "P tr \<Longrightarrow> P (tr\<lparr>members := hm_retain q (members tr)\<rparr>)"
    and incomplete_inv: "P tr \<Longrightarrow> P (tr\<lparr>incomplete_scans := n\<rparr>)"
begin

lemma retire_inv: "P (fst ti) \<Longrightarrow> P (retire ti)"
  by (auto simp: retire_def Let_def retain_groups_inv retain_members_inv incomplete_inv fail_inv
      split: prod.splits intro!: fail_inv incomplete_inv retain_members_inv fold_inv track_inv retain_groups_inv)

lemma scan_inv: "P tr \<Longrightarrow> P (scan src tr)"
  by (simp add: scan_def retire_inv discover_inv)

end

interpretation constant_count: discovery_ops src "\<lambda>tr. incomplete_scans tr = k" for src :: "'s source" and k
  by unfold_locales
     (auto simp: tr_calls fail_def add_process_def remove_process_def Let_def split: prod.splits)

section \<open>The end of a scan\<close>

lemma track_groups:
  "(\<forall>r\<in>set rs. pid (identity r) = pgid (identity r) \<longrightarrow>
      hm_get (groups (fold track_group rs tr)) (identity r) \<noteq> None \<or> uncertain (fold track_group rs tr))
   \<and> (\<forall>g. hm_get (groups tr) g \<noteq> None \<longrightarrow> hm_get (groups (fold track_group rs tr)) g \<noteq> None)
   \<and> (uncertain tr \<longrightarrow> uncertain (fold track_group rs tr))
   \<and> processes (fold track_group rs tr) = processes tr
   \<and> incomplete_scans (fold track_group rs tr) = incomplete_scans tr"
proof (induction rs arbitrary: tr)
  case (Cons r rs)
  let ?t = "track_group r tr"
  have step: "pid (identity r) = pgid (identity r) \<longrightarrow> hm_get (groups ?t) (identity r) \<noteq> None \<or> uncertain ?t"
    "\<forall>g. hm_get (groups tr) g \<noteq> None \<longrightarrow> hm_get (groups ?t) g \<noteq> None"
    "uncertain tr \<longrightarrow> uncertain ?t" "processes ?t = processes tr" "incomplete_scans ?t = incomplete_scans tr"
    by (auto simp: track_group_def Let_def hm_simps)
  with Cons [of ?t] show ?case by (simp, metis)
qed simp

lemma retire_result:
  "(\<not> uncertain (retire (tr, i)) \<longrightarrow>
      (\<forall>r\<in>set (hm_values (processes (retire (tr, i)))). pid (identity r) = pgid (identity r) \<longrightarrow>
         hm_get (groups (retire (tr, i))) (identity r) \<noteq> None))
   \<and> processes (retire (tr, i)) = processes tr
   \<and> incomplete_scans (retire (tr, i)) = (if i then sat_add (incomplete_scans tr) 1 else 0)
   \<and> (MAX_INCOMPLETE_SCANS \<le> incomplete_scans (retire (tr, i)) \<longrightarrow> uncertain (retire (tr, i)))
   \<and> (uncertain tr \<longrightarrow> uncertain (retire (tr, i)))"
proof -
  define t1 where "t1 = tr\<lparr>groups := hm_retain (retain_group tr) (groups tr)\<rparr>"
  define t2 where "t2 = fold track_group (hm_values (processes t1)) t1"
  note T = track_groups [of "hm_values (processes t1)" t1, folded t2_def]
  have P: "processes t1 = processes tr" "incomplete_scans t1 = incomplete_scans tr" "uncertain t1 = uncertain tr"
    by (simp_all add: t1_def)
  show ?thesis using T P
    unfolding retire_def Let_def prod.case t1_def [symmetric] t2_def [symmetric]
    by (auto simp: fail_def)
qed

section \<open>A small source\<close>

text \<open>A table of processes that answers every read, as the source of the tests does; reaping
  removes an entry and the clock stands still.\<close>

definition fake_source :: "(u32, process_record) hash_map source" where
  "fake_source =
     \<lparr>src_read = (\<lambda>p s. (Inr (hm_get s p), s)),
      src_children = (\<lambda>p s. (Inr (map fst (filter (\<lambda>(q, r). ppid r = p) s)), s)),
      src_group_members = (\<lambda>g s. (Inr (map fst (filter (\<lambda>(q, r). pgid (identity r) = g) s)), s)),
      src_signal = (\<lambda>t sg s. (Inr (), s)),
      src_reap = (\<lambda>p s. (Inr (), hm_remove p s)),
      src_now = (\<lambda>n s. (500, s))\<rparr>"

definition sample_identity :: "u32 \<Rightarrow> u32 \<Rightarrow> process_identity" where
  "sample_identity p g = \<lparr>pid = p, pgid = g, started = Linux [98] (ucast p)\<rparr>"

definition sample_record :: "u32 \<Rightarrow> u32 \<Rightarrow> u32 \<Rightarrow> process_record" where
  "sample_record p g parent = \<lparr>identity = sample_identity p g, ppid = parent, exited = False\<rparr>"

text \<open>The shim 10, its child 20, and 21, a grandchild in a session of its own.\<close>

definition sample_table :: "(u32, process_record) hash_map" where
  "sample_table = [(10, sample_record 10 10 1), (20, sample_record 20 20 10), (21, sample_record 21 21 20)]"

section \<open>Properties\<close>

text \<open>A scan accounts for every group and every failure: unless it leaves the tracker in doubt,
  each retained process that leads a group has that group tracked; a scan that missed something
  counts as incomplete, a complete one resets the count, and the third in a row is doubt.\<close>

theorem scan_accounts:
  "(\<not> uncertain (scan src tr) \<longrightarrow>
      (\<forall>r\<in>set (hm_values (processes (scan src tr))). pid (identity r) = pgid (identity r) \<longrightarrow>
         hm_get (groups (scan src tr)) (identity r) \<noteq> None))
   \<and> incomplete_scans (scan src tr) = (if snd (discover src tr) then sat_add (incomplete_scans tr) 1 else 0)
   \<and> (3 \<le> incomplete_scans (scan src tr) \<longrightarrow> uncertain (scan src tr))"
proof -
  have "incomplete_scans (fst (discover src tr)) = incomplete_scans tr"
    by (rule constant_count.discover_inv) simp
  then show ?thesis
    using retire_result [of "fst (discover src tr)" "snd (discover src tr)"]
    by (simp add: scan_def MAX_INCOMPLETE_SCANS_def)
qed

text \<open>A tracker about to see its third incomplete scan in a row, with a source that fails.\<close>

definition blind_source :: "unit source" where
  "blind_source =
     \<lparr>src_read = (\<lambda>p s. (Inl (Os EIO), s)), src_children = (\<lambda>p s. (Inl (Os EIO), s)),
      src_group_members = (\<lambda>g s. (Inl (Os EIO), s)), src_signal = (\<lambda>t sg s. (Inl (Os EIO), s)),
      src_reap = (\<lambda>p s. (Inl (Os EIO), s)), src_now = (\<lambda>n s. (n, s))\<rparr>"

theorem scan_accounts_witness:
  "uncertain (scan blind_source ((tracker_empty () True (sample_identity 10 10) 20)\<lparr>incomplete_scans := 2\<rparr>))"
proof -
  let ?tr = "(tracker_empty () True (sample_identity 10 10) 20)\<lparr>incomplete_scans := 2\<rparr>"
  have "snd (discover blind_source ?tr)"
    by (simp add: discover_def scan_start_def tracker_empty_def scan_loop.simps scan_visit_def blind_source_def
        tr_calls sc_error_def scan_error_def scan_root_group_def sample_identity_def Let_def MAX_PROCESSES_def
        decode_error_kind_def errno_defs)
  then have "incomplete_scans (scan blind_source ?tr) = sat_add 2 1" using scan_accounts [of blind_source ?tr] by simp
  then have "3 \<le> incomplete_scans (scan blind_source ?tr)" by (simp add: sat_add_def)
  with scan_accounts [of blind_source ?tr] show ?thesis by blast
qed

end
