(* ===== verification/Waits.thy ===== *)
theory Waits
  imports Tracking "HOL-Library.Monad_Syntax"
begin

text \<open>
  The bounded waits of \<open>native/forcola_shim/src/supervisor.rs\<close>: \<open>wait_until\<close> and what is built on
  it, the kill sequence of a process group, the end of a cgroup and the reaping of the root. The
  system is a record of operations on a world, time is in milliseconds, and a loop that need not
  end on every system is a partial function: \<open>None\<close> stands for not returning.
\<close>

section \<open>Waiting with a deadline\<close>

partial_function (option) wait_loop ::
  "('s \<Rightarrow> nat \<times> 's) \<Rightarrow> (nat \<Rightarrow> 's \<Rightarrow> 's) \<Rightarrow> ('s \<Rightarrow> bool \<times> 's) \<Rightarrow> nat \<Rightarrow> nat \<Rightarrow> 's \<Rightarrow> (bool \<times> 's) option" where
  "wait_loop now sleep fin deadline interval w =
     (case fin w of
        (b, w) \<Rightarrow>
          if b then Some (True, w)
          else case now w of
            (t, w) \<Rightarrow>
              if deadline \<le> t then Some (False, w)
              else wait_loop now sleep fin deadline interval (sleep (min interval (deadline - t)) w))"

declare wait_loop.simps [code]

definition wait_until ::
  "('s \<Rightarrow> nat \<times> 's) \<Rightarrow> (nat \<Rightarrow> 's \<Rightarrow> 's) \<Rightarrow> nat \<Rightarrow> nat \<Rightarrow> ('s \<Rightarrow> bool \<times> 's) \<Rightarrow> 's \<Rightarrow> (bool \<times> 's) option" where
  "wait_until now sleep timeout interval fin w =
     (let (t, w) = now w in wait_loop now sleep fin (t + timeout) interval w)"

text \<open>
  A clock that \<open>now\<close> reads, a sleep advances by at least what it was asked for, and nothing turns
  back. A wait whose predicate does not turn it back either ends.
\<close>

locale monotone_clock =
  fixes now :: "'s \<Rightarrow> nat \<times> 's"
    and sleep :: "nat \<Rightarrow> 's \<Rightarrow> 's"
    and clock :: "'s \<Rightarrow> nat"
  assumes now_clock: "clock w \<le> fst (now w)" "fst (now w) \<le> clock (snd (now w))"
    and sleep_clock: "clock w + d \<le> clock (sleep d w)"
begin

lemma now_mono: "clock w \<le> clock (snd (now w))"
  using now_clock [of w] by simp

lemma sleep_mono: "clock w \<le> clock (sleep d w)"
  using sleep_clock [of w d] by simp

lemma wait_loop_returns:
  assumes "\<And>w. clock w \<le> clock (snd (fin w))" "0 < interval"
  shows "\<exists>b w'. wait_loop now sleep fin deadline interval w = Some (b, w') \<and> clock w \<le> clock w'"
proof (induction "deadline - clock w" arbitrary: w rule: less_induct)
  case less
  obtain b w1 where f: "fin w = (b, w1)" by force
  obtain t w2 where t: "now w1 = (t, w2)" by force
  have w1: "clock w \<le> clock w1" using assms(1) [of w] f by simp
  have w2: "clock w1 \<le> t" "t \<le> clock w2" using now_clock [of w1] t by simp_all
  show ?case
  proof (cases "b \<or> deadline \<le> t")
    case True
    with f t w1 w2 show ?thesis by (subst wait_loop.simps) auto
  next
    case False
    let ?w3 = "sleep (min interval (deadline - t)) w2"
    have s: "clock w2 + min interval (deadline - t) \<le> clock ?w3" by (rule sleep_clock)
    with False w1 w2 assms(2) have "deadline - clock ?w3 < deadline - clock w"
      by (auto simp: min_def split: if_splits)
    from less [OF this] obtain b' w' where
      "wait_loop now sleep fin deadline interval ?w3 = Some (b', w')" "clock ?w3 \<le> clock w'" by blast
    with False f t w1 w2 s show ?thesis by (subst wait_loop.simps) auto
  qed
qed

lemma wait_until_returns:
  assumes "\<And>w. clock w \<le> clock (snd (fin w))" "0 < interval"
  shows "\<exists>b w'. wait_until now sleep timeout interval fin w = Some (b, w') \<and> clock w \<le> clock w'"
proof -
  obtain t w1 where t: "now w = (t, w1)" by force
  from wait_loop_returns [where fin = fin, OF assms, of "t + timeout" w1] obtain b w' where
    "wait_loop now sleep fin (t + timeout) interval w1 = Some (b, w')" "clock w1 \<le> clock w'" by blast
  with now_mono [of w] t show ?thesis by (auto simp: wait_until_def)
qed

end

text \<open>What a wait did: an invariant of its predicate and its pauses holds after it.\<close>

lemma wait_loop_inv:
  assumes "wait_loop now sleep fin deadline interval w = Some (b, w')" "Q w"
    and "\<And>w b w1. Q w \<Longrightarrow> fin w = (b, w1) \<Longrightarrow> R b w1" "\<And>w t w1. R False w \<Longrightarrow> now w = (t, w1) \<Longrightarrow> R False w1"
    and "\<And>w d. R False w \<Longrightarrow> Q (sleep d w)"
  shows "R b w'"
proof -
  have "wait_loop now' sleep' fin' deadline interval w = Some y \<Longrightarrow> now' = now \<Longrightarrow> sleep' = sleep \<Longrightarrow> fin' = fin \<Longrightarrow>
      Q w \<Longrightarrow> R (fst y) (snd y)" for now' sleep' fin' w y
  proof (induction rule: wait_loop.raw_induct [rotated 1, consumes 1, case_names step])
    case (step again now' sleep' fin' deadline interval w y)
    obtain b w1 where f: "fin w = (b, w1)" by force
    obtain t w2 where t: "now w1 = (t, w2)" by force
    show ?case
    proof (cases "b \<or> deadline \<le> t")
      case True
      with step(2-5) f t have "y = (b, w1) \<or> \<not> b \<and> y = (False, w2)" by (auto split: if_splits)
      with assms(3) [OF step(6) f] assms(4) [OF _ t] show ?thesis by auto
    next
      case False
      with step(2-5) f t have "again now sleep fin deadline interval (sleep (min interval (deadline - t)) w2) = Some y"
        by simp
      moreover have "Q (sleep (min interval (deadline - t)) w2)"
        using assms(3) [OF step(6) f] assms(4) [OF _ t] assms(5) False by auto
      ultimately show ?thesis using step(1) [OF _ refl refl refl] by blast
    qed
  qed
  from this [OF assms(1) refl refl refl assms(2)] show ?thesis by simp
qed

lemma wait_until_inv:
  assumes "wait_until now sleep timeout interval fin w = Some (b, w')" "Q w"
    and "\<And>w t w1. Q w \<Longrightarrow> now w = (t, w1) \<Longrightarrow> Q w1"
    and "\<And>w b w1. Q w \<Longrightarrow> fin w = (b, w1) \<Longrightarrow> R b w1" "\<And>w t w1. R False w \<Longrightarrow> now w = (t, w1) \<Longrightarrow> R False w1"
    and "\<And>w d. R False w \<Longrightarrow> Q (sleep d w)"
  shows "R b w'"
proof -
  obtain t w1 where t: "now w = (t, w1)" by force
  then have "wait_loop now sleep fin (t + timeout) interval w1 = Some (b, w')"
    using assms(1) by (simp add: wait_until_def)
  then show ?thesis
    by (rule wait_loop_inv [where Q = Q]) (use assms(3) [OF assms(2) t] assms(4-6) in blast)+
qed

section \<open>The system\<close>

record exit_status =
  es_code :: "int option"
  es_signal :: "int option"

record 'w proc_os =
  po_now :: "'w \<Rightarrow> nat \<times> 'w"
  po_sleep :: "nat \<Rightarrow> 'w \<Rightarrow> 'w"
  po_kill_group :: "u32 \<Rightarrow> int \<Rightarrow> 'w \<Rightarrow> (int + unit) \<times> 'w"
  po_test_group :: "u32 \<Rightarrow> 'w \<Rightarrow> (int + unit) \<times> 'w"
  po_try_wait :: "u32 \<Rightarrow> 'w \<Rightarrow> (io_error + exit_status option) \<times> 'w"
  po_fs :: "'w fs_ops"

abbreviation po_wait ::
  "'w proc_os \<Rightarrow> nat \<Rightarrow> nat \<Rightarrow> ('w \<Rightarrow> bool \<times> 'w) \<Rightarrow> 'w \<Rightarrow> (bool \<times> 'w) option" where
  "po_wait os \<equiv> wait_until (po_now os) (po_sleep os)"

section \<open>The kill sequence\<close>

fun probe_says_alive :: "int + unit \<Rightarrow> bool" where
  "probe_says_alive (Inr _) \<longleftrightarrow> True"
| "probe_says_alive (Inl e) \<longleftrightarrow> e \<noteq> ESRCH"

definition group_alive :: "'w proc_os \<Rightarrow> u32 \<Rightarrow> 'w \<Rightarrow> bool \<times> 'w" where
  "group_alive os grp w = (let (r, w) = po_test_group os grp w in (probe_says_alive r, w))"

text \<open>The predicate \<open>|| !group_alive(pgid)\<close>.\<close>

definition group_dead :: "'w proc_os \<Rightarrow> u32 \<Rightarrow> 'w \<Rightarrow> bool \<times> 'w" where
  "group_dead os grp w = (let (b, w) = group_alive os grp w in (\<not> b, w))"

definition kill_backstop :: "'w proc_os \<Rightarrow> cgroup option \<Rightarrow> 'w \<Rightarrow> 'w" where
  "kill_backstop os cg w = (case cg of Some cg \<Rightarrow> cgroup_kill (po_fs os) cg w | None \<Rightarrow> w)"

definition terminate_group :: "'w proc_os \<Rightarrow> u32 \<Rightarrow> nat \<Rightarrow> cgroup option \<Rightarrow> 'w \<Rightarrow> (bool \<times> 'w) option" where
  "terminate_group os grp grace cg w =
     (let w = snd (po_kill_group os grp SIGTERM w) in
      po_wait os grace 20 (group_dead os grp) w \<bind> (\<lambda>(confirmed, w).
      (if confirmed then Some (True, w)
       else po_wait os 500 10 (group_dead os grp) (snd (po_kill_group os grp SIGKILL w))) \<bind> (\<lambda>(confirmed, w).
      Some (confirmed, kill_backstop os cg w))))"

definition kill_group ::
  "'w proc_os \<Rightarrow> u32 \<Rightarrow> nat \<Rightarrow> cgroup option \<Rightarrow> nat option \<Rightarrow> 'w \<Rightarrow> (bool \<times> 'w) option" where
  "kill_group os grp grace cg interrupt w =
     (case interrupt of
        None \<Rightarrow> terminate_group os grp grace cg w
      | Some int_grace \<Rightarrow>
          po_wait os int_grace 10 (group_dead os grp) (snd (po_kill_group os grp SIGINT w)) \<bind> (\<lambda>(gone, w).
          if gone then Some (True, kill_backstop os cg w) else terminate_group os grp grace cg w))"

section \<open>The end of a cgroup, and of the root\<close>

definition finish_cgroup :: "'w proc_os \<Rightarrow> cgroup \<Rightarrow> nat \<Rightarrow> 'w \<Rightarrow> (bool \<times> 'w) option" where
  "finish_cgroup os cg grace w =
     po_wait os (grace + 500) 20 (cgroup_drained (po_fs os) cg) (cgroup_kill (po_fs os) cg w) \<bind> (\<lambda>(drained, w).
     Some (drained, if drained then cgroup_remove (po_fs os) cg w else w))"

text \<open>The closure of \<open>reap_root\<close> writes the variable \<open>reaped\<close>, so the wait runs on the world and
  that variable.\<close>

definition try_reap ::
  "'w proc_os \<Rightarrow> u32 \<Rightarrow> 'w \<times> (io_error + exit_status option) \<Rightarrow> bool \<times> 'w \<times> (io_error + exit_status option)" where
  "try_reap os child s = (let (r, w) = po_try_wait os child (fst s) in (r \<noteq> Inr None, (w, r)))"

definition reap_root :: "'w proc_os \<Rightarrow> u32 \<Rightarrow> nat \<Rightarrow> 'w \<Rightarrow> ((io_error + exit_status option) \<times> 'w) option" where
  "reap_root os child grace w =
     wait_until (\<lambda>(w, x). let (t, w) = po_now os w in (t, (w, x))) (\<lambda>d (w, x). (po_sleep os d w, x))
       grace SAMPLE_INTERVAL (try_reap os child) (w, Inr None) \<bind> (\<lambda>(b, w, reaped). Some (reaped, w))"

section \<open>Invariants of teardown\<close>

text \<open>
  What a property of worlds must survive to hold through a wait and the end of a cgroup, and,
  with signals, through the kill sequence.
\<close>

locale quiet_ops =
  fixes os :: "'w proc_os"
    and P :: "'w \<Rightarrow> bool"
  assumes now_inv: "P w \<Longrightarrow> P (snd (po_now os w))"
    and sleep_inv: "P w \<Longrightarrow> P (po_sleep os d w)"
    and try_wait_inv: "P w \<Longrightarrow> P (snd (po_try_wait os c w))"
    and fs_read_inv: "P w \<Longrightarrow> P (snd (fs_read (po_fs os) p w))"
    and fs_open_inv: "P w \<Longrightarrow> P (snd (fs_open_write (po_fs os) p w))"
    and fs_write_inv: "P w \<Longrightarrow> P (snd (fs_write_all (po_fs os) fd bs w))"
    and fs_close_inv: "P w \<Longrightarrow> P (fs_close (po_fs os) fd w)"
    and fs_rmdir_inv: "P w \<Longrightarrow> P (snd (fs_rmdir (po_fs os) p w))"
begin

lemma wait_inv:
  "po_wait os timeout interval fin w = Some (b, w') \<Longrightarrow> (\<And>w. P w \<Longrightarrow> P (snd (fin w))) \<Longrightarrow> P w \<Longrightarrow> P w'"
  by (erule wait_until_inv [where Q = P and R = "\<lambda>b. P"])
     (auto dest: now_inv sleep_inv simp: prod_eq_iff)

lemma cgroup_kill_inv: "P w \<Longrightarrow> P (cgroup_kill (po_fs os) cg w)"
proof (cases "cg_kill_fd cg")
  case None
  assume "P w"
  then have "P (snd (fs_open_write (po_fs os) (path_join (cg_dir cg) ''cgroup.kill'') w))" by (rule fs_open_inv)
  with None show ?thesis
    by (auto simp: cgroup_kill_def fs_write_inv fs_close_inv split: prod.splits sum.splits)
qed (simp add: cgroup_kill_def fs_write_inv)

lemma backstop_inv: "P w \<Longrightarrow> P (kill_backstop os cg w)"
  by (cases cg) (simp_all add: kill_backstop_def cgroup_kill_inv)

lemma drained_inv: "P w \<Longrightarrow> P (snd (cgroup_drained (po_fs os) cg w))"
  using fs_read_inv [of w "path_join (cg_dir cg) ''cgroup.procs''"]
  by (auto simp: cgroup_drained_def read_to_string_def split: prod.splits sum.splits option.splits)

lemma finish_cgroup_inv: "finish_cgroup os cg grace w = Some (b, w') \<Longrightarrow> P w \<Longrightarrow> P w'"
  by (auto simp: finish_cgroup_def cgroup_remove_def split: bind_splits if_splits
      intro!: fs_rmdir_inv elim!: wait_inv [OF _ drained_inv cgroup_kill_inv])

lemma reap_root_inv:
  assumes "reap_root os child grace w = Some (r, w')" "P w"
  shows "P w'"
proof -
  obtain b where "wait_until (\<lambda>(w, x). let (t, w) = po_now os w in (t, (w, x))) (\<lambda>d (w, x). (po_sleep os d w, x))
       grace SAMPLE_INTERVAL (try_reap os child) (w, Inr None) = Some (b, (w', r))"
    using assms(1) by (auto simp: reap_root_def split: bind_splits)
  then have "P (fst (w', r))"
    by (rule wait_until_inv [where Q = "\<lambda>s. P (fst s)" and R = "\<lambda>b s. P (fst s)"])
       (use assms(2) in \<open>auto simp: try_reap_def Let_def split: prod.splits dest: now_inv sleep_inv try_wait_inv\<close>,
        (metis now_inv sleep_inv try_wait_inv snd_conv)+)
  then show ?thesis by simp
qed

end

locale proc_ops = quiet_ops +
  assumes kill_inv: "P w \<Longrightarrow> P (snd (po_kill_group os g sg w))"
    and test_inv: "P w \<Longrightarrow> P (snd (po_test_group os g w))"
begin

lemma group_dead_inv: "P w \<Longrightarrow> P (snd (group_dead os g w))"
  using test_inv [of w g] by (simp add: group_dead_def group_alive_def Let_def case_prod_beta)

lemma wait_dead_inv:
  "po_wait os d i (group_dead os g) (snd (po_kill_group os g sg w)) = Some (b, w') \<Longrightarrow> P w \<Longrightarrow> P w'"
  by (rule wait_inv [OF _ group_dead_inv kill_inv])

lemma terminate_group_inv:
  assumes "terminate_group os g grace cg w = Some (b, w')" "P w"
  shows "P w'"
proof -
  from assms(1) obtain b1 w1 where
    w1: "po_wait os grace 20 (group_dead os g) (snd (po_kill_group os g SIGTERM w)) = Some (b1, w1)"
    by (auto simp: terminate_group_def split: bind_splits)
  have P1: "P w1" by (rule wait_dead_inv [OF w1 assms(2)])
  show ?thesis
  proof (cases b1)
    case True
    with assms(1) w1 P1 show ?thesis by (auto simp: terminate_group_def intro: backstop_inv)
  next
    case False
    with assms(1) w1 obtain w2 where
      w2: "po_wait os 500 10 (group_dead os g) (snd (po_kill_group os g SIGKILL w1)) = Some (b, w2)"
        "w' = kill_backstop os cg w2"
      by (auto simp: terminate_group_def split: bind_splits)
    from wait_dead_inv [OF w2(1) P1] show ?thesis unfolding w2(2) by (rule backstop_inv)
  qed
qed

lemma kill_group_inv:
  assumes "kill_group os g grace cg interrupt w = Some (b, w')" "P w"
  shows "P w'"
proof (cases interrupt)
  case None
  with assms show ?thesis by (simp add: kill_group_def terminate_group_inv)
next
  case (Some d)
  with assms(1) obtain b1 w1 where
    w1: "po_wait os d 10 (group_dead os g) (snd (po_kill_group os g SIGINT w)) = Some (b1, w1)"
    by (auto simp: kill_group_def split: bind_splits)
  have P1: "P w1" by (rule wait_dead_inv [OF w1 assms(2)])
  with Some assms(1) w1 show ?thesis
    by (cases b1) (auto simp: kill_group_def intro: backstop_inv terminate_group_inv)
qed

end

section \<open>Returning\<close>

text \<open>The operations of the file system and the calls on processes do not turn the clock back.\<close>

locale proc_clock = monotone_clock "po_now os" "po_sleep os" clock
  for os :: "'w proc_os" and clock :: "'w \<Rightarrow> nat" +
  assumes kill_clock: "clock w \<le> clock (snd (po_kill_group os g sg w))"
    and test_clock: "clock w \<le> clock (snd (po_test_group os g w))"
    and try_wait_clock: "clock w \<le> clock (snd (po_try_wait os c w))"
    and read_clock: "clock w \<le> clock (snd (fs_read (po_fs os) p w))"
    and open_clock: "clock w \<le> clock (snd (fs_open_write (po_fs os) p w))"
    and write_clock: "clock w \<le> clock (snd (fs_write_all (po_fs os) fd bs w))"
    and close_clock: "clock w \<le> clock (fs_close (po_fs os) fd w)"
    and rmdir_clock: "clock w \<le> clock (snd (fs_rmdir (po_fs os) p w))"
begin

lemma group_dead_clock: "clock w \<le> clock (snd (group_dead os g w))"
  using test_clock [of w g] by (simp add: group_dead_def group_alive_def Let_def case_prod_beta)

lemma cgroup_kill_clock: "clock w \<le> clock (cgroup_kill (po_fs os) cg w)"
proof (cases "cg_kill_fd cg")
  case None
  obtain r w1 where o: "fs_open_write (po_fs os) (path_join (cg_dir cg) ''cgroup.kill'') w = (r, w1)" by force
  have w1: "clock w \<le> clock w1" using open_clock [of w "path_join (cg_dir cg) ''cgroup.kill''"] o by simp
  show ?thesis
  proof (cases r)
    case (Inr fd)
    have "clock w1 \<le> clock (fs_close (po_fs os) fd (snd (fs_write_all (po_fs os) fd [49] w1)))"
      using write_clock close_clock order_trans by blast
    with w1 None o Inr show ?thesis by (simp add: cgroup_kill_def)
  qed (use w1 None o in \<open>simp add: cgroup_kill_def\<close>)
qed (simp add: cgroup_kill_def write_clock)

lemma backstop_clock: "clock w \<le> clock (kill_backstop os cg w)"
  by (cases cg) (simp_all add: kill_backstop_def cgroup_kill_clock)

lemma drained_clock: "clock w \<le> clock (snd (cgroup_drained (po_fs os) cg w))"
  using read_clock [of w "path_join (cg_dir cg) ''cgroup.procs''"]
  by (auto simp: cgroup_drained_def read_to_string_def split: prod.splits sum.splits option.splits)

lemma terminate_group_returns: "\<exists>b w'. terminate_group os g grace cg w = Some (b, w') \<and> clock w \<le> clock w'"
proof -
  note wait = wait_until_returns [where fin = "group_dead os g", OF group_dead_clock]
  let ?w1 = "snd (po_kill_group os g SIGTERM w)"
  obtain b w2 where w2: "po_wait os grace 20 (group_dead os g) ?w1 = Some (b, w2)" "clock ?w1 \<le> clock w2"
    using wait [of 20 grace ?w1] by auto
  let ?w3 = "snd (po_kill_group os g SIGKILL w2)"
  obtain b' w4 where w4: "po_wait os 500 10 (group_dead os g) ?w3 = Some (b', w4)" "clock ?w3 \<le> clock w4"
    using wait [of 10 500 ?w3] by auto
  have "clock w \<le> clock w2" using w2(2) kill_clock order_trans by blast
  moreover have "clock w2 \<le> clock w4" using w4(2) kill_clock order_trans by blast
  ultimately show ?thesis
    using w2(1) w4(1) order_trans [OF _ backstop_clock, of "clock w" _ cg]
    by (cases b) (auto simp: terminate_group_def Let_def)
qed

lemma kill_group_returns: "\<exists>b w'. kill_group os g grace cg interrupt w = Some (b, w') \<and> clock w \<le> clock w'"
proof (cases interrupt)
  case (Some d)
  let ?w1 = "snd (po_kill_group os g SIGINT w)"
  obtain b w2 where w2: "po_wait os d 10 (group_dead os g) ?w1 = Some (b, w2)" "clock ?w1 \<le> clock w2"
    using wait_until_returns [where fin = "group_dead os g", OF group_dead_clock, of 10 d ?w1] by auto
  have "clock w \<le> clock w2" using w2(2) kill_clock order_trans by blast
  with Some w2(1) order_trans [OF _ backstop_clock] terminate_group_returns [of g grace cg w2] order_trans
  show ?thesis by (auto simp: kill_group_def)
qed (simp add: kill_group_def terminate_group_returns)

lemma finish_cgroup_returns: "\<exists>b w'. finish_cgroup os cg grace w = Some (b, w') \<and> clock w \<le> clock w'"
proof -
  let ?w1 = "cgroup_kill (po_fs os) cg w"
  obtain b w2 where w2: "po_wait os (grace + 500) 20 (cgroup_drained (po_fs os) cg) ?w1 = Some (b, w2)" "clock ?w1 \<le> clock w2"
    using wait_until_returns [where fin = "cgroup_drained (po_fs os) cg", OF drained_clock, of 20 "grace + 500" ?w1] by auto
  have "clock w \<le> clock w2" using w2(2) cgroup_kill_clock order_trans by blast
  with w2(1) order_trans [OF _ rmdir_clock] show ?thesis by (simp add: finish_cgroup_def cgroup_remove_def)
qed

lemma reap_root_returns: "\<exists>r w'. reap_root os child grace w = Some (r, w') \<and> clock w \<le> clock w'"
proof -
  let ?now = "\<lambda>(w, x). let (t, w) = po_now os w in (t, (w, x))"
  let ?sleep = "\<lambda>d (w, x). (po_sleep os d w, x)"
  have lifted: "monotone_clock ?now ?sleep (\<lambda>(w, x). clock w)"
    by unfold_locales (auto simp: now_clock sleep_clock case_prod_beta Let_def)
  obtain b y where "wait_until ?now ?sleep grace SAMPLE_INTERVAL (try_reap os child) (w, Inr None) = Some (b, y)"
    "clock w \<le> (case y of (w, x) \<Rightarrow> clock w)"
    using monotone_clock.wait_until_returns [OF lifted, of "try_reap os child" SAMPLE_INTERVAL grace "(w, Inr None)"] try_wait_clock
    by (auto simp: try_reap_def case_prod_beta Let_def SAMPLE_INTERVAL_def)
  then show ?thesis by (cases y) (simp add: reap_root_def)
qed

end

text \<open>A system with a counter for a clock, which sleeping advances.\<close>

abbreviation on_fst :: "('w \<Rightarrow> 'r \<times> 'w) \<Rightarrow> 'w \<times> 'x \<Rightarrow> 'r \<times> 'w \<times> 'x" where
  "on_fst f \<equiv> (\<lambda>(w, x). let (r, w) = f w in (r, (w, x)))"

definition lift_fs :: "'w fs_ops \<Rightarrow> ('w \<times> 'x) fs_ops" where
  "lift_fs fs =
     \<lparr>fs_exists = (\<lambda>p. on_fst (fs_exists fs p)), fs_read = (\<lambda>p. on_fst (fs_read fs p)),
      fs_mkdir = (\<lambda>p. on_fst (fs_mkdir fs p)), fs_rmdir = (\<lambda>p. on_fst (fs_rmdir fs p)),
      fs_open_write = (\<lambda>p. on_fst (fs_open_write fs p)), fs_write_all = (\<lambda>fd bs. on_fst (fs_write_all fs fd bs)),
      fs_close = (\<lambda>fd (w, x). (fs_close fs fd w, x))\<rparr>"

definition timed_proc :: "'w proc_os \<Rightarrow> ('w \<times> nat) proc_os" where
  "timed_proc os =
     \<lparr>po_now = (\<lambda>(w, t). (t, (w, t))), po_sleep = (\<lambda>d (w, t). (po_sleep os d w, t + d)),
      po_kill_group = (\<lambda>g sg. on_fst (po_kill_group os g sg)), po_test_group = (\<lambda>g. on_fst (po_test_group os g)),
      po_try_wait = (\<lambda>c. on_fst (po_try_wait os c)), po_fs = lift_fs (po_fs os)\<rparr>"

interpretation timed_proc: proc_clock "timed_proc os" snd for os :: "'w proc_os"
  by unfold_locales (auto simp: timed_proc_def lift_fs_def Let_def split: prod.splits)

section \<open>What the log shows\<close>

datatype proc_event = KillEv u32 int | ProbeEv "int + unit" | WriteEv nat bytes

text \<open>A system that records the signals, the probes and the writes, newest first.\<close>

definition logging_proc :: "'w proc_os \<Rightarrow> ('w \<times> proc_event list) proc_os" where
  "logging_proc os =
     \<lparr>po_now = on_fst (po_now os), po_sleep = (\<lambda>d (w, l). (po_sleep os d w, l)),
      po_kill_group = (\<lambda>g sg (w, l). let (r, w) = po_kill_group os g sg w in (r, (w, KillEv g sg # l))),
      po_test_group = (\<lambda>g (w, l). let (r, w) = po_test_group os g w in (r, (w, ProbeEv r # l))),
      po_try_wait = (\<lambda>c. on_fst (po_try_wait os c)),
      po_fs = (lift_fs (po_fs os))\<lparr>fs_write_all :=
        (\<lambda>fd bs (w, l). let (r, w) = fs_write_all (po_fs os) fd bs w in (r, (w, WriteEv fd bs # l)))\<rparr>\<rparr>"

definition sent_signals :: "proc_event list \<Rightarrow> (u32 \<times> int) list" where
  "sent_signals l = rev (concat (map (\<lambda>ev. case ev of KillEv g sg \<Rightarrow> [(g, sg)] | _ \<Rightarrow> []) l))"

definition probes :: "proc_event list \<Rightarrow> (int + unit) list" where
  "probes l = concat (map (\<lambda>ev. case ev of ProbeEv r \<Rightarrow> [r] | _ \<Rightarrow> []) l)"

lemma sent_probes_simps [simp]:
  "sent_signals [] = []" "sent_signals (KillEv g sg # l) = sent_signals l @ [(g, sg)]"
  "sent_signals (ProbeEv r # l) = sent_signals l" "sent_signals (WriteEv fd bs # l) = sent_signals l"
  "probes [] = []" "probes (KillEv g sg # l) = probes l" "probes (ProbeEv r # l) = r # probes l"
  "probes (WriteEv fd bs # l) = probes l"
  by (simp_all add: sent_signals_def probes_def)

text \<open>A wait for the group to die only probes, and its answer is the last probe's.\<close>

definition last_probe :: "bool \<Rightarrow> proc_event list \<Rightarrow> bool" where
  "last_probe gone l \<longleftrightarrow> (\<exists>r rs. probes l = r # rs \<and> (gone \<longleftrightarrow> \<not> probe_says_alive r))"

lemma wait_group_log:
  assumes "po_wait (logging_proc os) grace interval (group_dead (logging_proc os) g) (w, l) = Some (b, (w', l'))"
  shows "sent_signals l' = sent_signals l \<and> last_probe b l'"
proof -
  have "sent_signals (snd (w', l')) = sent_signals l \<and> last_probe b (snd (w', l'))"
    using assms
    by (rule wait_until_inv [where Q = "\<lambda>s. sent_signals (snd s) = sent_signals l"])
       (auto simp: logging_proc_def group_dead_def group_alive_def last_probe_def Let_def split: prod.splits)
  then show ?thesis by simp
qed

lemma backstop_log:
  "sent_signals (snd (kill_backstop (logging_proc os) cg (w, l))) = sent_signals l
   \<and> probes (snd (kill_backstop (logging_proc os) cg (w, l))) = probes l
   \<and> (cg \<noteq> None \<and> cg_kill_fd (the cg) = Some fd \<longrightarrow> hd (snd (kill_backstop (logging_proc os) cg (w, l))) = WriteEv fd [49])"
  by (auto simp: kill_backstop_def cgroup_kill_def logging_proc_def lift_fs_def Let_def
      split: option.splits prod.splits sum.splits)

text \<open>What a finished kill sequence sent: a nonempty prefix of the stages, all of them unless the
  group was seen gone.\<close>

definition escalated :: "u32 \<Rightarrow> int list \<Rightarrow> bool \<Rightarrow> proc_event list \<Rightarrow> (u32 \<times> int) list \<Rightarrow> bool" where
  "escalated g stages b l before \<longleftrightarrow>
     (\<exists>k. 0 < k \<and> k \<le> length stages \<and> sent_signals l = before @ map (Pair g) (take k stages)
        \<and> (k < length stages \<longrightarrow> b)) \<and> last_probe b l"

lemma escalated_backstop:
  "escalated g stages b l before \<Longrightarrow> escalated g stages b (snd (kill_backstop (logging_proc os) cg (w, l))) before"
  using backstop_log [of os cg w l] by (simp add: escalated_def last_probe_def)

lemma kill_group_logged:
  "snd (snd (po_kill_group (logging_proc os) g sg (w, l))) = KillEv g sg # l"
  by (simp add: logging_proc_def Let_def split: prod.splits)

lemma terminate_group_log:
  assumes "terminate_group (logging_proc os) g grace cg (w, l) = Some (b, (w', l'))"
  shows "escalated g [SIGTERM, SIGKILL] b l' (sent_signals l)"
proof -
  let ?os = "logging_proc os"
  obtain w1 l1 where k1: "snd (po_kill_group ?os g SIGTERM (w, l)) = (w1, l1)" by force
  then have l1: "l1 = KillEv g SIGTERM # l" using kill_group_logged by (metis snd_conv)
  from assms k1 obtain b2 w2 l2 where t: "po_wait ?os grace 20 (group_dead ?os g) (w1, l1) = Some (b2, (w2, l2))"
    by (auto simp: terminate_group_def split: bind_splits)
  note W1 = wait_group_log [OF t]
  show ?thesis
  proof (cases b2)
    case True
    with assms k1 t have "b" and e: "(w', l') = kill_backstop ?os cg (w2, l2)" by (simp_all add: terminate_group_def)
    with W1 True l1 have "escalated g [SIGTERM, SIGKILL] b l2 (sent_signals l)"
      by (auto simp: escalated_def intro!: exI [of _ 1])
    from escalated_backstop [OF this, of os cg w2] show ?thesis by (simp add: e [symmetric])
  next
    case False
    obtain w3 l3 where k2: "snd (po_kill_group ?os g SIGKILL (w2, l2)) = (w3, l3)" by force
    then have l3: "l3 = KillEv g SIGKILL # l2" using kill_group_logged by (metis snd_conv)
    from assms k1 t k2 False obtain w4 l4 where t2: "po_wait ?os 500 10 (group_dead ?os g) (w3, l3) = Some (b, (w4, l4))"
      and e: "(w', l') = kill_backstop ?os cg (w4, l4)"
      by (auto simp: terminate_group_def split: bind_splits)
    from wait_group_log [OF t2] W1 l1 l3 have "escalated g [SIGTERM, SIGKILL] b l4 (sent_signals l)"
      by (auto simp: escalated_def intro!: exI [of _ 2])
    from escalated_backstop [OF this, of os cg w4] show ?thesis by (simp add: e [symmetric])
  qed
qed

definition kill_stages :: "nat option \<Rightarrow> int list" where
  "kill_stages interrupt = (if interrupt = None then [] else [SIGINT]) @ [SIGTERM, SIGKILL]"

lemma kill_group_log:
  assumes "kill_group (logging_proc os) g grace cg interrupt (w, l0) = Some (b, (w', l))"
  shows "escalated g (kill_stages interrupt) b l (sent_signals l0)"
proof (cases interrupt)
  let ?os = "logging_proc os"
  case None
  with assms terminate_group_log [of os g grace cg w l0] show ?thesis
    by (simp add: kill_group_def kill_stages_def)
next
  let ?os = "logging_proc os"
  case (Some d)
  obtain w1 l1 where k1: "snd (po_kill_group ?os g SIGINT (w, l0)) = (w1, l1)" by force
  then have l1: "l1 = KillEv g SIGINT # l0" using kill_group_logged by (metis snd_conv)
  from assms k1 Some obtain b2 w2 l2 where t: "po_wait ?os d 10 (group_dead ?os g) (w1, l1) = Some (b2, (w2, l2))"
    by (auto simp: kill_group_def split: bind_splits)
  note W1 = wait_group_log [OF t]
  show ?thesis
  proof (cases b2)
    case True
    with assms k1 t Some have "b" and e: "(w', l) = kill_backstop ?os cg (w2, l2)" by (simp_all add: kill_group_def)
    with W1 True l1 Some have "escalated g (kill_stages interrupt) b l2 (sent_signals l0)"
      by (auto simp: escalated_def kill_stages_def intro!: exI [of _ 1])
    from escalated_backstop [OF this, of os cg w2] show ?thesis by (simp add: e [symmetric])
  next
    case False
    with assms k1 t Some have "terminate_group ?os g grace cg (w2, l2) = Some (b, (w', l))"
      by (simp add: kill_group_def)
    from terminate_group_log [OF this] obtain k where
      "0 < k" "k \<le> length [SIGTERM, SIGKILL]" "k < length [SIGTERM, SIGKILL] \<longrightarrow> b" "last_probe b l"
      "sent_signals l = sent_signals l2 @ map (Pair g) (take k [SIGTERM, SIGKILL])"
      unfolding escalated_def by blast
    with Some W1 l1 show ?thesis
      unfolding escalated_def by (intro conjI exI [of _ "Suc k"]) (simp_all add: kill_stages_def)
  qed
qed

lemma last_probe_iff: "last_probe gone l \<longleftrightarrow> (\<exists>r rs. probes l = r # rs \<and> (gone \<longleftrightarrow> r = Inl ESRCH))"
proof -
  have "\<not> probe_says_alive r \<longleftrightarrow> r = Inl ESRCH" for r by (cases r) auto
  then show ?thesis by (simp add: last_probe_def)
qed

section \<open>Properties\<close>

text \<open>C10: The kill sequence escalates on evidence: \<open>kill_group\<close> sends its group the optional
  SIGINT, then SIGTERM, then SIGKILL, in this order and to no other group, stops early only when a
  probe found the group gone, and reports it dead exactly when its last probe says so.\<close>

theorem kill_group_escalates:
  assumes "kill_group (logging_proc os) g grace cg interrupt (w, []) = Some (b, (w', l))"
  shows "(\<exists>k. 0 < k \<and> k \<le> length (kill_stages interrupt)
        \<and> sent_signals l = map (Pair g) (take k (kill_stages interrupt)) \<and> (k < length (kill_stages interrupt) \<longrightarrow> b))
    \<and> (\<exists>r rs. probes l = r # rs \<and> (b \<longleftrightarrow> r = Inl ESRCH))"
  using kill_group_log [OF assms] by (simp add: escalated_def last_probe_iff)

text \<open>A group that only SIGKILL ends, on a clock that stands still.\<close>

definition stubborn_os :: "bool proc_os" where
  "stubborn_os =
     \<lparr>po_now = (\<lambda>w. (0, w)), po_sleep = (\<lambda>d w. w),
      po_kill_group = (\<lambda>g sg alive. (Inr (), alive \<and> sg \<noteq> SIGKILL)),
      po_test_group = (\<lambda>g alive. (if alive then Inr () else Inl ESRCH, alive)),
      po_try_wait = (\<lambda>c alive. (Inr (if alive then None else Some \<lparr>es_code = None, es_signal = Some 9\<rparr>), alive)),
      po_fs = \<lparr>fs_exists = (\<lambda>p w. (False, w)), fs_read = (\<lambda>p w. (Inr [], w)), fs_mkdir = (\<lambda>p w. (Inr (), w)),
        fs_rmdir = (\<lambda>p w. (Inr (), w)), fs_open_write = (\<lambda>p w. (Inl (Os EACCES), w)),
        fs_write_all = (\<lambda>fd bs w. (Inr (), w)), fs_close = (\<lambda>fd w. w)\<rparr>\<rparr>"

lemma stubborn_kill:
  "po_kill_group (logging_proc stubborn_os) g sg (alive, l) = (Inr (), (alive \<and> sg \<noteq> SIGKILL, KillEv g sg # l))"
  by (simp add: logging_proc_def stubborn_os_def)

lemma stubborn_wait:
  "po_wait (logging_proc stubborn_os) 0 20 (group_dead (logging_proc stubborn_os) g) (True, l)
     = Some (False, (True, ProbeEv (Inr ()) # l))"
  "po_wait (logging_proc stubborn_os) 500 10 (group_dead (logging_proc stubborn_os) g) (False, l)
     = Some (True, (False, ProbeEv (Inl ESRCH) # l))"
proof -
  have now: "po_now (logging_proc stubborn_os) (alive, l) = (0, (alive, l))" for alive l
    by (simp add: logging_proc_def stubborn_os_def)
  have dead: "group_dead (logging_proc stubborn_os) g (alive, l)
      = (\<not> alive, (alive, ProbeEv (if alive then Inr () else Inl ESRCH) # l))" for alive l
    by (simp add: group_dead_def group_alive_def logging_proc_def stubborn_os_def)
  show "po_wait (logging_proc stubborn_os) 0 20 (group_dead (logging_proc stubborn_os) g) (True, l)
     = Some (False, (True, ProbeEv (Inr ()) # l))"
    by (simp add: wait_until_def now, subst wait_loop.simps) (simp add: dead now)
  show "po_wait (logging_proc stubborn_os) 500 10 (group_dead (logging_proc stubborn_os) g) (False, l)
     = Some (True, (False, ProbeEv (Inl ESRCH) # l))"
    by (simp add: wait_until_def now, subst wait_loop.simps) (simp add: dead now)
qed

lemma stubborn_run:
  "kill_group (logging_proc stubborn_os) 7 0 None None (True, [])
     = Some (True, (False, [ProbeEv (Inl ESRCH), KillEv 7 SIGKILL, ProbeEv (Inr ()), KillEv 7 SIGTERM]))"
  by (simp add: kill_group_def terminate_group_def stubborn_kill stubborn_wait SIGTERM_def SIGKILL_def kill_backstop_def)

theorem kill_group_escalates_witness:
  "\<exists>k. 0 < k \<and> [(7 :: u32, SIGTERM), (7, SIGKILL)] = map (Pair 7) (take k (kill_stages None))"
  using kill_group_escalates [OF stubborn_run] by auto

text \<open>C28: Teardown is bounded: on any system whose calls do not turn the clock back, the kill sequence
  of a group, the end of a cgroup and the reaping of the root return, whatever survives.\<close>

theorem teardown_returns:
  assumes "proc_clock os clock"
  shows "(\<exists>b w'. kill_group os g grace cg interrupt w = Some (b, w'))
    \<and> (\<exists>b w'. finish_cgroup os c grace w = Some (b, w'))
    \<and> (\<exists>r w'. reap_root os child grace w = Some (r, w'))"
  using proc_clock.kill_group_returns [OF assms, of g grace cg interrupt w]
    proc_clock.finish_cgroup_returns [OF assms, of c grace w] proc_clock.reap_root_returns [OF assms, of child grace w]
  by blast

theorem teardown_returns_witness:
  "\<exists>b w'. kill_group (timed_proc stubborn_os) 7 5000 None (Some 100) (True, 0) = Some (b, w')"
  using teardown_returns [OF timed_proc.proc_clock_axioms, of stubborn_os 7 5000 None "Some 100" "(True, 0)"] by blast

end
