(* ===== verification/Privdrop.thy ===== *)
theory Privdrop
  imports ChildOs
begin

text \<open>
  Dropping the child to another user or group, \<open>native/forcola_shim/src/privdrop.rs\<close>. The
  parent resolves names through the account database, which is a parameter (a record of the
  lookup functions of the C library and the ids of the shim itself), into numeric credentials and
  a plan; the child runs the plan's system calls between \<open>fork\<close> and \<open>exec\<close>.
\<close>

section \<open>Requests, credentials and plans\<close>

datatype user_spec = UserName string | UserId u32
datatype group_spec = GroupName string | GroupId u32

record credentials =
  cr_uid :: "u32 option"
  cr_gid :: u32
  cr_groups :: "u32 list"
  cr_group_requested :: bool

record drop_plan =
  dp_groups :: "u32 list option"
  dp_gid :: "u32 option"
  dp_uid :: "u32 option"

record resolved_user =
  ru_uid :: u32
  ru_primary_gid :: u32
  ru_supplementary :: "u32 list"

text \<open>
  The account database. \<open>getpwnam_r\<close>, \<open>getpwuid_r\<close> and \<open>getgrnam_r\<close> get the size of their
  buffer and return their code with the entry; \<open>getgrouplist\<close> gets the array's length and
  returns its result, the count it stored and the array.
\<close>

record accounts =
  getpwnam_r :: "string \<Rightarrow> nat \<Rightarrow> int \<times> (u32 \<times> u32) option"
  getpwuid_r :: "u32 \<Rightarrow> nat \<Rightarrow> int \<times> (string \<times> u32) option"
  getgrnam_r :: "string \<Rightarrow> nat \<Rightarrow> int \<times> u32 option"
  os_getgrouplist :: "string \<Rightarrow> u32 \<Rightarrow> nat \<Rightarrow> int \<times> int \<times> u32 list"
  getpw_size_max :: int
  getgr_size_max :: int
  getuid :: u32
  getgid :: u32

section \<open>Database lookups\<close>

definition sysconf_size :: "int \<Rightarrow> nat \<Rightarrow> nat" where
  "sysconf_size v fallback = (if v \<le> 0 then fallback else nat v)"

definition pwd_buf_size :: "accounts \<Rightarrow> nat" where
  "pwd_buf_size db = sysconf_size (getpw_size_max db) (16 * 1024)"

definition grp_buf_size :: "accounts \<Rightarrow> nat" where
  "grp_buf_size db = sysconf_size (getgr_size_max db) (16 * 1024)"

text \<open>The buffer-doubling loop. A size is positive, so the loop carries its predecessor.\<close>

function grow_buffer :: "(nat \<Rightarrow> int \<times> 'r option) \<Rightarrow> nat \<Rightarrow> io_error + 'r option" where
  "grow_buffer call p =
     (let size = Suc p; (rc, result) = call size in
      if rc = ERANGE \<and> size < 2 ^ 20 then grow_buffer call (2 * size - 1)
      else if rc \<noteq> 0 then Inl (Os rc)
      else Inr result)"
  by pat_completeness auto
termination by (relation "measure (\<lambda>(call, p). 2 ^ 20 - p)") auto

declare grow_buffer.simps [simp del]

definition with_pwd :: "accounts \<Rightarrow> (nat \<Rightarrow> int \<times> 'r option) \<Rightarrow> io_error + 'r option" where
  "with_pwd db call = grow_buffer call (pwd_buf_size db - 1)"

definition getpwnam :: "accounts \<Rightarrow> string \<Rightarrow> io_error + (u32 \<times> u32) option" where
  "getpwnam db name = with_pwd db (getpwnam_r db name)"

definition getpwuid :: "accounts \<Rightarrow> u32 \<Rightarrow> io_error + (string \<times> u32) option" where
  "getpwuid db uid =
     (let (rc, result) = getpwuid_r db uid (pwd_buf_size db) in
      if rc \<noteq> 0 then Inl (Os rc) else Inr result)"

definition getgrnam :: "accounts \<Rightarrow> string \<Rightarrow> io_error + u32 option" where
  "getgrnam db name = grow_buffer (getgrnam_r db name) (grp_buf_size db - 1)"

text \<open>The loop of \<open>getgrouplist\<close> from an array of \<open>Suc p\<close> entries; a negative count cast to
  \<open>usize\<close> truncates nothing.\<close>

text \<open>The size a truncated \<open>getgrouplist\<close> retries with is larger than the last one.\<close>

lemma grown_larger:
  fixes c :: int and p :: nat
  defines "g \<equiv> nat (max c (min (2 * int (Suc p)) (2 ^ 31 - 1)))"
  assumes "\<not> g > 2 ^ 20"
  shows "2 ^ 20 - (g - 1) < (2 ^ 20 :: nat) - p"
proof -
  have le: "min (2 * int (Suc p)) (2 ^ 31 - 1) \<le> 2 ^ 20" using assms by (simp add: g_def)
  then have "2 * int (Suc p) \<le> 2 ^ 20" by (simp add: min_def split: if_splits)
  then have "2 * int (Suc p) \<le> int g" unfolding g_def by simp
  then have "2 * Suc p \<le> g" by linarith
  then have "p < g - 1" "p < g" by simp_all
  with assms(2) show ?thesis by (intro diff_less_mono2) linarith+
qed

function getgrouplist_loop :: "(nat \<Rightarrow> int \<times> int \<times> u32 list) \<Rightarrow> nat \<Rightarrow> io_error + u32 list" where
  "getgrouplist_loop call p =
     (let ngroups = Suc p; (rc, count, gids) = call ngroups in
      if rc < 0 \<or> count > int ngroups then
        let grown = nat (max count (min (2 * int ngroups) (2 ^ 31 - 1))) in
        if grown > 2 ^ 20 then Inl (Custom Other ''supplementary group list too large'')
        else getgrouplist_loop call (grown - 1)
      else Inr (if count < 0 then gids else take (nat count) gids))"
  by pat_completeness auto
termination
proof (relation "measure (\<lambda>(call, p). 2 ^ 20 - p)", goal_cases)
  case (2 call p n c rc d count gids g)
  then show ?case using grown_larger [of count p] by auto
qed simp

declare getgrouplist_loop.simps [simp del]

definition getgrouplist :: "accounts \<Rightarrow> string \<Rightarrow> u32 \<Rightarrow> io_error + u32 list" where
  "getgrouplist db name gid =
     (if name = [] then Inr [] else getgrouplist_loop (os_getgrouplist db name gid) 31)"

section \<open>Resolution in the parent\<close>

definition cstring :: "string \<Rightarrow> io_error + string" where
  "cstring s = (if CHR 0x00 \<in> set s
     then Inl (Custom InvalidInput ''user/group name contains an interior NUL byte'') else Inr s)"

fun resolve_user :: "accounts \<Rightarrow> user_spec \<Rightarrow> io_error + resolved_user" where
  "resolve_user db (UserName name) =
     (case cstring name of Inl e \<Rightarrow> Inl e | Inr cname \<Rightarrow>
       (case getpwnam db cname of
          Inl e \<Rightarrow> Inl e
        | Inr None \<Rightarrow> Inl (Custom NotFound (''unknown user: '' @ name))
        | Inr (Some (uid, gid)) \<Rightarrow>
            (case getgrouplist db cname gid of
               Inl e \<Rightarrow> Inl e
             | Inr gs \<Rightarrow> Inr \<lparr>ru_uid = uid, ru_primary_gid = gid, ru_supplementary = gs\<rparr>)))"
| "resolve_user db (UserId uid) =
     (case getpwuid db uid of
        Inl e \<Rightarrow> Inl e
      | Inr (Some (name, gid)) \<Rightarrow>
          (case getgrouplist db name gid of
             Inl e \<Rightarrow> Inl e
           | Inr gs \<Rightarrow> Inr \<lparr>ru_uid = uid, ru_primary_gid = gid, ru_supplementary = gs\<rparr>)
      | Inr None \<Rightarrow> Inr \<lparr>ru_uid = uid, ru_primary_gid = uid, ru_supplementary = []\<rparr>)"

fun resolve_gid :: "accounts \<Rightarrow> group_spec \<Rightarrow> io_error + u32" where
  "resolve_gid db (GroupName name) =
     (case cstring name of Inl e \<Rightarrow> Inl e | Inr cname \<Rightarrow>
       (case getgrnam db cname of
          Inl e \<Rightarrow> Inl e
        | Inr None \<Rightarrow> Inl (Custom NotFound (''unknown group: '' @ name))
        | Inr (Some gid) \<Rightarrow> Inr gid))"
| "resolve_gid db (GroupId gid) = Inr gid"

definition supplementary_groups :: "resolved_user \<Rightarrow> u32 \<Rightarrow> u32 list" where
  "supplementary_groups user gid =
     (if gid \<in> set (ru_supplementary user) then ru_supplementary user
      else ru_supplementary user @ [gid])"

fun resolve_credentials ::
  "accounts \<Rightarrow> user_spec option \<Rightarrow> group_spec option \<Rightarrow> io_error + credentials option" where
  "resolve_credentials db None None = Inr None"
| "resolve_credentials db None (Some grp) =
     (case resolve_gid db grp of Inl e \<Rightarrow> Inl e | Inr gid \<Rightarrow>
       Inr (Some \<lparr>cr_uid = None, cr_gid = gid, cr_groups = [gid], cr_group_requested = True\<rparr>))"
| "resolve_credentials db (Some user) grp =
     (case resolve_user db user of Inl e \<Rightarrow> Inl e | Inr resolved \<Rightarrow>
       (case (case grp of Some g \<Rightarrow> resolve_gid db g | None \<Rightarrow> Inr (ru_primary_gid resolved)) of
          Inl e \<Rightarrow> Inl e
        | Inr gid \<Rightarrow> Inr (Some \<lparr>cr_uid = Some (ru_uid resolved), cr_gid = gid,
            cr_groups = supplementary_groups resolved gid, cr_group_requested = (grp \<noteq> None)\<rparr>)))"

definition plan_from_current :: "accounts \<Rightarrow> credentials \<Rightarrow> drop_plan" where
  "plan_from_current db creds =
     (let uid = (case cr_uid creds of Some u \<Rightarrow> if u \<noteq> getuid db then Some u else None | None \<Rightarrow> None);
          gid = (if cr_gid creds \<noteq> getgid db then Some (cr_gid creds) else None);
          groups = (if cr_group_requested creds \<or> uid \<noteq> None \<or> gid \<noteq> None
                    then Some (cr_groups creds) else None)
      in \<lparr>dp_groups = groups, dp_gid = gid, dp_uid = uid\<rparr>)"

definition resolve ::
  "accounts \<Rightarrow> user_spec option \<Rightarrow> group_spec option \<Rightarrow> io_error + drop_plan option" where
  "resolve db user grp =
     (case resolve_credentials db user grp of
        Inl e \<Rightarrow> Inl e
      | Inr None \<Rightarrow> Inr None
      | Inr (Some creds) \<Rightarrow> Inr (Some (plan_from_current db creds)))"

section \<open>Application in the child\<close>

definition apply_drop :: "'w child_os \<Rightarrow> drop_plan \<Rightarrow> 'w \<Rightarrow> (io_error + unit) \<times> 'w" where
  "apply_drop sys plan w =
     (case (case dp_groups plan of Some gs \<Rightarrow> checked sys (Setgroups gs) w | None \<Rightarrow> (Inr (), w)) of
        (Inl e, w1) \<Rightarrow> (Inl e, w1)
      | (Inr _, w1) \<Rightarrow>
          (case (case dp_gid plan of Some g \<Rightarrow> checked sys (Setgid g) w1 | None \<Rightarrow> (Inr (), w1)) of
             (Inl e, w2) \<Rightarrow> (Inl e, w2)
           | (Inr _, w2) \<Rightarrow>
               (case dp_uid plan of Some u \<Rightarrow> checked sys (Setuid u) w2 | None \<Rightarrow> (Inr (), w2))))"

section \<open>Lemmas on the lookups\<close>

lemma grow_buffer_finds:
  assumes "\<And>size. call size = (if size < need then (ERANGE, None) else (0, r))" "need \<le> 2 ^ 20"
  shows "grow_buffer call p = Inr r"
  using assms
proof (induction call p rule: grow_buffer.induct)
  case (1 call p)
  show ?case
  proof (cases "Suc p < need")
    case True
    then have small: "call (Suc p) = (ERANGE, None)" "Suc p < 2 ^ 20" using "1.prems" by auto
    have "grow_buffer call (2 * Suc p - 1) = Inr r"
      by (rule "1.IH" [OF refl refl]) (use small "1.prems" in auto)
    with small show ?thesis by (simp add: grow_buffer.simps [of call p])
  next
    case False
    then have "call (Suc p) = (0, r)" using "1.prems"(1) [of "Suc p"] by simp
    then show ?thesis by (simp add: grow_buffer.simps [of call p] ERANGE_def)
  qed
qed

lemma pwd_buf_size_pos: "0 < pwd_buf_size db"
  by (simp add: pwd_buf_size_def sysconf_size_def)

lemma getgrouplist_loop_finds:
  assumes "\<And>n. call n = (if n < length gs then (- 1, int (length gs), partial n)
      else (int (length gs), int (length gs), gs @ pad n))" "length gs \<le> 2 ^ 20" "Suc p \<le> 2 ^ 19"
  shows "getgrouplist_loop call p = Inr gs"
proof -
  have fits: "getgrouplist_loop call q = Inr gs" if "length gs \<le> Suc q" for q
    using that assms(1) by (simp add: getgrouplist_loop.simps [of call q])
  show ?thesis
  proof (cases "Suc p < length gs")
    case False
    then show ?thesis by (intro fits) simp
  next
    case True
    define grown where "grown = nat (max (int (length gs)) (min (2 * int (Suc p)) (2 ^ 31 - 1)))"
    have "min (2 * int (Suc p)) (2 ^ 31 - 1) = 2 * int (Suc p)" using assms(3) by simp
    then have "length gs \<le> grown" "\<not> grown > 2 ^ 20" using assms(2,3) by (simp_all add: grown_def)
    moreover have "call (Suc p) = (- 1, int (length gs), partial (Suc p))"
      using True assms(1) [of "Suc p"] by simp
    then have "getgrouplist_loop call p
        = (if grown > 2 ^ 20 then Inl (Custom Other ''supplementary group list too large'')
           else getgrouplist_loop call (grown - 1))"
      unfolding getgrouplist_loop.simps [of call p] grown_def Let_def by simp
    ultimately show ?thesis using fits [of "grown - 1"] by simp
  qed
qed

section \<open>Lemmas on resolution and application\<close>

lemma supplementary_groups_gid: "gid \<in> set (supplementary_groups user gid)"
  by (simp add: supplementary_groups_def)

lemma resolve_credentials_None: "resolve_credentials db user grp = Inr None \<longleftrightarrow> user = None \<and> grp = None"
  by (cases "(db, user, grp)" rule: resolve_credentials.cases) (auto split: sum.splits)

lemma resolve_credentials_Some:
  assumes "resolve_credentials db user grp = Inr (Some c)"
  shows "cr_gid c \<in> set (cr_groups c)" "cr_group_requested c \<longleftrightarrow> grp \<noteq> None"
    "cr_uid c = None \<longleftrightarrow> user = None"
  using assms
  by (cases "(db, user, grp)" rule: resolve_credentials.cases;
      auto simp: supplementary_groups_gid split: sum.splits)+

text \<open>The calls of a plan, in the order the child must make them.\<close>

definition plan_calls :: "drop_plan \<Rightarrow> child_call list" where
  "plan_calls plan =
     (case dp_groups plan of Some gs \<Rightarrow> [Setgroups gs] | None \<Rightarrow> [])
     @ (case dp_gid plan of Some g \<Rightarrow> [Setgid g] | None \<Rightarrow> [])
     @ (case dp_uid plan of Some u \<Rightarrow> [Setuid u] | None \<Rightarrow> [])"

lemma apply_drop_calls: "apply_drop sys plan w = run_calls sys (plan_calls plan) w"
  by (auto simp: apply_drop_def plan_calls_def split: option.splits prod.splits sum.splits)

text \<open>What a kernel guarantees of the three setters, for the ids a world shows.\<close>

definition credential_laws ::
  "'w child_os \<Rightarrow> ('w \<Rightarrow> u32) \<Rightarrow> ('w \<Rightarrow> u32) \<Rightarrow> ('w \<Rightarrow> u32 list) \<Rightarrow> bool" where
  "credential_laws sys uid gid groups \<longleftrightarrow>
     (\<forall>gs w n w'. sys (Setgroups gs) w = (Inr n, w') \<longrightarrow>
        groups w' = gs \<and> gid w' = gid w \<and> uid w' = uid w)
   \<and> (\<forall>g w n w'. sys (Setgid g) w = (Inr n, w') \<longrightarrow>
        groups w' = groups w \<and> gid w' = g \<and> uid w' = uid w)
   \<and> (\<forall>u w n w'. sys (Setuid u) w = (Inr n, w') \<longrightarrow>
        groups w' = groups w \<and> gid w' = gid w \<and> uid w' = u)"

lemma credential_laws_checked:
  assumes "credential_laws sys uid gid groups"
  shows "checked sys (Setgroups gs) w = (Inr n, w') \<Longrightarrow> groups w' = gs \<and> gid w' = gid w \<and> uid w' = uid w"
    and "checked sys (Setgid g) w = (Inr n, w') \<Longrightarrow> groups w' = groups w \<and> gid w' = g \<and> uid w' = uid w"
    and "checked sys (Setuid u) w = (Inr n, w') \<Longrightarrow> groups w' = groups w \<and> gid w' = gid w \<and> uid w' = u"
  using assms by (auto simp: checked_def credential_laws_def split: prod.splits sum.splits)

lemma apply_drop_effect:
  assumes "credential_laws sys uid gid groups" "apply_drop sys plan w = (Inr (), w')"
  shows "groups w' = (case dp_groups plan of Some gs \<Rightarrow> gs | None \<Rightarrow> groups w)
    \<and> gid w' = (case dp_gid plan of Some g \<Rightarrow> g | None \<Rightarrow> gid w)
    \<and> uid w' = (case dp_uid plan of Some u \<Rightarrow> u | None \<Rightarrow> uid w)"
proof -
  obtain w1 where s1: "(case dp_groups plan of Some gs \<Rightarrow> checked sys (Setgroups gs) w | None \<Rightarrow> (Inr (), w))
      = (Inr (), w1)" and r1: "(case (case dp_gid plan of Some g \<Rightarrow> checked sys (Setgid g) w1 | None \<Rightarrow> (Inr (), w1)) of
             (Inl e, w2) \<Rightarrow> (Inl e, w2)
           | (Inr _, w2) \<Rightarrow>
               (case dp_uid plan of Some u \<Rightarrow> checked sys (Setuid u) w2 | None \<Rightarrow> (Inr (), w2))) = (Inr (), w')"
    using assms(2) unfolding apply_drop_def by (auto split: prod.splits sum.splits)
  obtain w2 where s2: "(case dp_gid plan of Some g \<Rightarrow> checked sys (Setgid g) w1 | None \<Rightarrow> (Inr (), w1)) = (Inr (), w2)"
    and s3: "(case dp_uid plan of Some u \<Rightarrow> checked sys (Setuid u) w2 | None \<Rightarrow> (Inr (), w2)) = (Inr (), w')"
    using r1 by (auto split: prod.splits sum.splits)
  note laws = credential_laws_checked [OF assms(1)]
  have g: "groups w1 = (case dp_groups plan of Some gs \<Rightarrow> gs | None \<Rightarrow> groups w) \<and> gid w1 = gid w \<and> uid w1 = uid w"
    using s1 laws(1) by (cases "dp_groups plan") simp_all
  have i: "groups w2 = groups w1 \<and> gid w2 = (case dp_gid plan of Some g \<Rightarrow> g | None \<Rightarrow> gid w1) \<and> uid w2 = uid w1"
    using s2 laws(2) by (cases "dp_gid plan") simp_all
  have u: "groups w' = groups w2 \<and> gid w' = gid w2 \<and> uid w' = (case dp_uid plan of Some u \<Rightarrow> u | None \<Rightarrow> uid w2)"
    using s3 laws(3) by (cases "dp_uid plan") simp_all
  from g i u show ?thesis by (simp split: option.splits)
qed

section \<open>Properties\<close>

text \<open>A small kernel for the witnesses: ids (uid, gid, groups), every setter allowed.\<close>

fun permissive_kernel :: "(u32 \<times> u32 \<times> u32 list) child_os" where
  "permissive_kernel (Setgroups gs) (u, g, s) = (Inr 0, (u, g, gs))"
| "permissive_kernel (Setgid g') (u, g, s) = (Inr 0, (u, g', s))"
| "permissive_kernel (Setuid u') (u, g, s) = (Inr 0, (u', g, s))"
| "permissive_kernel c w = (Inr 0, w)"

definition sample_db :: accounts where
  "sample_db = \<lparr>getpwnam_r = (\<lambda>name size. if size < 40000 then (ERANGE, None)
       else (0, if name = ''svc'' then Some (500, 501) else None)),
     getpwuid_r = (\<lambda>uid size. if size < 40000 then (ERANGE, None)
       else (0, if uid = 500 then Some (''svc'', 501) else None)),
     getgrnam_r = (\<lambda>name size. (0, if name = ''staff'' then Some 50 else None)),
     os_getgrouplist = (\<lambda>name gid n. if n < length [gid, 7] then (- 1, int (length [gid, 7]), [])
       else (int (length [gid, 7]), int (length [gid, 7]), [gid, 7] @ replicate (n - 2) 0)),
     getpw_size_max = 1024, getgr_size_max = - 1, getuid = 0, getgid = 0\<rparr>"

lemma sample_pwnam: "getpwnam sample_db ''svc'' = Inr (Some (500, 501))"
  unfolding getpwnam_def with_pwd_def
  by (rule grow_buffer_finds [of _ 40000]) (simp_all add: sample_db_def)

lemma sample_grouplist: "getgrouplist sample_db ''svc'' g = Inr [g, 7]"
proof -
  have "getgrouplist_loop (os_getgrouplist sample_db ''svc'' g) 31 = Inr [g, 7]"
    by (rule getgrouplist_loop_finds [where partial = "\<lambda>_. []" and pad = "\<lambda>n. replicate (n - 2) 0"])
       (simp_all add: sample_db_def)
  then show ?thesis by (simp add: getgrouplist_def)
qed

lemma sample_grnam: "getgrnam sample_db ''staff'' = Inr (Some 50)"
  unfolding getgrnam_def
  by (rule grow_buffer_finds [of _ 0]) (simp_all add: sample_db_def)

lemma sample_credentials:
  "resolve_credentials sample_db (Some (UserName ''svc'')) (Some (GroupName ''staff'')) =
     Inr (Some \<lparr>cr_uid = Some 500, cr_gid = 50, cr_groups = [501, 7, 50], cr_group_requested = True\<rparr>)"
  by (simp add: cstring_def sample_pwnam sample_grouplist sample_grnam supplementary_groups_def)

text \<open>C22: A successful drop leaves the child with exactly the identity the request resolved to:
  its gid, its uid (the current one for a request without a user) and the prepared supplementary
  groups, the gid among them. Only a request without a group that changes neither id leaves the
  inherited groups.\<close>

theorem drop_installs_credentials:
  assumes "resolve_credentials db user grp = Inr (Some c)"
    and "credential_laws sys uid gid groups"
    and "uid w = getuid db" "gid w = getgid db"
    and "apply_drop sys (plan_from_current db c) w = (Inr (), w')"
  shows "gid w' = cr_gid c
    \<and> uid w' = (case cr_uid c of Some u \<Rightarrow> u | None \<Rightarrow> getuid db)
    \<and> groups w' = (if grp = None \<and> gid w' = gid w \<and> uid w' = uid w then groups w else cr_groups c)
    \<and> cr_gid c \<in> set (cr_groups c)"
  using apply_drop_effect [OF assms(2,5)] resolve_credentials_Some [OF assms(1)] assms(3,4)
  by (auto simp: plan_from_current_def Let_def split: option.splits if_splits)

theorem drop_installs_credentials_witness:
  "apply_drop permissive_kernel (plan_from_current sample_db
      \<lparr>cr_uid = Some 500, cr_gid = 50, cr_groups = [501, 7, 50], cr_group_requested = True\<rparr>) (0, 0, [0])
     = (Inr (), (500, 50, [501, 7, 50]))
   \<and> fst (500 :: u32, 50 :: u32, [501, 7, 50 :: u32]) = 500"
proof -
  have run: "apply_drop permissive_kernel (plan_from_current sample_db
      \<lparr>cr_uid = Some 500, cr_gid = 50, cr_groups = [501, 7, 50], cr_group_requested = True\<rparr>) (0, 0, [0])
     = (Inr (), (500, 50, [501, 7, 50]))"
    by (simp add: apply_drop_def plan_from_current_def checked_def sample_db_def Let_def)
  have "credential_laws permissive_kernel fst (\<lambda>w. fst (snd w)) (\<lambda>w. snd (snd w))"
    by (simp add: credential_laws_def)
  from drop_installs_credentials [OF sample_credentials this _ _ run] run show ?thesis
    by (simp add: sample_db_def)
qed

text \<open>The child makes the setters strictly in the order groups, gid, uid, and stops at the
  first that fails: the calls it made are a prefix of that list, all of it when the drop
  succeeds, and no later setter runs after an error, so it never changes its uid with the groups
  or the gid not yet set.\<close>

theorem drop_order_fail_closed:
  "\<exists>k\<le>length (plan_calls plan). snd (snd (apply_drop (logged sys) plan (w, []))) = take k (plan_calls plan)
     \<and> (case fst (apply_drop (logged sys) plan (w, [])) of
          Inr _ \<Rightarrow> k = length (plan_calls plan)
        | Inl e \<Rightarrow> 0 < k \<and> (\<exists>w1 w2. checked sys (plan_calls plan ! (k - 1)) w1 = (Inl e, w2)))"
  using run_calls_log_error [where sys = sys and cs = "plan_calls plan" and w = w and l = "[]"] by (simp add: apply_drop_calls)

text \<open>C38: Nothing is dropped silently: a plan is skipped exactly when neither user nor group was
  requested, and a name the database does not know, or one it cannot look up, fails the
  request.\<close>

theorem resolve_fails_closed:
  "(resolve db user grp = Inr None \<longleftrightarrow> user = None \<and> grp = None)
   \<and> (getpwnam db u = Inr None \<longrightarrow> resolve db (Some (UserName u)) grp =
        Inl (if CHR 0x00 \<in> set u
             then Custom InvalidInput ''user/group name contains an interior NUL byte''
             else Custom NotFound (''unknown user: '' @ u)))
   \<and> (getgrnam db g = Inr None \<longrightarrow> (\<exists>e. resolve db user (Some (GroupName g)) = Inl e))"
proof (intro conjI impI)
  show "resolve db user grp = Inr None \<longleftrightarrow> user = None \<and> grp = None"
    using resolve_credentials_None [of db user grp]
    by (auto simp: resolve_def split: sum.splits option.splits)
  show "resolve db (Some (UserName u)) grp =
        Inl (if CHR 0x00 \<in> set u
             then Custom InvalidInput ''user/group name contains an interior NUL byte''
             else Custom NotFound (''unknown user: '' @ u))" if "getpwnam db u = Inr None"
    using that by (simp add: resolve_def cstring_def)
next
  assume "getgrnam db g = Inr None"
  then have "\<exists>e. resolve_gid db (GroupName g) = Inl e" by (simp add: cstring_def)
  then show "\<exists>e. resolve db user (Some (GroupName g)) = Inl e"
    by (cases user) (auto simp: resolve_def simp del: resolve_gid.simps split: sum.splits)
qed

theorem resolve_fails_closed_witness:
  "resolve sample_db (Some (UserName ''nobody'')) None = Inl (Custom NotFound ''unknown user: nobody'')"
proof -
  have "getpwnam sample_db ''nobody'' = Inr None"
    unfolding getpwnam_def with_pwd_def
    by (rule grow_buffer_finds [of _ 40000]) (simp_all add: sample_db_def)
  with resolve_fails_closed [where db = sample_db and u = "''nobody''" and grp = None] show ?thesis by simp
qed

text \<open>C39: Large entries: an account whose passwd entry needs a buffer of up to a mebibyte is found
  by name, the buffer doubling until it fits; the lookup by number makes a single attempt with the
  initial buffer and fails with \<open>ERANGE\<close> on the same account.\<close>

theorem large_passwd_entry:
  assumes "\<And>size. getpwnam_r db name size = (if size < need then (ERANGE, None) else (0, Some (uid, gid)))"
    and "\<And>size. getpwuid_r db uid size = (if size < need then (ERANGE, None) else (0, Some (name, gid)))"
    and "pwd_buf_size db < need" "need \<le> 2 ^ 20"
  shows "getpwnam db name = Inr (Some (uid, gid))
    \<and> resolve_user db (UserId uid) = Inl (Os ERANGE)"
proof
  show "getpwnam db name = Inr (Some (uid, gid))"
    unfolding getpwnam_def with_pwd_def by (rule grow_buffer_finds [OF assms(1,4)])
  show "resolve_user db (UserId uid) = Inl (Os ERANGE)"
    using assms(2,3) by (simp add: getpwuid_def ERANGE_def)
qed

theorem large_passwd_entry_witness:
  "resolve_user (sample_db\<lparr>getpwnam_r := (\<lambda>name size. if size < 40000 then (ERANGE, None) else (0, Some (500, 501))),
       getpwuid_r := (\<lambda>uid size. if size < 40000 then (ERANGE, None) else (0, Some (''svc'', 501)))\<rparr>)
     (UserId 500) = Inl (Os ERANGE)"
  by (rule large_passwd_entry [where name = "''svc''" and need = 40000 and gid = 501, THEN conjunct2])
     (simp_all add: pwd_buf_size_def sysconf_size_def sample_db_def)

text \<open>The supplementary groups are complete: against the contract of \<open>getgrouplist\<close> (a
  negative result and the true count for an array too short, the groups otherwise) the loop
  returns the whole list, however long, up to a mebi-entry.\<close>

theorem getgrouplist_complete:
  assumes "name \<noteq> []" "length gs \<le> 2 ^ 20"
    and "\<And>n. os_getgrouplist db name gid n = (if n < length gs then (- 1, int (length gs), partial n)
      else (int (length gs), int (length gs), gs @ pad n))"
  shows "getgrouplist db name gid = Inr gs"
  using getgrouplist_loop_finds [OF assms(3,2), of 31] assms(1) by (simp add: getgrouplist_def)

theorem getgrouplist_complete_witness: "getgrouplist sample_db ''svc'' 501 = Inr [501, 7]"
  by (rule getgrouplist_complete [where partial = "\<lambda>_. []" and pad = "\<lambda>n. replicate (n - 2) 0"])
     (simp_all add: sample_db_def)

end
