(* ===== verification/Protocol.thy ===== *)
theory Protocol
  imports Privdrop SpawnError
begin

text \<open>
  The payloads of \<open>native/forcola_shim/src/protocol.rs\<close> after deserialisation: the request of a
  SPAWN frame, the selection of a HELLO frame, and the reports of EXIT and ERROR frames. JSON
  itself is read and written by a library.
\<close>

record hello_request =
  features :: "string list"

record capabilities =
  cap_protocol :: u32
  cap_features :: "string list"

datatype env_mode = Inherit | Replace
datatype interrupt_signal = Int
datatype required_cgroup = Required_value
datatype cgroup_mode = BestEffort bool | Required required_cgroup

record spawn_request =
  argv :: "string list"
  cd :: "string option"
  env :: "(string, string option) hash_map"
  merge_stderr :: bool
  rq_env_mode :: env_mode
  rq_interrupt_signal :: "interrupt_signal option"
  interrupt_grace_ms :: "u64 option"
  timeout_ms :: "u64 option"
  kill_grace_ms :: u64
  pty :: bool
  pty_rows :: "u16 option"
  pty_cols :: "u16 option"
  rq_user :: "user_spec option"
  rq_group :: "group_spec option"
  rq_cgroup :: cgroup_mode
  window_bytes :: "u64 option"
  stderr_window_bytes :: "u64 option"
  strict_output :: bool

definition default_kill_grace_ms :: u64 where
  "default_kill_grace_ms = 5000"

text \<open>A request that names only the command, every other field at its serde default.\<close>

definition default_request :: "string list \<Rightarrow> spawn_request" where
  "default_request args = \<lparr>argv = args, cd = None, env = [], merge_stderr = False,
     rq_env_mode = Inherit, rq_interrupt_signal = None, interrupt_grace_ms = None, timeout_ms = None,
     kill_grace_ms = default_kill_grace_ms, pty = False, pty_rows = None, pty_cols = None,
     rq_user = None, rq_group = None, rq_cgroup = BestEffort False, window_bytes = None,
     stderr_window_bytes = None, strict_output = False\<rparr>"

record exit_report =
  xr_status :: "int option"
  xr_signal :: "int option"
  xr_timed_out :: bool
  xr_confirmed :: bool
  xr_contained :: bool
  xr_output_truncated :: bool
  xr_scope :: "string option"
  xr_tracked_groups_truncated :: "bool option"

record error_report =
  er_reason :: string
  er_spawn_error :: "spawn_error_report option"

end
