(* ===== verification/Supervise.thy ===== *)
theory Supervise
  imports Waits Protocol Credit
begin

text \<open>
  The supervising event loop of \<open>native/forcola_shim/src/supervisor.rs\<close> for a child without
  descendant tracking: \<open>supervise\<close> and the drains of output around its end. The channel of events
  is the script of what each receive on it finds; the threads at its other ends, the credit shared
  with the pumps and the protocol writer are operations of a parameter.
\<close>

section \<open>Events\<close>

record child_outcome =
  oc_status :: "int option"
  oc_signal :: "int option"

datatype event =
    StdinFrame frame
  | StdinClosed
  | StdinError io_error
  | ChildExited child_outcome
  | ChildWaitFailed
  | TimedOutEvent
  | TrackingWriteFailed

text \<open>What a receive finds: an event, or nothing before it gives up; the end of the script is the
  end of every sender. A receive without a timeout waits past \<open>Nothing\<close>.\<close>

datatype received = Got event | Nothing

type_synonym events_rx = "received list"

datatype pump_recv = PumpDone | PumpTimeout | PumpDisconnected

datatype pipe_id = StdoutPipe | StderrPipe

section \<open>The system and the session\<close>

record 'w sup_os =
  su_proc :: "'w proc_os"
  su_close_input :: "'w \<Rightarrow> 'w"
  su_credit :: "pipe_id \<Rightarrow> credit_op \<Rightarrow> 'w \<Rightarrow> 'w"
  su_pump_done :: "nat \<Rightarrow> 'w \<Rightarrow> pump_recv \<times> 'w"
  su_peer :: "'w \<Rightarrow> bool \<times> 'w"
  su_write_exit :: "exit_report \<Rightarrow> 'w \<Rightarrow> 'w"

record session =
  se_group :: u32
  se_kill_grace :: nat
  se_pumps :: nat
  se_cgroup :: "cgroup option"
  se_credit :: bool
  se_stderr_credit :: bool
  se_strict_output :: bool
  se_interrupt_grace :: "nat option"
  se_peer :: bool

definition OUTPUT_DRAIN_GRACE :: nat where "OUTPUT_DRAIN_GRACE = 1000"

fun has_credit :: "session \<Rightarrow> pipe_id \<Rightarrow> bool" where
  "has_credit se StdoutPipe = se_credit se"
| "has_credit se StderrPipe = se_stderr_credit se"

text \<open>\<open>if let Some(c) = credit\<close>\<close>

definition on_credit :: "'w sup_os \<Rightarrow> session \<Rightarrow> pipe_id \<Rightarrow> credit_op \<Rightarrow> 'w \<Rightarrow> 'w" where
  "on_credit os se p op w = (if has_credit se p then su_credit os p op w else w)"

definition on_credits :: "'w sup_os \<Rightarrow> session \<Rightarrow> credit_op \<Rightarrow> 'w \<Rightarrow> 'w" where
  "on_credits os se op w = on_credit os se StderrPipe op (on_credit os se StdoutPipe op w)"

definition grant_credit :: "'w sup_os \<Rightarrow> session \<Rightarrow> pipe_id \<Rightarrow> bytes \<Rightarrow> 'w \<Rightarrow> 'w" where
  "grant_credit os se p bs w = (case parse_grant bs of Some n \<Rightarrow> on_credit os se p (OpGrant n) w | None \<Rightarrow> w)"

definition peer_disconnected :: "'w sup_os \<Rightarrow> session \<Rightarrow> 'w \<Rightarrow> bool \<times> 'w" where
  "peer_disconnected os se w = (if se_peer se then su_peer os w else (False, w))"

section \<open>Draining output\<close>

fun drain_loop :: "'w sup_os \<Rightarrow> nat \<Rightarrow> nat \<Rightarrow> 'w \<Rightarrow> bool \<times> 'w" where
  "drain_loop os deadline 0 w = (True, w)"
| "drain_loop os deadline (Suc n) w =
     (case po_now (su_proc os) w of
        (t, w) \<Rightarrow>
          if deadline \<le> t then (False, w)
          else case su_pump_done os (deadline - t) w of
            (PumpDone, w) \<Rightarrow> drain_loop os deadline n w
          | (_, w) \<Rightarrow> (False, w))"

definition drain_pumps :: "'w sup_os \<Rightarrow> nat \<Rightarrow> 'w \<Rightarrow> bool \<times> 'w" where
  "drain_pumps os pumps w =
     (let (t, w) = po_now (su_proc os) w in drain_loop os (t + OUTPUT_DRAIN_GRACE) pumps w)"

text \<open>The events that have arrived, during a strict drain.\<close>

datatype strict_step = DrainOn | DrainKilled | DrainVanished

fun strict_events :: "'w sup_os \<Rightarrow> session \<Rightarrow> events_rx \<Rightarrow> 'w \<Rightarrow> strict_step \<times> events_rx \<times> 'w" where
  "strict_events os se [] w = (DrainOn, [], w)"
| "strict_events os se (Nothing # rx) w = (DrainOn, rx, w)"
| "strict_events os se (Got ev # rx) w =
     (case ev of
        StdinFrame f \<Rightarrow>
          if tag f = TAG_CREDIT then strict_events os se rx (grant_credit os se StdoutPipe (payload f) w)
          else if tag f = TAG_STDERR_CREDIT then strict_events os se rx (grant_credit os se StderrPipe (payload f) w)
          else if tag f = TAG_KILL then (DrainKilled, rx, on_credits os se OpCancel w)
          else strict_events os se rx w
      | StdinClosed \<Rightarrow> (DrainVanished, rx, on_credits os se OpCancel w)
      | StdinError e \<Rightarrow> (DrainVanished, rx, on_credits os se OpCancel w)
      | TrackingWriteFailed \<Rightarrow> (DrainVanished, rx, on_credits os se OpCancel w)
      | _ \<Rightarrow> strict_events os se rx w)"

text \<open>The result: drained, cancelled, and whether the peer disappeared.\<close>

partial_function (option) drain_pumps_strict ::
  "'w sup_os \<Rightarrow> session \<Rightarrow> nat \<Rightarrow> events_rx \<Rightarrow> 'w \<Rightarrow> ((bool \<times> bool \<times> bool) \<times> events_rx \<times> 'w) option" where
  "drain_pumps_strict os se remaining rx w =
     (if remaining = 0 then Some ((True, False, False), rx, w)
      else case peer_disconnected os se w of
        (gone, w) \<Rightarrow>
          if gone then Some ((False, True, True), rx, on_credits os se OpCancel w)
          else case strict_events os se rx w of
            (st, rx, w) \<Rightarrow>
              if st = DrainKilled then
                (case drain_pumps os remaining w of (drained, w) \<Rightarrow> Some ((drained, True, False), rx, w))
              else if st = DrainVanished then Some ((False, True, True), rx, w)
              else case su_pump_done os 10 w of
                (r, w) \<Rightarrow>
                  if r = PumpDone then drain_pumps_strict os se (remaining - 1) rx w
                  else if r = PumpTimeout then drain_pumps_strict os se remaining rx w
                  else Some ((False, True, False), rx, w))"

declare drain_pumps_strict.simps [code]

fun drain_inbound_until_closed :: "'w sup_os \<Rightarrow> session \<Rightarrow> events_rx \<Rightarrow> 'w \<Rightarrow> events_rx \<times> 'w" where
  "drain_inbound_until_closed os se [] w = (let (gone, w) = peer_disconnected os se w in ([], w))"
| "drain_inbound_until_closed os se (r # rx) w =
     (let (gone, w) = peer_disconnected os se w in
      if gone then (r # rx, w)
      else case r of
        Got StdinClosed \<Rightarrow> (rx, w)
      | Got (StdinError e) \<Rightarrow> (rx, w)
      | _ \<Rightarrow> drain_inbound_until_closed os se rx w)"

section \<open>The event loop\<close>

record sup_state =
  ss_timed_out :: bool
  ss_beam_gone :: bool
  ss_group_confirmed :: bool
  ss_group_cleanup_started :: bool
  ss_discard_output :: bool

definition sup_start :: sup_state where
  "sup_start = \<lparr>ss_timed_out = False, ss_beam_gone = False, ss_group_confirmed = True,
     ss_group_cleanup_started = False, ss_discard_output = False\<rparr>"

text \<open>\<open>if !group_cleanup_started { ... }\<close>\<close>

definition cleanup_group :: "'w sup_os \<Rightarrow> session \<Rightarrow> sup_state \<Rightarrow> 'w \<Rightarrow> (sup_state \<times> 'w) option" where
  "cleanup_group os se st w =
     (if ss_group_cleanup_started st then Some (st, w)
      else kill_group (su_proc os) (se_group se) (se_kill_grace se) (se_cgroup se) (se_interrupt_grace se) w \<bind>
        (\<lambda>(confirmed, w). Some (st\<lparr>ss_group_cleanup_started := True, ss_group_confirmed := confirmed\<rparr>, w)))"

fun supervise_loop ::
  "'w sup_os \<Rightarrow> session \<Rightarrow> events_rx \<Rightarrow> sup_state \<Rightarrow> 'w \<Rightarrow>
   (child_outcome option \<times> events_rx \<times> sup_state \<times> 'w) option" where
  "supervise_loop os se [] st w = Some (None, [], st, w)"
| "supervise_loop os se (Nothing # rx) st w = supervise_loop os se rx st w"
| "supervise_loop os se (Got ev # rx) st w =
     (case ev of
        StdinFrame f \<Rightarrow>
          if tag f = TAG_KILL then
            cleanup_group os se (st\<lparr>ss_discard_output := True\<rparr>) (su_close_input os w) \<bind>
              (\<lambda>(st, w). supervise_loop os se rx st w)
          else if tag f = TAG_CREDIT then
            supervise_loop os se rx st (grant_credit os se StdoutPipe (payload f) w)
          else if tag f = TAG_STDERR_CREDIT then
            supervise_loop os se rx st (grant_credit os se StderrPipe (payload f) w)
          else supervise_loop os se rx st w
      | TrackingWriteFailed \<Rightarrow> supervise_loop os se rx st w
      | ChildWaitFailed \<Rightarrow> supervise_loop os se rx st w
      | StdinClosed \<Rightarrow>
          cleanup_group os se (st\<lparr>ss_discard_output := True, ss_beam_gone := True\<rparr>) (su_close_input os w) \<bind>
            (\<lambda>(st, w). supervise_loop os se rx st w)
      | StdinError e \<Rightarrow>
          cleanup_group os se (st\<lparr>ss_discard_output := True, ss_beam_gone := True\<rparr>) (su_close_input os w) \<bind>
            (\<lambda>(st, w). supervise_loop os se rx st w)
      | TimedOutEvent \<Rightarrow>
          cleanup_group os se (st\<lparr>ss_discard_output := True, ss_timed_out := True\<rparr>) (su_close_input os w) \<bind>
            (\<lambda>(st, w). supervise_loop os se rx st w)
      | ChildExited outcome \<Rightarrow>
          cleanup_group os se st (su_close_input os w) \<bind> (\<lambda>(st, w). Some (Some outcome, rx, st, w)))"

section \<open>The end of a session\<close>

definition no_outcome :: child_outcome where
  "no_outcome = \<lparr>oc_status = None, oc_signal = None\<rparr>"

text \<open>The drain before EXIT: whether output was truncated, and whether the peer disappeared.\<close>

definition drain_output ::
  "'w sup_os \<Rightarrow> session \<Rightarrow> bool \<Rightarrow> events_rx \<Rightarrow> 'w \<Rightarrow> ((bool \<times> bool) \<times> events_rx \<times> 'w) option" where
  "drain_output os se discard rx w =
     (if se_strict_output se then
        (if discard then
           (let (drained, w) = drain_pumps os (se_pumps se) (on_credits os se OpCancel w) in
            Some ((True, False), rx, w))
         else drain_pumps_strict os se (se_pumps se) rx w \<bind>
           (\<lambda>((drained, cancelled, disappeared), rx, w). Some ((\<not> drained \<or> cancelled, disappeared), rx, w)))
      else (let (drained, w) = drain_pumps os (se_pumps se) w in Some ((\<not> drained, False), rx, w)))"

definition teardown_cgroup :: "'w proc_os \<Rightarrow> cgroup option \<Rightarrow> nat \<Rightarrow> 'w \<Rightarrow> (bool \<times> 'w) option" where
  "teardown_cgroup os cg grace w =
     (case cg of None \<Rightarrow> Some (True, w) | Some cg \<Rightarrow> finish_cgroup os cg grace w)"

definition finish_session ::
  "'w sup_os \<Rightarrow> session \<Rightarrow> child_outcome option \<Rightarrow> events_rx \<Rightarrow> sup_state \<Rightarrow> 'w \<Rightarrow> (bool \<times> events_rx \<times> 'w) option" where
  "finish_session os se outcome rx st w =
     (let outcome = (case outcome of Some oc \<Rightarrow> oc | None \<Rightarrow> no_outcome);
          w = (if \<not> se_strict_output se then on_credits os se OpUncork w else w) in
      teardown_cgroup (su_proc os) (se_cgroup se) (se_kill_grace se) w \<bind> (\<lambda>(cgroup_confirmed, w).
      if ss_beam_gone st then Some (True, rx, on_credits os se OpCancel w)
      else drain_output os se (ss_discard_output st) rx w \<bind> (\<lambda>((output_truncated, disappeared), rx, w).
      if disappeared then Some (True, rx, w)
      else Some (False, rx, su_write_exit os
        \<lparr>xr_status = oc_status outcome, xr_signal = oc_signal outcome, xr_timed_out = ss_timed_out st,
         xr_confirmed = (ss_group_confirmed st \<and> cgroup_confirmed), xr_contained = (se_cgroup se \<noteq> None),
         xr_output_truncated = output_truncated, xr_scope = None, xr_tracked_groups_truncated = None\<rparr> w))))"

definition supervise :: "'w sup_os \<Rightarrow> session \<Rightarrow> events_rx \<Rightarrow> 'w \<Rightarrow> (bool \<times> events_rx \<times> 'w) option" where
  "supervise os se rx w =
     supervise_loop os se rx sup_start w \<bind> (\<lambda>(outcome, rx, st, w). finish_session os se outcome rx st w)"

section \<open>Invariants of a session\<close>

text \<open>
  What a property of worlds must survive to hold through the drains and the teardown of the
  cgroup, and, with the kill sequence, through the event loop.
\<close>

locale sup_quiet = quiet_ops "su_proc os" P for os :: "'w sup_os" and P :: "'w \<Rightarrow> bool" +
  assumes credit_inv: "P w \<Longrightarrow> P (su_credit os p op w)"
    and pump_inv: "P w \<Longrightarrow> P (snd (su_pump_done os d w))"
    and peer_inv: "P w \<Longrightarrow> P (snd (su_peer os w))"
begin

lemma on_credit_inv: "P w \<Longrightarrow> P (on_credit os se p op w)"
  by (simp add: on_credit_def credit_inv)

lemma on_credits_inv: "P w \<Longrightarrow> P (on_credits os se op w)"
  by (simp add: on_credits_def on_credit_inv)

lemma grant_credit_inv: "P w \<Longrightarrow> P (grant_credit os se p bs w)"
  by (simp add: grant_credit_def on_credit_inv split: option.splits)

lemma peer_disconnected_inv: "P w \<Longrightarrow> P (snd (peer_disconnected os se w))"
  by (simp add: peer_disconnected_def peer_inv)

lemma drain_loop_inv: "P w \<Longrightarrow> P (snd (drain_loop os deadline n w))"
proof (induction n arbitrary: w)
  case (Suc n)
  obtain t w1 where t: "po_now (su_proc os) w = (t, w1)" by force
  with now_inv [OF Suc.prems] have P1: "P w1" by simp
  obtain r w2 where r: "su_pump_done os (deadline - t) w1 = (r, w2)" by force
  with pump_inv [OF P1, of "deadline - t"] have "P w2" by simp
  with Suc.IH [OF this] t r P1 show ?case by (cases r) simp_all
qed simp

lemma drain_pumps_inv: "P w \<Longrightarrow> P (snd (drain_pumps os n w))"
  using now_inv [of w] by (simp add: drain_pumps_def drain_loop_inv Let_def case_prod_beta)

lemma strict_events_inv: "P w \<Longrightarrow> P (snd (snd (strict_events os se rx w)))"
proof (induction rx arbitrary: w)
  case (Cons r rx)
  show ?case
  proof (cases r)
    case (Got ev)
    with Cons show ?thesis by (cases ev) (simp_all add: grant_credit_inv on_credits_inv)
  qed (simp add: Cons.prems)
qed simp

lemma drain_strict_inv':
  "drain_pumps_strict os' se' n rx w = Some y \<Longrightarrow> os' = os \<Longrightarrow> P w \<Longrightarrow> P (snd (snd y))"
proof (induction rule: drain_pumps_strict.raw_induct [rotated 1, consumes 1, case_names step])
  case (step again os' se n rx w y)
  obtain gone w1 where p: "peer_disconnected os se w = (gone, w1)" by force
  have P1: "P w1" using peer_disconnected_inv [OF step(4), of se] p by simp
  obtain st rx2 w2 where e: "strict_events os se rx w1 = (st, rx2, w2)" by (metis prod.collapse)
  have P2: "P w2" using strict_events_inv [OF P1, of se rx] e by simp
  obtain d w3 where d: "drain_pumps os n w2 = (d, w3)" by force
  have P3: "P w3" using drain_pumps_inv [OF P2, of n] d by simp
  obtain r w4 where r: "su_pump_done os 10 w2 = (r, w4)" by force
  have P4: "P w4" using pump_inv [OF P2, of 10] r by simp
  note defs = step(2) [unfolded step(3)] p e d r
  show ?case
  proof (cases "n = 0 \<or> gone \<or> st \<noteq> DrainOn \<or> r = PumpDisconnected")
    case True
    with defs have "y = ((True, False, False), rx, w) \<or> y = ((False, True, True), rx, on_credits os se OpCancel w1)
        \<or> y = ((d, True, False), rx2, w3) \<or> y = ((False, True, True), rx2, w2) \<or> y = ((False, True, False), rx2, w4)"
      by (cases st) (auto split: if_splits)
    with step(4) P1 P2 P3 P4 show ?thesis by (auto simp: on_credits_inv)
  next
    case False
    then have "r = PumpDone \<or> r = PumpTimeout" by (cases r) auto
    with False defs have "again os se (n - 1) rx2 w4 = Some y \<or> again os se n rx2 w4 = Some y"
      by (auto split: if_splits)
    with step(1) [OF _ refl P4] show ?thesis by blast
  qed
qed

lemma drain_strict_inv: "drain_pumps_strict os se n rx w = Some (res, rx', w') \<Longrightarrow> P w \<Longrightarrow> P w'"
  using drain_strict_inv' by fastforce

lemma drain_output_inv:
  assumes "drain_output os se discard rx w = Some (res, rx', w')" "P w"
  shows "P w'"
proof (cases "se_strict_output se \<and> \<not> discard")
  case True
  with assms show ?thesis by (auto simp: drain_output_def split: bind_splits dest: drain_strict_inv)
next
  case False
  then have "P (snd (drain_pumps os (se_pumps se) (if discard \<and> se_strict_output se then on_credits os se OpCancel w else w)))"
    using assms(2) by (simp add: drain_pumps_inv on_credits_inv)
  with assms(1) False show ?thesis by (auto simp: drain_output_def Let_def split: if_splits prod.splits)
qed

lemma teardown_inv: "teardown_cgroup (su_proc os) cg grace w = Some (b, w') \<Longrightarrow> P w \<Longrightarrow> P w'"
  by (auto simp: teardown_cgroup_def split: option.splits dest: finish_cgroup_inv)

end

locale sup_ops = sup_quiet os P + proc_ops "su_proc os" P for os :: "'w sup_os" and P :: "'w \<Rightarrow> bool" +
  assumes close_input_inv: "P w \<Longrightarrow> P (su_close_input os w)"
begin

lemma cleanup_group_inv: "cleanup_group os se st w = Some (st', w') \<Longrightarrow> P w \<Longrightarrow> P w'"
  by (auto simp: cleanup_group_def split: if_splits bind_splits dest: kill_group_inv)

end

section \<open>What the loop has seen\<close>

text \<open>The specification of the loop: the events up to the exit of the child, that exit, and what is
  left of the channel.\<close>

fun until_exit :: "events_rx \<Rightarrow> event list \<times> child_outcome option \<times> events_rx" where
  "until_exit [] = ([], None, [])"
| "until_exit (Nothing # rx) = until_exit rx"
| "until_exit (Got ev # rx) =
     (case ev of
        ChildExited oc \<Rightarrow> ([], Some oc, rx)
      | _ \<Rightarrow> (case until_exit rx of (evs, oc, r) \<Rightarrow> (ev # evs, oc, r)))"

fun stops :: "event \<Rightarrow> bool" where
  "stops (StdinFrame f) \<longleftrightarrow> tag f = TAG_KILL"
| "stops StdinClosed \<longleftrightarrow> True"
| "stops (StdinError e) \<longleftrightarrow> True"
| "stops TimedOutEvent \<longleftrightarrow> True"
| "stops ev \<longleftrightarrow> False"

fun beam_lost :: "event \<Rightarrow> bool" where
  "beam_lost StdinClosed \<longleftrightarrow> True"
| "beam_lost (StdinError e) \<longleftrightarrow> True"
| "beam_lost ev \<longleftrightarrow> False"

definition flags_after :: "event list \<Rightarrow> sup_state \<Rightarrow> sup_state \<Rightarrow> bool" where
  "flags_after evs st st' \<longleftrightarrow>
     ss_timed_out st' = (ss_timed_out st \<or> TimedOutEvent \<in> set evs)
     \<and> ss_beam_gone st' = (ss_beam_gone st \<or> list_ex beam_lost evs)
     \<and> ss_discard_output st' = (ss_discard_output st \<or> list_ex stops evs)"

lemma flags_after_Nil: "flags_after [] st st"
  by (simp add: flags_after_def)

lemma cleanup_flags:
  "cleanup_group os se st w = Some (st', w') \<Longrightarrow>
   ss_timed_out st' = ss_timed_out st \<and> ss_beam_gone st' = ss_beam_gone st \<and> ss_discard_output st' = ss_discard_output st
   \<and> ss_group_cleanup_started st'"
  by (auto simp: cleanup_group_def split: if_splits bind_splits)

text \<open>One event of the loop that is not the exit of the child.\<close>

definition sup_event :: "'w sup_os \<Rightarrow> session \<Rightarrow> event \<Rightarrow> sup_state \<Rightarrow> 'w \<Rightarrow> (sup_state \<times> 'w) option" where
  "sup_event os se ev st w =
     (if stops ev then
        cleanup_group os se (st\<lparr>ss_discard_output := True, ss_beam_gone := ss_beam_gone st \<or> beam_lost ev,
          ss_timed_out := ss_timed_out st \<or> ev = TimedOutEvent\<rparr>) (su_close_input os w)
      else case ev of
        StdinFrame f \<Rightarrow>
          Some (st, if tag f = TAG_CREDIT then grant_credit os se StdoutPipe (payload f) w
                    else if tag f = TAG_STDERR_CREDIT then grant_credit os se StderrPipe (payload f) w else w)
      | _ \<Rightarrow> Some (st, w))"

lemma supervise_loop_event:
  "\<forall>oc. ev \<noteq> ChildExited oc \<Longrightarrow>
   supervise_loop os se (Got ev # rx) st w = sup_event os se ev st w \<bind> (\<lambda>(st, w). supervise_loop os se rx st w)"
proof -
  have "st\<lparr>ss_discard_output := True\<rparr> = st\<lparr>ss_discard_output := True, ss_beam_gone := ss_beam_gone st, ss_timed_out := ss_timed_out st\<rparr>"
    "st\<lparr>ss_discard_output := True, ss_beam_gone := True\<rparr> = st\<lparr>ss_discard_output := True, ss_beam_gone := True, ss_timed_out := ss_timed_out st\<rparr>"
    "st\<lparr>ss_discard_output := True, ss_timed_out := True\<rparr> = st\<lparr>ss_discard_output := True, ss_beam_gone := ss_beam_gone st, ss_timed_out := True\<rparr>"
    by (cases st; simp)+
  then show "\<forall>oc. ev \<noteq> ChildExited oc \<Longrightarrow> ?thesis" by (cases ev) (simp_all add: sup_event_def)
qed

text \<open>An invariant of the loop: it holds after the last event when every event keeps it, and the
  cleanup at the exit of the child does.\<close>

lemma supervise_loop_rule:
  assumes "supervise_loop os se rx st w = Some (oc, rx', st', w')" "until_exit rx = (evs, oc', r)" "I [] st w"
    and "\<And>evs ev st w st' w'. I evs st w \<Longrightarrow> \<forall>oc. ev \<noteq> ChildExited oc \<Longrightarrow> sup_event os se ev st w = Some (st', w') \<Longrightarrow>
      I (evs @ [ev]) st' w'"
  shows "oc = oc' \<and> rx' = r \<and> (\<exists>st1 w1. I evs st1 w1
      \<and> (if oc = None then (st', w') = (st1, w1) else cleanup_group os se st1 (su_close_input os w1) = Some (st', w')))"
proof -
  have "oc = oc' \<and> rx' = r \<and> (\<exists>st1 w1. I (done @ evs) st1 w1
      \<and> (if oc = None then (st', w') = (st1, w1) else cleanup_group os se st1 (su_close_input os w1) = Some (st', w')))"
    if "I done st w" for "done"
    using assms(1,2) that
  proof (induction rx arbitrary: "done" st w evs)
    case (Cons x rx)
    show ?case
    proof (cases x)
      case Nothing
      with Cons show ?thesis by simp
    next
      case (Got ev)
      show ?thesis
      proof (cases "\<exists>oc. ev = ChildExited oc")
        case True
        with Cons.prems Got show ?thesis by (auto split: bind_splits)
      next
        case False
        then have ne: "\<forall>oc. ev \<noteq> ChildExited oc" by blast
        from Cons.prems(1) Got supervise_loop_event [OF ne, of os se rx st w] obtain st1 w1 where
          e: "sup_event os se ev st w = Some (st1, w1)" and run: "supervise_loop os se rx st1 w1 = Some (oc, rx', st', w')"
          by (auto split: bind_splits)
        from Cons.prems(2) Got ne obtain evs1 where u: "until_exit rx = (evs1, oc', r)" "evs = ev # evs1"
          by (cases "until_exit rx"; cases ev) auto
        from Cons.IH [OF run u(1) assms(4) [OF Cons.prems(3) ne e]] show ?thesis
          unfolding u(2) append_assoc append_Cons append_Nil .
      qed
    qed
  qed auto
  from this [OF assms(3)] show ?thesis unfolding append_Nil .
qed

lemma sup_event_flags:
  assumes "sup_event os se ev st w = Some (st', w')" "flags_after evs st0 st"
  shows "flags_after (evs @ [ev]) st0 st'"
proof (cases "stops ev")
  case True
  with assms(1) have c: "cleanup_group os se (st\<lparr>ss_discard_output := True, ss_beam_gone := ss_beam_gone st \<or> beam_lost ev,
          ss_timed_out := ss_timed_out st \<or> ev = TimedOutEvent\<rparr>) (su_close_input os w) = Some (st', w')"
    by (simp add: sup_event_def)
  have "ev = TimedOutEvent \<longleftrightarrow> TimedOutEvent = ev" by auto
  with cleanup_flags [OF c] assms(2) True show ?thesis by (simp add: flags_after_def) blast
next
  case False
  then have "\<not> beam_lost ev" "ev \<noteq> TimedOutEvent" by (cases ev; simp)+
  with False assms show ?thesis by (auto simp: sup_event_def flags_after_def split: event.splits)
qed

text \<open>An invariant of worlds holds up to the report that ends the session, if there is one.\<close>

context sup_ops
begin

lemma sup_event_inv: "sup_event os se ev st w = Some (st', w') \<Longrightarrow> P w \<Longrightarrow> P w'"
  by (auto simp: sup_event_def grant_credit_inv close_input_inv dest: cleanup_group_inv split: event.splits if_splits)

lemma supervise_loop_inv:
  assumes "supervise_loop os se rx st w = Some (oc, rx', st', w')" "P w"
  shows "P w'"
proof -
  obtain evs oc' r where u: "until_exit rx = (evs, oc', r)" by (metis prod.collapse)
  from supervise_loop_rule [OF assms(1) u, of "\<lambda>_ _. P"] assms(2) sup_event_inv obtain st1 w1 where
    "P w1" "if oc = None then (st', w') = (st1, w1) else cleanup_group os se st1 (su_close_input os w1) = Some (st', w')"
    by blast
  then show ?thesis by (auto split: if_splits intro: close_input_inv dest: cleanup_group_inv)
qed

lemma finish_session_inv:
  assumes "finish_session os se outcome rx st w = Some (gone, rx', w')" "P w"
  shows "if gone then P w' else \<exists>rep w1. P w1 \<and> w' = su_write_exit os rep w1"
proof -
  define w0 where "w0 = (if \<not> se_strict_output se then on_credits os se OpUncork w else w)"
  have "P w0" using assms(2) by (simp add: w0_def on_credits_inv)
  with assms(1) show ?thesis
    unfolding finish_session_def Let_def w0_def [symmetric]
    by (auto split: bind_splits if_splits dest!: teardown_inv drain_output_inv intro: on_credits_inv) blast
qed

lemma supervise_inv:
  assumes "supervise os se rx w = Some (gone, rx', w')" "P w"
  shows "if gone then P w' else \<exists>rep w1. P w1 \<and> w' = su_write_exit os rep w1"
proof -
  from assms(1) obtain oc rx1 st w1 where
    "supervise_loop os se rx sup_start w = Some (oc, rx1, st, w1)" "finish_session os se oc rx1 st w1 = Some (gone, rx', w')"
    unfolding supervise_def by (auto split: bind_splits)
  then show ?thesis using supervise_loop_inv finish_session_inv assms(2) by blast
qed

end

section \<open>What a session records\<close>

text \<open>A system that records the signals and probes on the group, and the EXIT reports.\<close>

definition lift_proc :: "'w proc_os \<Rightarrow> ('w \<times> 'x) proc_os" where
  "lift_proc os =
     \<lparr>po_now = on_fst (po_now os), po_sleep = (\<lambda>d (w, x). (po_sleep os d w, x)),
      po_kill_group = (\<lambda>g sg. on_fst (po_kill_group os g sg)), po_test_group = (\<lambda>g. on_fst (po_test_group os g)),
      po_try_wait = (\<lambda>c. on_fst (po_try_wait os c)), po_fs = lift_fs (po_fs os)\<rparr>"

definition recording :: "'w sup_os \<Rightarrow> (('w \<times> exit_report list) \<times> proc_event list) sup_os" where
  "recording os =
     \<lparr>su_proc = logging_proc (lift_proc (su_proc os)),
      su_close_input = (\<lambda>((w, x), l). ((su_close_input os w, x), l)),
      su_credit = (\<lambda>p op ((w, x), l). ((su_credit os p op w, x), l)),
      su_pump_done = (\<lambda>d. on_fst (on_fst (su_pump_done os d))),
      su_peer = on_fst (on_fst (su_peer os)),
      su_write_exit = (\<lambda>rep ((w, x), l). ((su_write_exit os rep w, rep # x), l))\<rparr>"

lemmas recording_defs = recording_def logging_proc_def lift_proc_def lift_fs_def

interpretation exits_kept: sup_ops "recording os" "\<lambda>s. snd (fst s) = x" for os :: "'w sup_os" and x
  by unfold_locales (auto simp: recording_defs Let_def split: prod.splits)

interpretation signals_kept: sup_quiet "recording os" "\<lambda>s. sent_signals (snd s) = x \<and> probes (snd s) = y"
  for os :: "'w sup_os" and x y
  by unfold_locales (auto simp: recording_defs Let_def split: prod.splits)

lemma close_input_recording: "snd (su_close_input (recording os) s) = snd s"
  by (simp add: recording_def case_prod_beta)

text \<open>The log while the loop runs: nothing until the kill sequence, and all of it after.\<close>

definition logged_state :: "session \<Rightarrow> sup_state \<Rightarrow> proc_event list \<Rightarrow> bool" where
  "logged_state se st l \<longleftrightarrow>
     (if ss_group_cleanup_started st
      then escalated (se_group se) (kill_stages (se_interrupt_grace se)) (ss_group_confirmed st) l []
      else sent_signals l = [] \<and> ss_group_confirmed st)"

lemma cleanup_logged:
  assumes "cleanup_group (recording os) se st s = Some (st', s')" "logged_state se st (snd s)"
  shows "logged_state se st' (snd s') \<and> ss_group_cleanup_started st'"
proof (cases "ss_group_cleanup_started st")
  case True
  with assms show ?thesis by (simp add: cleanup_group_def)
next
  case False
  obtain w l where s: "s = (w, l)" by (metis prod.collapse)
  from assms(1) False obtain b where
    k: "kill_group (logging_proc (lift_proc (su_proc os))) (se_group se) (se_kill_grace se) (se_cgroup se)
         (se_interrupt_grace se) (w, l) = Some (b, s')"
    and st: "st' = st\<lparr>ss_group_cleanup_started := True, ss_group_confirmed := b\<rparr>"
    by (auto simp: cleanup_group_def recording_def s split: bind_splits)
  obtain w' l' where s': "s' = (w', l')" by (metis prod.collapse)
  from kill_group_log [OF k [unfolded s']] assms(2) False show ?thesis
    by (simp add: logged_state_def s s' st)
qed

lemma loop_recorded:
  assumes "supervise_loop (recording os) se rx sup_start ((w, []), []) = Some (oc, rx', st', s')"
    and "until_exit rx = (evs, oc', r)"
  shows "oc = oc' \<and> rx' = r \<and> flags_after evs sup_start st' \<and> logged_state se st' (snd s')
    \<and> (ss_group_cleanup_started st' \<longleftrightarrow> oc \<noteq> None \<or> list_ex stops evs) \<and> snd (fst s') = []"
proof -
  define I where "I = (\<lambda>evs st s. flags_after evs sup_start st \<and> logged_state se st (snd s)
    \<and> (ss_group_cleanup_started st \<longleftrightarrow> list_ex stops evs) \<and> snd (fst (s :: ('a \<times> exit_report list) \<times> proc_event list)) = [])"
  have "I [] sup_start ((w, []), [])"
    by (simp add: I_def flags_after_Nil logged_state_def) (simp add: sup_start_def)
  moreover have "I (evs @ [ev]) st' s'"
    if I: "I evs st s" and e: "\<forall>oc. ev \<noteq> ChildExited oc" "sup_event (recording os) se ev st s = Some (st', s')"
    for evs ev st s st' s'
  proof (cases "stops ev")
    case True
    let ?st = "st\<lparr>ss_discard_output := True, ss_beam_gone := ss_beam_gone st \<or> beam_lost ev,
          ss_timed_out := ss_timed_out st \<or> ev = TimedOutEvent\<rparr>"
    from True e(2) have c: "cleanup_group (recording os) se ?st (su_close_input (recording os) s) = Some (st', s')"
      by (simp add: sup_event_def)
    have "logged_state se ?st (snd (su_close_input (recording os) s))"
      using I by (simp add: I_def logged_state_def close_input_recording)
    from cleanup_logged [OF c this] have "logged_state se st' (snd s') \<and> ss_group_cleanup_started st'" .
    moreover have "snd (fst s') = []"
      using exits_kept.cleanup_group_inv [OF c exits_kept.close_input_inv] I by (simp add: I_def)
    ultimately show ?thesis using sup_event_flags [OF e(2)] I True by (simp add: I_def)
  next
    case False
    have g: "snd (grant_credit (recording os) se p bs s) = snd s \<and> snd (fst (grant_credit (recording os) se p bs s)) = snd (fst s)" for p bs
      by (auto simp: grant_credit_def on_credit_def recording_def case_prod_beta split: option.splits)
    from False e(2) have "st' = st \<and> snd s' = snd s \<and> snd (fst s') = snd (fst s)"
      by (auto simp: sup_event_def g split: event.splits)
    with sup_event_flags [OF e(2)] I False show ?thesis by (simp add: I_def)
  qed
  ultimately obtain st1 s1 where r: "oc = oc'" "rx' = r" "I evs st1 s1"
    "if oc = None then (st', s') = (st1, s1)
     else cleanup_group (recording os) se st1 (su_close_input (recording os) s1) = Some (st', s')"
    using supervise_loop_rule [OF assms, of I] by blast
  show ?thesis
  proof (cases oc)
    case None
    with r show ?thesis by (simp add: I_def)
  next
    case (Some x)
    with r(4) have c: "cleanup_group (recording os) se st1 (su_close_input (recording os) s1) = Some (st', s')" by simp
    have "snd (fst s') = []"
      using exits_kept.cleanup_group_inv [OF c exits_kept.close_input_inv] r(3) by (simp add: I_def)
    moreover have "logged_state se st' (snd s') \<and> ss_group_cleanup_started st'"
      using cleanup_logged [OF c] r(3) by (simp add: I_def close_input_recording)
    moreover have "flags_after evs sup_start st'"
      using cleanup_flags [OF c] r(3) by (simp add: I_def flags_after_def)
    moreover have "oc \<noteq> None" using Some by simp
    ultimately show ?thesis using r(1,2) by blast
  qed
qed

lemma exit_report_of_session:
  assumes "finish_session (recording os) se oc rx st s = Some (gone, rx', s')" "snd (fst s) = []"
  shows "sent_signals (snd s') = sent_signals (snd s) \<and> probes (snd s') = probes (snd s)
    \<and> (ss_beam_gone st \<longrightarrow> gone) \<and> (gone \<longrightarrow> snd (fst s') = [])
    \<and> (\<not> gone \<longrightarrow> (\<exists>rep. snd (fst s') = [rep]
        \<and> xr_status rep = (case oc of Some x \<Rightarrow> oc_status x | None \<Rightarrow> None)
        \<and> xr_signal rep = (case oc of Some x \<Rightarrow> oc_signal x | None \<Rightarrow> None)
        \<and> xr_timed_out rep = ss_timed_out st \<and> xr_contained rep = (se_cgroup se \<noteq> None) \<and> xr_scope rep = None
        \<and> (xr_confirmed rep \<longrightarrow> ss_group_confirmed st)
        \<and> (se_strict_output se \<and> ss_discard_output st \<longrightarrow> xr_output_truncated rep)))"
proof -
  let ?os = "recording os"
  let ?P = "\<lambda>s'. sent_signals (snd s') = sent_signals (snd s) \<and> probes (snd s') = probes (snd s) \<and> snd (fst s') = []"
  let ?s1 = "if \<not> se_strict_output se then on_credits ?os se OpUncork s else s"
  note quiet = signals_kept.on_credits_inv [where os = os] exits_kept.on_credits_inv [where os = os]
    signals_kept.teardown_inv [where os = os] exits_kept.teardown_inv [where os = os]
    signals_kept.drain_output_inv [where os = os] exits_kept.drain_output_inv [where os = os]
  have P1: "?P ?s1" using assms(2) quiet(1,2) by auto
  from assms(1) obtain cgc s2 where t: "teardown_cgroup (su_proc ?os) (se_cgroup se) (se_kill_grace se) ?s1 = Some (cgc, s2)"
    by (auto simp: finish_session_def Let_def split: bind_splits)
  have P2: "?P s2" using quiet(3) [OF t] quiet(4) [OF t] P1 by auto
  show ?thesis
  proof (cases "ss_beam_gone st")
    case True
    with assms(1) t have "gone" "s' = on_credits ?os se OpCancel s2" by (simp_all add: finish_session_def)
    with P2 quiet(1,2) True show ?thesis by auto
  next
    case False
    have "drain_output ?os se (ss_discard_output st) rx s2 \<noteq> None"
    proof
      assume "drain_output ?os se (ss_discard_output st) rx s2 = None"
      with assms(1) t False show False by (simp add: finish_session_def Let_def)
    qed
    then obtain trunc dis rx1 s3 where
      d: "drain_output ?os se (ss_discard_output st) rx s2 = Some ((trunc, dis), rx1, s3)"
      by (metis option.exhaust prod.collapse)
    with assms(1) t False have
      fin: "if dis then gone \<and> s' = s3 else \<not> gone \<and> s' = su_write_exit ?os
        \<lparr>xr_status = oc_status (case oc of Some oc \<Rightarrow> oc | None \<Rightarrow> no_outcome),
         xr_signal = oc_signal (case oc of Some oc \<Rightarrow> oc | None \<Rightarrow> no_outcome), xr_timed_out = ss_timed_out st,
         xr_confirmed = (ss_group_confirmed st \<and> cgc), xr_contained = (se_cgroup se \<noteq> None),
         xr_output_truncated = trunc, xr_scope = None, xr_tracked_groups_truncated = None\<rparr> s3"
      by (simp add: finish_session_def Let_def split: if_splits)
    have P3: "?P s3" using quiet(5) [OF d] quiet(6) [OF d] P2 by auto
    have "trunc" if "se_strict_output se \<and> ss_discard_output st"
      using d that by (auto simp: drain_output_def Let_def split: prod.splits)
    moreover have "snd (fst (su_write_exit ?os rep s3)) = rep # snd (fst s3)" "snd (su_write_exit ?os rep s3) = snd s3" for rep
      by (simp_all add: recording_def case_prod_beta)
    ultimately show ?thesis using fin P3 False
      by (cases dis) (auto simp: no_outcome_def split: option.splits)
  qed
qed

section \<open>Returning\<close>

locale sup_clock = proc_clock "su_proc os" clock for os :: "'w sup_os" and clock :: "'w \<Rightarrow> nat"
begin

lemma cleanup_group_returns: "\<exists>st' w'. cleanup_group os se st w = Some (st', w')"
  using kill_group_returns [of "se_group se" "se_kill_grace se" "se_cgroup se" "se_interrupt_grace se" w]
  by (auto simp: cleanup_group_def)

lemma supervise_loop_returns: "\<exists>y. supervise_loop os se rx st w = Some y"
proof (induction rx arbitrary: st w)
  case (Cons x rx)
  show ?case
  proof (cases x)
    case (Got ev)
    show ?thesis
    proof (cases "\<exists>oc. ev = ChildExited oc")
      case True
      with Got cleanup_group_returns [of se st "su_close_input os w"] show ?thesis by auto
    next
      case False
      have "\<exists>st' w'. sup_event os se ev st w = Some (st', w')"
        using cleanup_group_returns by (auto simp: sup_event_def split: event.splits)
      then obtain st' w' where "sup_event os se ev st w = Some (st', w')" by blast
      then have "supervise_loop os se (x # rx) st w = supervise_loop os se rx st' w'"
        unfolding Got using False by (subst supervise_loop_event) simp_all
      with Cons.IH show ?thesis by simp
    qed
  qed (use Cons.IH in simp)
qed simp

lemma finish_session_returns:
  assumes "\<not> se_strict_output se"
  shows "\<exists>y. finish_session os se oc rx st w = Some y"
proof -
  have t: "\<exists>b w'. teardown_cgroup (su_proc os) cg grace w = Some (b, w')" for cg grace w
    using finish_cgroup_returns [of _ grace w] by (cases cg) (auto simp: teardown_cgroup_def, blast)
  have d: "\<exists>y. drain_output os se discard rx w = Some y" for discard rx w
    using assms by (cases "drain_pumps os (se_pumps se) w") (auto simp: drain_output_def)
  obtain b w' where "teardown_cgroup (su_proc os) (se_cgroup se) (se_kill_grace se) (on_credits os se OpUncork w) = Some (b, w')"
    using t by blast
  moreover obtain tr dis rx' w'' where "drain_output os se (ss_discard_output st) rx w' = Some ((tr, dis), rx', w'')"
    using d by (metis prod.collapse)
  ultimately show ?thesis using assms by (auto simp: finish_session_def Let_def)
qed

lemma supervise_returns: "\<not> se_strict_output se \<Longrightarrow> \<exists>y. supervise os se rx w = Some y"
  using supervise_loop_returns [of se rx sup_start w] finish_session_returns
  by (auto simp: supervise_def split: bind_splits)

end

text \<open>A session on a system with a counter for a clock.\<close>

definition timed_sup :: "'w sup_os \<Rightarrow> ('w \<times> nat) sup_os" where
  "timed_sup os =
     \<lparr>su_proc = timed_proc (su_proc os), su_close_input = (\<lambda>(w, t). (su_close_input os w, t)),
      su_credit = (\<lambda>p op (w, t). (su_credit os p op w, t)), su_pump_done = (\<lambda>d. on_fst (su_pump_done os d)),
      su_peer = on_fst (su_peer os), su_write_exit = (\<lambda>rep (w, t). (su_write_exit os rep w, t))\<rparr>"

interpretation timed_sup: sup_clock "timed_sup os" snd for os :: "'w sup_os"
  unfolding sup_clock_def using timed_proc.proc_clock_axioms by (simp add: timed_sup_def)

section \<open>Properties\<close>

text \<open>C6: The report is what happened: \<open>supervise\<close> writes one EXIT frame and returns with the BEAM
  alive, or writes none. It never writes one when stdin ended before the child did; otherwise the
  report has the status and signal of the exit the loop waited for, says \<open>timed_out\<close> exactly when
  the timer fired before it, \<open>contained\<close> exactly with a cgroup, and marks a strict output as
  truncated when the session was stopped.\<close>

theorem supervise_reports:
  assumes "supervise (recording os) se rx ((w, []), []) = Some (gone, rx', ((w', reports), l))"
    and "until_exit rx = (evs, oc, r)"
  shows "(list_ex beam_lost evs \<longrightarrow> gone) \<and> (gone \<longrightarrow> reports = [])
    \<and> (\<not> gone \<longrightarrow> (\<exists>rep. reports = [rep]
        \<and> xr_status rep = (case oc of Some x \<Rightarrow> oc_status x | None \<Rightarrow> None)
        \<and> xr_signal rep = (case oc of Some x \<Rightarrow> oc_signal x | None \<Rightarrow> None)
        \<and> xr_timed_out rep = (TimedOutEvent \<in> set evs) \<and> xr_contained rep = (se_cgroup se \<noteq> None)
        \<and> xr_scope rep = None \<and> (se_strict_output se \<and> list_ex stops evs \<longrightarrow> xr_output_truncated rep)))"
proof -
  from assms(1) obtain oc' rx1 st s where
    l: "supervise_loop (recording os) se rx sup_start ((w, []), []) = Some (oc', rx1, st, s)"
    and f: "finish_session (recording os) se oc' rx1 st s = Some (gone, rx', ((w', reports), l))"
    by (auto simp: supervise_def split: bind_splits)
  from loop_recorded [OF l assms(2)] have L: "oc' = oc" "flags_after evs sup_start st" "snd (fst s) = []" by auto
  show ?thesis
    using exit_report_of_session [OF f L(3)] L(1,2) unfolding flags_after_def sup_start_def by auto
qed

text \<open>A child that exits by itself, in a group that is gone by then.\<close>

definition sample_sup :: "string set sup_os" where
  "sample_sup =
     \<lparr>su_proc = \<lparr>po_now = (\<lambda>w. (0, w)), po_sleep = (\<lambda>d w. w), po_kill_group = (\<lambda>g sg w. (Inl ESRCH, w)),
        po_test_group = (\<lambda>g w. (Inl ESRCH, w)), po_try_wait = (\<lambda>c w. (Inr None, w)), po_fs = sample_fs\<rparr>,
      su_close_input = (\<lambda>w. w), su_credit = (\<lambda>p op w. w), su_pump_done = (\<lambda>d w. (PumpDone, w)),
      su_peer = (\<lambda>w. (False, w)), su_write_exit = (\<lambda>rep w. w)\<rparr>"

definition sample_session :: session where
  "sample_session = \<lparr>se_group = 7, se_kill_grace = 5000, se_pumps = 2, se_cgroup = None, se_credit = False,
     se_stderr_credit = False, se_strict_output = False, se_interrupt_grace = None, se_peer = True\<rparr>"

lemma sample_kill:
  "kill_group (logging_proc (lift_proc (su_proc sample_sup))) 7 5000 None None (s, l)
     = Some (True, (s, ProbeEv (Inl ESRCH) # KillEv 7 SIGTERM # l))"
proof -
  let ?os = "logging_proc (lift_proc (su_proc sample_sup))"
  have now: "po_now ?os (s, l) = (0, (s, l))"
    and dead: "group_dead ?os 7 (s, l) = (True, (s, ProbeEv (Inl ESRCH) # l))"
    and kill: "snd (po_kill_group ?os 7 SIGTERM (s, l)) = (s, KillEv 7 SIGTERM # l)" for s l
    by (simp_all add: logging_proc_def lift_proc_def sample_sup_def group_dead_def group_alive_def case_prod_beta)
  have "po_wait ?os 5000 20 (group_dead ?os 7) (s, l) = Some (True, (s, ProbeEv (Inl ESRCH) # l))" for s l
    by (simp add: wait_until_def now, subst wait_loop.simps) (simp add: dead)
  note wait = this [of s "KillEv 7 SIGTERM # l"]
  show ?thesis by (simp add: kill_group_def terminate_group_def kill wait kill_backstop_def)
qed

lemma sample_supervise:
  "\<exists>rep. supervise (recording sample_sup) sample_session [Nothing, Got (ChildExited \<lparr>oc_status = Some 0, oc_signal = None\<rparr>)] (({}, []), [])
     = Some (False, [], (({}, [rep]), [ProbeEv (Inl ESRCH), KillEv 7 SIGTERM]))"
proof -
  have rec: "su_proc (recording sample_sup) = logging_proc (lift_proc (su_proc sample_sup))"
    "su_close_input (recording sample_sup) s = s"
    "su_pump_done (recording sample_sup) d s = (PumpDone, s)"
    "po_now (logging_proc (lift_proc (su_proc sample_sup))) s = (0, s)"
    "su_write_exit (recording sample_sup) rep s = ((fst (fst s), rep # snd (fst s)), snd s)" for s d rep
    by (simp_all add: recording_def sample_sup_def logging_proc_def lift_proc_def case_prod_beta)
  show ?thesis
    by (simp add: supervise_def cleanup_group_def sample_kill rec finish_session_def teardown_cgroup_def drain_output_def
        drain_pumps_def OUTPUT_DRAIN_GRACE_def on_credits_def on_credit_def sample_session_def sup_start_def
        numeral_2_eq_2)
qed

theorem supervise_reports_witness:
  "\<exists>rep s. supervise (recording sample_sup) sample_session [Nothing, Got (ChildExited \<lparr>oc_status = Some 0, oc_signal = None\<rparr>)] (({}, []), [])
     = Some (False, [], s) \<and> snd (fst s) = [rep] \<and> xr_status rep = Some 0 \<and> \<not> xr_timed_out rep"
proof -
  obtain rep where run: "supervise (recording sample_sup) sample_session
      [Nothing, Got (ChildExited \<lparr>oc_status = Some 0, oc_signal = None\<rparr>)] (({}, []), [])
     = Some (False, [], (({}, [rep]), [ProbeEv (Inl ESRCH), KillEv 7 SIGTERM]))"
    using sample_supervise by blast
  have "until_exit [Nothing, Got (ChildExited \<lparr>oc_status = Some 0, oc_signal = None\<rparr>)]
      = ([], Some \<lparr>oc_status = Some 0, oc_signal = None\<rparr>, [])" by simp
  from supervise_reports [OF run this] run show ?thesis by auto
qed

text \<open>C1: One kill sequence: however many events ask for it, a session signals only its own group and
  with one run of the kill sequence; it runs it whenever the session was stopped or the child
  exited, before EXIT is written; and an EXIT that confirms the death of the group rests on a last
  probe that found it gone.\<close>

theorem one_kill_sequence:
  assumes "supervise (recording os) se rx ((w, []), []) = Some (gone, rx', ((w', reports), l))"
    and "until_exit rx = (evs, oc, r)"
  shows "\<exists>k\<le>length (kill_stages (se_interrupt_grace se)).
      sent_signals l = map (Pair (se_group se)) (take k (kill_stages (se_interrupt_grace se)))
      \<and> (k = 0 \<longleftrightarrow> oc = None \<and> \<not> list_ex stops evs)
      \<and> (0 < k \<and> \<not> gone \<and> xr_confirmed (hd reports) \<longrightarrow> hd (probes l) = Inl ESRCH)"
proof -
  from assms(1) obtain oc' rx1 st s where
    lp: "supervise_loop (recording os) se rx sup_start ((w, []), []) = Some (oc', rx1, st, s)"
    and f: "finish_session (recording os) se oc' rx1 st s = Some (gone, rx', ((w', reports), l))"
    by (auto simp: supervise_def split: bind_splits)
  from loop_recorded [OF lp assms(2)] have L: "oc' = oc" "logged_state se st (snd s)" "snd (fst s) = []"
    "ss_group_cleanup_started st \<longleftrightarrow> oc \<noteq> None \<or> list_ex stops evs" by auto
  from exit_report_of_session [OF f L(3)] have F: "sent_signals l = sent_signals (snd s)" "probes l = probes (snd s)"
    "\<not> gone \<Longrightarrow> \<exists>rep. reports = [rep] \<and> (xr_confirmed rep \<longrightarrow> ss_group_confirmed st)" by auto
  show ?thesis
  proof (cases "ss_group_cleanup_started st")
    case True
    with L(2) obtain k where k: "0 < k" "k \<le> length (kill_stages (se_interrupt_grace se))"
      "sent_signals (snd s) = map (Pair (se_group se)) (take k (kill_stages (se_interrupt_grace se)))"
      "last_probe (ss_group_confirmed st) (snd s)"
      unfolding logged_state_def escalated_def by auto
    with F L(4) True show ?thesis by (intro exI [of _ k]) (auto simp: last_probe_iff)
  next
    case False
    with L(2,4) F show ?thesis by (intro exI [of _ 0]) (auto simp: logged_state_def)
  qed
qed

theorem one_kill_sequence_witness:
  "\<exists>k. 0 < k \<and> [(7 :: u32, SIGTERM)] = map (Pair 7) (take k (kill_stages None))"
proof -
  obtain rep where run: "supervise (recording sample_sup) sample_session
      [Nothing, Got (ChildExited \<lparr>oc_status = Some 0, oc_signal = None\<rparr>)] (({}, []), [])
     = Some (False, [], (({}, [rep]), [ProbeEv (Inl ESRCH), KillEv 7 SIGTERM]))"
    using sample_supervise by blast
  have "until_exit [Nothing, Got (ChildExited \<lparr>oc_status = Some 0, oc_signal = None\<rparr>)]
      = ([], Some \<lparr>oc_status = Some 0, oc_signal = None\<rparr>, [])" by simp
  from one_kill_sequence [OF run this] show ?thesis by (auto simp: sample_session_def)
qed



end
