(* ===== verification/Escalation.thy ===== *)
theory Escalation
  imports Tracking
begin

text \<open>
  The cleanup half of \<open>native/forcola_shim/src/tracking.rs\<close>: signals checked against the identity
  they are meant for, the escalation of each target, and one pass of \<open>advance\<close> over all of them.
  \<open>unwrap\<close> of the interrupt grace is the value or 0; a target enters the interrupt phase only when
  the value is there (\<open>next_signal_interrupt\<close>), so the 0 is never used.
\<close>

section \<open>Checked signals\<close>

definition I32_MAX :: nat where "I32_MAX = 2147483647"

definition send_checked ::
  "'s source \<Rightarrow> bool \<Rightarrow> process_identity \<Rightarrow> bool \<Rightarrow> int \<Rightarrow> 's tracker \<Rightarrow> bool \<times> 's tracker" where
  "send_checked src on_macos expected grp sg tr =
     (case tr_read src (pid expected) tr of
        (Inl e, tr) \<Rightarrow> (False, fail tr)
      | (Inr None, tr) \<Rightarrow> (False, tr)
      | (Inr (Some current), tr) \<Rightarrow>
          if \<not> same_process (identity current) expected
             \<or> (grp \<and> (identity current \<noteq> expected \<or> pid expected \<noteq> pgid expected))
          then (False, tr)
          else if \<not> grp \<and> exited current then (False, tr)
          else if sg = 0 then (True, tr)
          else if pid expected = 0 \<or> I32_MAX < unat (pid expected) then (False, fail tr)
          else
            let target = (if grp then - int (unat (pid expected)) else int (unat (pid expected))) in
            case tr_signal src target sg tr of
              (Inl e, tr) \<Rightarrow>
                if on_macos \<and> grp \<and> raw_os_error e = Some EPERM then (False, tr) else (True, fail tr)
            | (Inr _, tr) \<Rightarrow> (True, tr))"

section \<open>Escalation of one target\<close>

definition phase_grace :: "cleanup_state \<Rightarrow> phase \<Rightarrow> nat" where
  "phase_grace c ph =
     (case ph of
        Interrupt \<Rightarrow> (case cl_interrupt c of Some d \<Rightarrow> d | None \<Rightarrow> 0)
      | Terminate \<Rightarrow> cl_term c
      | Kill \<Rightarrow> SAMPLE_INTERVAL)"

definition phase_signal :: "phase \<Rightarrow> int" where
  "phase_signal ph = (case ph of Interrupt \<Rightarrow> SIGINT | Terminate \<Rightarrow> SIGTERM | Kill \<Rightarrow> SIGKILL)"

definition next_phase :: "phase \<Rightarrow> phase" where
  "next_phase ph = (case ph of Interrupt \<Rightarrow> Terminate | _ \<Rightarrow> Kill)"

definition next_signal ::
  "cleanup_state \<Rightarrow> sequence option \<Rightarrow> nat \<Rightarrow> bool \<Rightarrow> sequence \<times> int option \<times> bool" where
  "next_signal c original now force =
     (let s = (case original of
                 Some s \<Rightarrow> s
               | None \<Rightarrow> \<lparr>seq_phase = (if cl_interrupt c \<noteq> None then Interrupt else Terminate), seq_next = now\<rparr>) in
      if force then
        (\<lparr>seq_phase = Kill, seq_next = now\<rparr>, Some SIGKILL,
         case original of None \<Rightarrow> True | Some s \<Rightarrow> seq_phase s \<noteq> Kill)
      else if original \<noteq> None \<and> now < seq_next s then (s, None, False)
      else
        let ph = (if original \<noteq> None then next_phase (seq_phase s) else seq_phase s) in
        (\<lparr>seq_phase = ph, seq_next = now + phase_grace c ph\<rparr>, Some (phase_signal ph), False))"

definition after_signal ::
  "'s source \<Rightarrow> cleanup_state \<Rightarrow> sequence \<Rightarrow> nat \<Rightarrow> 's tracker \<Rightarrow> sequence \<times> 's tracker" where
  "after_signal src c s now tr =
     (let (t, tr) = tr_now src now tr in (s\<lparr>seq_next := t + phase_grace c (seq_phase s)\<rparr>, tr))"

section \<open>One pass\<close>

definition live_identities :: "'s tracker \<Rightarrow> process_identity list" where
  "live_identities tr = map identity (filter (\<lambda>r. \<not> exited r) (hm_values (processes tr)))"

definition set_group :: "process_identity \<Rightarrow> sequence \<Rightarrow> 's tracker \<Rightarrow> 's tracker" where
  "set_group g s tr = tr\<lparr>groups := hm_insert g (Some s) (groups tr)\<rparr>"

definition set_member :: "sequence \<Rightarrow> process_identity \<Rightarrow> 's tracker \<Rightarrow> 's tracker" where
  "set_member s m tr = tr\<lparr>members := hm_insert m s (members tr)\<rparr>"

text \<open>One group of the snapshot; the pids its signal covers are collected.\<close>

definition advance_group ::
  "'s source \<Rightarrow> bool \<Rightarrow> cleanup_state \<Rightarrow> nat \<Rightarrow> process_identity list \<Rightarrow>
   process_identity \<times> sequence option \<Rightarrow> 's tracker \<times> u32 list \<Rightarrow> 's tracker \<times> u32 list" where
  "advance_group src on_macos c now live gs st =
     (let (g, previous) = gs; (tr, covered) = st in
      if \<not> (root_group_unresolved tr \<and> pid g = root_pid tr) \<and> \<not> list_ex (\<lambda>m. pgid m = pgid g) live
      then (tr, covered)
      else
        let (target_now, tr) = tr_now src now tr;
            (s, sg, shortened) = next_signal c previous target_now (cl_deadline c \<le> target_now);
            (sent, tr) = send_checked src on_macos g True (case sg of Some n \<Rightarrow> n | None \<Rightarrow> 0) tr in
        if sent then
          let (s, tr) = (if sg \<noteq> None then after_signal src c s target_now tr else (s, tr));
              tr = set_group g s tr;
              tr = (if shortened then fail tr else tr);
              ms = filter (\<lambda>m. pgid m = pgid g) live in
          (fold (set_member s) ms tr, covered @ map pid ms)
        else (tr, covered))"

text \<open>One live process no group signal reached.\<close>

definition advance_member ::
  "'s source \<Rightarrow> bool \<Rightarrow> cleanup_state \<Rightarrow> nat \<Rightarrow> process_identity \<Rightarrow> 's tracker \<Rightarrow> 's tracker" where
  "advance_member src on_macos c now m tr =
     (let (target_now, tr1) = tr_now src now tr;
          (s, sg, shortened) = next_signal c (hm_get (members tr) m) target_now (cl_deadline c \<le> target_now) in
      case sg of
        None \<Rightarrow> tr1
      | Some n \<Rightarrow>
          let (sent, tr2) = send_checked src on_macos m False n tr1 in
          if sent then
            let (s, tr3) = after_signal src c s target_now tr2; tr4 = set_member s m tr3 in
            (if shortened then fail tr4 else tr4)
          else tr2)"

text \<open>The verdict at the end of a pass.\<close>

definition advance_verdict ::
  "cleanup_state \<Rightarrow> nat \<Rightarrow> process_identity list \<Rightarrow> 's tracker \<Rightarrow> progress \<times> 's tracker" where
  "advance_verdict c now live tr =
     (let force = (cl_deadline c \<le> now);
          idle = (if live = [] \<and> incomplete_scans tr = 0 then sat_add (cl_empty_scans c) 1 else 0);
          doubted = (uncertain tr \<or> force \<and> (live \<noteq> [] \<or> 0 < incomplete_scans tr));
          finished = (2 \<le> idle \<or> force) in
      (\<lparr>done_now = finished, confirmed = (finished \<and> live = [] \<and> \<not> doubted)\<rparr>,
       tr\<lparr>cleanup := Some (c\<lparr>cl_empty_scans := idle\<rparr>), uncertain := doubted\<rparr>))"

definition advance :: "'s source \<Rightarrow> bool \<Rightarrow> nat \<Rightarrow> 's tracker \<Rightarrow> progress \<times> 's tracker" where
  "advance src on_macos now tr =
     (case cleanup tr of
        None \<Rightarrow> (\<lparr>done_now = False, confirmed = False\<rparr>, tr)
      | Some c \<Rightarrow>
          (let live = live_identities tr;
               (tr, covered) = fold (advance_group src on_macos c now live) (groups tr) (tr, []);
               tr = fold (advance_member src on_macos c now) (filter (\<lambda>m. pid m \<notin> set covered) live) tr in
           advance_verdict c now live tr))"

definition finish_scan :: "'s source \<Rightarrow> bool \<Rightarrow> 's tracker \<Rightarrow> bool \<times> 's tracker" where
  "finish_scan src on_macos tr =
     (let tr = scan src tr; live = live_identities tr;
          tr = (if live \<noteq> [] then
                  fold (\<lambda>m tr. snd (send_checked src on_macos m False SIGKILL tr)) live (fail tr)
                else tr) in
      (\<not> uncertain tr \<and> incomplete_scans tr = 0, tr))"

section \<open>What a signal leaves alone\<close>

text \<open>Everything of a tracker but its source's state and \<open>uncertain\<close>.\<close>

definition book :: "'s tracker \<Rightarrow> (u32, process_record) hash_map \<times> (process_identity, sequence option) hash_map
    \<times> (process_identity, sequence) hash_map \<times> process_identity list \<times> cleanup_state option \<times> u8 \<times> bool
    \<times> process_identity \<times> u32 \<times> nat \<times> nat \<times> bool" where
  "book tr = (processes tr, groups tr, members tr, pending tr, cleanup tr, incomplete_scans tr,
     root_group_unresolved tr, shim tr, root_pid tr, group_limit tr, process_limit tr, adopt_orphans tr)"

lemma bookD:
  assumes "book a = book b"
  shows "processes a = processes b" "groups a = groups b" "members a = members b" "pending a = pending b"
    "cleanup a = cleanup b" "incomplete_scans a = incomplete_scans b"
    "root_group_unresolved a = root_group_unresolved b" "shim a = shim b" "root_pid a = root_pid b"
    "group_limit a = group_limit b" "process_limit a = process_limit b" "adopt_orphans a = adopt_orphans b"
  using assms by (simp_all add: book_def)

lemma book_tr_calls [frame_simps]:
  "book (snd (tr_read src p tr)) = book tr" "uncertain (snd (tr_read src p tr)) = uncertain tr"
  "book (snd (tr_signal src t sg tr)) = book tr" "uncertain (snd (tr_signal src t sg tr)) = uncertain tr"
  "book (snd (tr_now src n tr)) = book tr" "uncertain (snd (tr_now src n tr)) = uncertain tr"
  "book (fail tr) = book tr" "uncertain (fail tr) = True"
  by (auto simp: book_def tr_calls fail_def Let_def split: prod.splits)

lemma book_read: "tr_read src p tr = (r, t) \<Longrightarrow> book t = book tr \<and> uncertain t = uncertain tr"
  by (metis book_tr_calls(1,2) snd_conv)

lemma book_signal: "tr_signal src n sg tr = (r, t) \<Longrightarrow> book t = book tr \<and> uncertain t = uncertain tr"
  by (metis book_tr_calls(3,4) snd_conv)

lemma book_now: "tr_now src n tr = (r, t) \<Longrightarrow> book t = book tr \<and> uncertain t = uncertain tr"
  by (metis book_tr_calls(5,6) snd_conv)

lemma book_after_signal:
  "after_signal src c s now tr = (s', t) \<Longrightarrow> book t = book tr \<and> uncertain t = uncertain tr"
  by (auto simp: after_signal_def Let_def dest: book_now split: prod.splits)

text \<open>What \<open>send_checked\<close> does, as one case distinction: nothing was sent, or the target was read
  and signalled at once.\<close>

definition target_of :: "process_identity \<Rightarrow> bool \<Rightarrow> int" where
  "target_of expected grp = (if grp then - int (unat (pid expected)) else int (unat (pid expected)))"

definition authorized :: "process_identity \<Rightarrow> bool \<Rightarrow> process_record \<Rightarrow> bool" where
  "authorized expected grp r \<longleftrightarrow> same_process (identity r) expected
     \<and> (if grp then identity r = expected \<and> pid expected = pgid expected else \<not> exited r)
     \<and> pid expected \<noteq> 0 \<and> unat (pid expected) \<le> I32_MAX"

lemma send_checked_cases:
  assumes "send_checked src on_macos expected grp sg tr = (b, tr')"
  obtains (quiet) r t where "tr_read src (pid expected) tr = (r, t)" "tr' = t \<or> tr' = fail t"
      "b \<Longrightarrow> sg = 0"
    | (sent) r t q t' where "tr_read src (pid expected) tr = (Inr (Some r), t)"
      "authorized expected grp r" "sg \<noteq> 0"
      "tr_signal src (target_of expected grp) sg t = (q, t')"
      "tr' = t' \<or> tr' = fail t'"
proof -
  obtain r t where r: "tr_read src (pid expected) tr = (r, t)" by force
  show thesis
  proof (cases "\<exists>rec. r = Inr (Some rec) \<and> authorized expected grp rec \<and> sg \<noteq> 0")
    case False
    then have "(tr' = t \<or> tr' = fail t) \<and> (b \<longrightarrow> sg = 0)"
      using assms r
      by (cases r) (auto simp: send_checked_def authorized_def split: option.splits if_splits)
    with r quiet show thesis by blast
  next
    case True
    then obtain rec where rec: "r = Inr (Some rec)" "authorized expected grp rec" "sg \<noteq> 0" by blast
    obtain q t' where q: "tr_signal src (target_of expected grp) sg t = (q, t')" by force
    have "tr' = t' \<or> tr' = fail t'"
      using assms r rec q
      by (cases q) (auto simp: send_checked_def authorized_def target_of_def Let_def split: if_splits)
    with r rec q sent show thesis by blast
  qed
qed

lemma book_send_checked:
  "send_checked src on_macos expected grp sg tr = (b, t) \<Longrightarrow> book t = book tr \<and> (uncertain tr \<longrightarrow> uncertain t)"
  by (erule send_checked_cases)
     (auto dest!: book_read book_signal simp: frame_simps)

lemma book_set_members:
  "processes (fold (set_member s) ms tr) = processes tr" "groups (fold (set_member s) ms tr) = groups tr"
  "cleanup (fold (set_member s) ms tr) = cleanup tr" "uncertain (fold (set_member s) ms tr) = uncertain tr"
  by (induction ms arbitrary: tr) (simp_all add: set_member_def)

section \<open>Invariants of cleanup\<close>

text \<open>
  The contract of \<open>scan\<close> extended by what a pass of cleanup is made of. A group is updated only
  under a key it already has, so a property may depend on the set of groups, and signals go only
  to the identities of \<open>known\<close>.
\<close>

locale tracker_ops = scan_ops src P for src :: "'s source" and P :: "'s tracker \<Rightarrow> bool" +
  fixes on_macos :: bool
    and known :: "process_identity set"
  assumes now_inv: "P tr \<Longrightarrow> P (snd (tr_now src t tr))"
    and send_inv: "P tr \<Longrightarrow> expected \<in> known \<Longrightarrow> P (snd (send_checked src on_macos expected grp sg tr))"
    and set_group_inv: "P tr \<Longrightarrow> g \<in> set (hm_keys (groups tr)) \<Longrightarrow> P (set_group g s tr)"
    and set_member_inv: "P tr \<Longrightarrow> P (set_member s m tr)"
    and cleanup_inv: "P tr \<Longrightarrow> P (tr\<lparr>cleanup := Some c\<rparr>)"
begin

lemma now_inv': "tr_now src t tr = (n, tr') \<Longrightarrow> P tr \<Longrightarrow> P tr'"
  by (metis now_inv snd_conv)

lemma send_inv':
  "send_checked src on_macos expected grp sg tr = (b, tr') \<Longrightarrow> P tr \<Longrightarrow> expected \<in> known \<Longrightarrow> P tr'"
  by (metis send_inv snd_conv)

lemma set_members_inv: "P tr \<Longrightarrow> P (fold (set_member s) ms tr)"
  by (intro fold_inv set_member_inv)

lemma after_signal_inv: "after_signal src c s now tr = (s', tr') \<Longrightarrow> P tr \<Longrightarrow> P tr'"
  by (auto simp: after_signal_def Let_def dest: now_inv' split: prod.splits)

lemma advance_member_inv: "P tr \<Longrightarrow> m \<in> known \<Longrightarrow> P (advance_member src on_macos c now m tr)"
  by (auto simp: advance_member_def Let_def fail_inv set_member_inv split: prod.splits option.splits
      dest: now_inv' send_inv' after_signal_inv
      intro!: fail_inv set_member_inv)

lemma advance_group_inv:
  assumes "advance_group src on_macos c now live (g, previous) (tr, covered) = (tr', covered')"
    and "P tr" "g \<in> set (hm_keys (groups tr))" "g \<in> known"
  shows "P tr' \<and> set (hm_keys (groups tr')) = set (hm_keys (groups tr))"
proof -
  obtain n t1 where n: "tr_now src now tr = (n, t1)" by force
  obtain s sg short where ns: "next_signal c previous n (cl_deadline c \<le> n) = (s, sg, short)"
    by (metis prod.collapse)
  obtain b t2 where b: "send_checked src on_macos g True (case sg of Some x \<Rightarrow> x | None \<Rightarrow> 0) t1 = (b, t2)"
    by force
  obtain s3 t3 where a: "(if sg \<noteq> None then after_signal src c s n t2 else (s, t2)) = (s3, t3)" by force
  have t1: "P t1" "groups t1 = groups tr"
    using now_inv' [OF n assms(2)] bookD(2) book_now [OF n] by blast+
  have t2: "P t2" "groups t2 = groups tr"
    using send_inv' [OF b t1(1) assms(4)] book_send_checked [OF b] t1(2) bookD(2) by metis+
  have t3: "P t3" "groups t3 = groups tr"
    using a t2 after_signal_inv book_after_signal bookD(2) by (metis prod.inject)+
  define t4 where "t4 = (if short then fail (set_group g s3 t3) else set_group g s3 t3)"
  have t4: "P t4" "set (hm_keys (groups t4)) = set (hm_keys (groups tr))"
    using t3 assms(3) hm_keys_insert [of g "Some s3" "groups tr"]
    by (simp_all add: t4_def set_group_inv fail_inv insert_absorb del: set_map)
       (simp_all add: set_group_def fail_def insert_absorb del: set_map)
  show ?thesis
  proof (cases "tr' = tr \<or> tr' = t2")
    case True
    with assms(2) t2 show ?thesis by auto
  next
    case False
    then have "tr' = fold (set_member s3) (filter (\<lambda>m. pgid m = pgid g) live) t4"
      using assms(1) n ns b a by (auto simp: advance_group_def t4_def Let_def split: if_splits)
    with t4 show ?thesis by (simp add: set_members_inv book_set_members)
  qed
qed

lemma advance_groups_inv:
  "P tr \<Longrightarrow> set (hm_keys gs) \<subseteq> set (hm_keys (groups tr)) \<Longrightarrow> set (hm_keys gs) \<subseteq> known \<Longrightarrow>
   P (fst (fold (advance_group src on_macos c now live) gs (tr, covered)))"
proof (induction gs arbitrary: tr covered)
  case (Cons gp gs)
  obtain g p where gp: "gp = (g, p)" by (cases gp)
  obtain tr' cov where st: "advance_group src on_macos c now live (g, p) (tr, covered) = (tr', cov)"
    by force
  from advance_group_inv [OF st Cons.prems(1)] Cons.prems(2,3) gp
  have "P tr'" "set (hm_keys (groups tr')) = set (hm_keys (groups tr))" by auto
  with Cons.IH [of tr' cov] Cons.prems(2,3) gp st show ?case by simp
qed simp

lemma raise_inv: "P tr \<Longrightarrow> P (tr\<lparr>uncertain := True\<rparr>)"
  using fail_inv by (simp add: fail_def)

lemma advance_members_inv:
  "P tr \<Longrightarrow> set ms \<subseteq> known \<Longrightarrow> P (fold (advance_member src on_macos c now) ms tr)"
  by (induction ms arbitrary: tr) (simp_all add: advance_member_inv)

lemma verdict_inv: "P tr \<Longrightarrow> P (snd (advance_verdict c now live tr))"
proof -
  assume P: "P tr"
  have "P (t\<lparr>uncertain := b\<rparr>)" if "P t" "uncertain t \<longrightarrow> b" for t b
  proof (cases "b = uncertain t")
    case True
    with that show ?thesis by simp
  next
    case False
    with that raise_inv [of t] show ?thesis by simp
  qed
  then have "P ((tr\<lparr>cleanup := Some d\<rparr>)\<lparr>uncertain := uncertain tr \<or> b\<rparr>)" for d b
    using cleanup_inv [OF P, of d] by simp
  then show ?thesis by (simp add: advance_verdict_def Let_def)
qed

lemma advance_inv:
  assumes "P tr" "set (hm_keys (groups tr)) \<subseteq> known" "set (live_identities tr) \<subseteq> known"
  shows "P (snd (advance src on_macos now tr))"
proof (cases "cleanup tr")
  case None
  with assms(1) show ?thesis by (simp add: advance_def)
next
  case (Some c)
  obtain t1 cov where g: "fold (advance_group src on_macos c now (live_identities tr)) (groups tr) (tr, []) = (t1, cov)"
    by force
  have t1: "P t1"
    using advance_groups_inv [OF assms(1), of "groups tr" c now "live_identities tr" "[]"] assms(2) g by simp
  have "P (fold (advance_member src on_macos c now) (filter Q (live_identities tr)) t1)" for Q
    using assms(3) by (intro advance_members_inv t1) auto
  with Some g show ?thesis by (simp add: advance_def verdict_inv Let_def)
qed

lemma finish_scan_inv:
  assumes "P tr" "known = UNIV"
  shows "P (snd (finish_scan src on_macos tr))"
  using assms by (auto simp: finish_scan_def Let_def intro!: fold_inv send_inv scan_inv fail_inv)

end

section \<open>Constants and sticky doubt\<close>

interpretation doubt: tracker_ops src "\<lambda>tr. uncertain tr" on_macos UNIV for src :: "'s source" and on_macos
proof unfold_locales
  fix tr :: "'s tracker" and expected grp sg assume "uncertain tr"
  then show "uncertain (snd (send_checked src on_macos expected grp sg tr))"
    using book_send_checked by (metis prod.collapse)
qed (auto simp: tr_calls fail_def add_process_def remove_process_def track_group_def set_group_def
    set_member_def Let_def split: prod.splits)

lemma uncertain_scan: "uncertain tr \<Longrightarrow> uncertain (scan src tr)"
  by (rule doubt.scan_inv)

lemma uncertain_advance: "uncertain tr \<Longrightarrow> uncertain (snd (advance src on_macos now tr))"
  by (rule doubt.advance_inv) auto

lemma uncertain_finish_scan: "uncertain tr \<Longrightarrow> uncertain (snd (finish_scan src on_macos tr))"
  by (rule doubt.finish_scan_inv) auto

definition limits :: "'s tracker \<Rightarrow> process_identity \<times> u32 \<times> nat \<times> nat \<times> bool" where
  "limits tr = (shim tr, root_pid tr, group_limit tr, process_limit tr, adopt_orphans tr)"

interpretation fixed: tracker_ops src "\<lambda>tr. limits tr = k" on_macos UNIV for src :: "'s source" and on_macos k
proof unfold_locales
  fix tr :: "'s tracker" and expected grp sg assume "limits tr = k"
  then show "limits (snd (send_checked src on_macos expected grp sg tr)) = k"
    using book_send_checked [of src on_macos expected grp sg tr]
    by (cases "send_checked src on_macos expected grp sg tr") (auto simp: limits_def dest: bookD)
qed (auto simp: limits_def tr_calls fail_def add_process_def remove_process_def track_group_def set_group_def
    set_member_def Let_def split: prod.splits)

section \<open>Well-formed trackers\<close>

text \<open>The association lists are maps, and what is tracked or waits to be announced leads a group.\<close>

definition well_formed :: "'s tracker \<Rightarrow> bool" where
  "well_formed tr \<longleftrightarrow> hm_ok (processes tr) \<and> hm_ok (groups tr) \<and> hm_ok (members tr)
     \<and> (\<forall>g. hm_get (groups tr) g \<noteq> None \<or> g \<in> set (pending tr) \<longrightarrow> pid g = pgid g)"

lemma well_formed_book: "book tr' = book tr \<Longrightarrow> well_formed tr' = well_formed tr"
  by (simp add: well_formed_def book_def)

interpretation formed: tracker_ops src "\<lambda>tr. well_formed tr" on_macos UNIV for src :: "'s source" and on_macos
proof unfold_locales
  fix tr :: "'s tracker" and expected grp sg assume w: "well_formed tr"
  obtain b t where t: "send_checked src on_macos expected grp sg tr = (b, t)" by force
  from book_send_checked [OF t] w show "well_formed (snd (send_checked src on_macos expected grp sg tr))"
    by (simp add: t well_formed_book [of t tr])
next
  fix tr :: "'s tracker" and g s assume w: "well_formed tr" and g: "g \<in> set (hm_keys (groups tr))"
  have "hm_get (groups tr) g \<noteq> None" using g by (simp add: map_of_eq_None_iff)
  with w show "well_formed (set_group g s tr)"
    unfolding well_formed_def by (simp add: set_group_def hm.inv_ins hm.get_ins)
next
  fix tr :: "'s tracker" and r assume w: "well_formed tr"
  then show "well_formed (track_group r tr)"
    by (simp add: track_group_def well_formed_def Let_def hm.inv_ins hm.get_ins)
next
  fix tr :: "'s tracker" and q assume w: "well_formed tr"
  then show "well_formed (tr\<lparr>groups := hm_retain q (groups tr)\<rparr>)"
    by (simp add: well_formed_def hm.inv_ret hm.get_ret)
qed (auto simp: well_formed_def tr_calls fail_def add_process_def remove_process_def set_member_def
    hm.inv_ins hm.inv_rem hm.inv_ret Let_def split: prod.splits)

section \<open>The bound on groups\<close>

definition groups_ok :: "'s tracker \<Rightarrow> bool" where
  "groups_ok tr \<longleftrightarrow> length (groups tr) \<le> group_limit tr"

interpretation bounded: tracker_ops src "\<lambda>tr. groups_ok tr" on_macos UNIV for src :: "'s source" and on_macos
proof unfold_locales
  fix tr :: "'s tracker" and expected grp sg assume "groups_ok tr"
  then show "groups_ok (snd (send_checked src on_macos expected grp sg tr))"
    using book_send_checked [of src on_macos expected grp sg tr]
    by (metis bookD(2) bookD(10) groups_ok_def prod.collapse)
next
  fix tr :: "'s tracker" and r assume "groups_ok tr"
  then show "groups_ok (track_group r tr)"
    by (simp add: groups_ok_def track_group_def Let_def length_hm_insert)
next
  fix tr :: "'s tracker" and q assume "groups_ok tr"
  then show "groups_ok (tr\<lparr>groups := hm_retain q (groups tr)\<rparr>)"
    using length_retain [of q "groups tr"] by (simp add: groups_ok_def)
next
  fix tr :: "'s tracker" and g s assume "groups_ok tr" "g \<in> set (hm_keys (groups tr))"
  then show "groups_ok (set_group g s tr)" by (simp add: groups_ok_def set_group_def length_hm_insert)
qed (auto simp: groups_ok_def tr_calls fail_def add_process_def remove_process_def
    set_member_def Let_def split: prod.splits)

section \<open>What the log shows\<close>

text \<open>A source that records its calls, newest first.\<close>

datatype src_event =
    ReadEv u32 "io_error + process_record option"
  | SignalEv int int
  | OtherEv

definition recorded :: "'s source \<Rightarrow> ('s \<times> src_event list) source" where
  "recorded src =
     \<lparr>src_read = (\<lambda>p (s, l). let (r, s') = src_read src p s in (r, (s', ReadEv p r # l))),
      src_children = (\<lambda>p (s, l). let (r, s') = src_children src p s in (r, (s', OtherEv # l))),
      src_group_members = (\<lambda>p (s, l). let (r, s') = src_group_members src p s in (r, (s', OtherEv # l))),
      src_signal = (\<lambda>t sg (s, l). let (r, s') = src_signal src t sg s in (r, (s', SignalEv t sg # l))),
      src_reap = (\<lambda>p (s, l). let (r, s') = src_reap src p s in (r, (s', OtherEv # l))),
      src_now = (\<lambda>n (s, l). let (r, s') = src_now src n s in (r, (s', OtherEv # l)))\<rparr>"

text \<open>A signal is backed when the call just before it read its target: a live process that is one
  of the known identities, or for a group its leader, exactly as known.\<close>

definition backed :: "process_identity set \<Rightarrow> int \<Rightarrow> src_event list \<Rightarrow> bool" where
  "backed known target before =
     (case before of
        ReadEv p (Inr (Some r)) # _ \<Rightarrow>
          0 < unat p \<and> unat p \<le> I32_MAX \<and> pid (identity r) = p
          \<and> (target = int (unat p) \<and> \<not> exited r \<and> (\<exists>k\<in>known. same_process (identity r) k)
             \<or> target = - int (unat p) \<and> pgid (identity r) = p \<and> identity r \<in> known)
      | _ \<Rightarrow> False)"

fun all_backed :: "process_identity set \<Rightarrow> src_event list \<Rightarrow> bool" where
  "all_backed known [] \<longleftrightarrow> True"
| "all_backed known (SignalEv t sg # l) \<longleftrightarrow> backed known t l \<and> all_backed known l"
| "all_backed known (ev # l) \<longleftrightarrow> all_backed known l"

abbreviation tr_log :: "('s \<times> src_event list) tracker \<Rightarrow> src_event list" where
  "tr_log tr \<equiv> snd (world tr)"

lemma tr_read_log:
  "tr_read (recorded src) p tr = (r, t) \<Longrightarrow> tr_log t = ReadEv p r # tr_log tr"
  by (auto simp: tr_read_def recorded_def Let_def split: prod.splits)

lemma tr_signal_log:
  "tr_signal (recorded src) n sg tr = (r, t) \<Longrightarrow> tr_log t = SignalEv n sg # tr_log tr"
  by (auto simp: tr_signal_def recorded_def Let_def split: prod.splits)

lemma send_checked_backed:
  assumes "send_checked (recorded src) on_macos expected grp sg tr = (b, tr')"
    and "all_backed known (tr_log tr)" "expected \<in> known"
  shows "all_backed known (tr_log tr')"
  using assms(1)
proof (cases rule: send_checked_cases)
  case (quiet r t)
  with tr_read_log [OF quiet(1)] assms(2) show ?thesis by (auto simp: fail_def)
next
  case (sent r t q t')
  have p: "0 < unat (pid expected)" using sent(2) by (simp add: authorized_def unat_gt_0)
  have "backed known (target_of expected grp) (tr_log t)"
    using tr_read_log [OF sent(1)] sent(2) assms(3) p
    by (auto simp: backed_def authorized_def target_of_def same_process_def)
  moreover have "all_backed known (tr_log t)" using tr_read_log [OF sent(1)] assms(2) by simp
  ultimately show ?thesis using tr_signal_log [OF sent(4)] sent(5) by (auto simp: fail_def)
qed

interpretation backed_ops: tracker_ops "recorded src" "\<lambda>tr. all_backed known (tr_log tr)" on_macos known
  for src :: "'s source" and known on_macos
proof unfold_locales
  fix tr :: "('s \<times> src_event list) tracker" and expected grp sg
  assume "all_backed known (tr_log tr)" "expected \<in> known"
  then show "all_backed known (tr_log (snd (send_checked (recorded src) on_macos expected grp sg tr)))"
    using send_checked_backed by (metis prod.collapse)
qed (auto simp: tr_calls recorded_def fail_def add_process_def remove_process_def track_group_def
    set_group_def set_member_def Let_def split: prod.splits)

text \<open>A scan sends nothing at all.\<close>

definition signals_of :: "src_event list \<Rightarrow> (int \<times> int) list" where
  "signals_of l = concat (map (\<lambda>ev. case ev of SignalEv t sg \<Rightarrow> [(t, sg)] | _ \<Rightarrow> []) l)"

interpretation silent: scan_ops "recorded src" "\<lambda>tr. signals_of (tr_log tr) = l" for src :: "'s source" and l
  by unfold_locales
     (auto simp: signals_of_def tr_calls recorded_def fail_def add_process_def remove_process_def track_group_def
        Let_def split: prod.splits)

lemma signals_of_Nil_backed: "signals_of l = [] \<Longrightarrow> all_backed known l"
  by (induction l rule: all_backed.induct) (auto simp: signals_of_def)

section \<open>Phases\<close>

instantiation phase :: linorder
begin

fun rank :: "phase \<Rightarrow> nat" where
  "rank Interrupt = 0"
| "rank Terminate = 1"
| "rank Kill = 2"

definition less_eq_phase :: "phase \<Rightarrow> phase \<Rightarrow> bool" where
  "less_eq_phase a b \<longleftrightarrow> rank a \<le> rank b"

definition less_phase :: "phase \<Rightarrow> phase \<Rightarrow> bool" where
  "less_phase a b \<longleftrightarrow> rank a < rank b"

instance
proof
  fix a b :: phase
  show "a \<le> b \<Longrightarrow> b \<le> a \<Longrightarrow> a = b"
    by (cases a; cases b) (simp_all add: less_eq_phase_def)
qed (auto simp: less_eq_phase_def less_phase_def)

end

lemma next_phase_le: "ph \<le> next_phase ph"
  by (cases ph) (simp_all add: less_eq_phase_def next_phase_def)

lemma le_Kill: "ph \<le> Kill"
  by (cases ph) (simp_all add: less_eq_phase_def)

lemma next_signal_phase:
  assumes "next_signal c (Some s) now force = (s', sg, shortened)"
  shows "seq_phase s \<le> seq_phase s'"
    and "\<not> shortened \<Longrightarrow> seq_phase s' = seq_phase s \<or> seq_phase s' = next_phase (seq_phase s)"
    and "seq_phase s' \<noteq> seq_phase s \<Longrightarrow> force \<or> seq_next s \<le> now"
  using assms next_phase_le [of "seq_phase s"] le_Kill [of "seq_phase s"]
  by (auto simp: next_signal_def Let_def split: if_splits)

lemma next_signal_interrupt:
  assumes "next_signal c previous now force = (s', sg, shortened)" "seq_phase s' = Interrupt"
    and "\<And>s. previous = Some s \<Longrightarrow> seq_phase s = Interrupt \<Longrightarrow> cl_interrupt c \<noteq> None"
  shows "cl_interrupt c \<noteq> None"
  using assms
  by (cases previous; cases "seq_phase (the previous)")
     (auto simp: next_signal_def Let_def next_phase_def split: if_splits)

lemma after_signal_phase: "after_signal src c s now tr = (s', t) \<Longrightarrow> seq_phase s' = seq_phase s"
  by (auto simp: after_signal_def Let_def split: prod.splits)

section \<open>One pass over the groups\<close>

text \<open>The entry of a group after its turn: a step of the escalation at some time, and doubt when
  the step shortened a grace.\<close>

definition entry_moved :: "'s source \<Rightarrow> cleanup_state \<Rightarrow> sequence option \<Rightarrow> bool \<Rightarrow> sequence option option \<Rightarrow> bool" where
  "entry_moved src c previous doubted entry \<longleftrightarrow>
     (\<exists>r w n s sg short s'. n = fst (src_now src r w)
        \<and> next_signal c previous n (cl_deadline c \<le> n) = (s, sg, short)
        \<and> seq_phase s' = seq_phase s \<and> (short \<longrightarrow> doubted) \<and> entry = Some (Some s'))"

lemma entry_moved_mono: "entry_moved src c previous u e \<Longrightarrow> (u \<longrightarrow> v) \<Longrightarrow> entry_moved src c previous v e"
  unfolding entry_moved_def by blast

lemma advance_group_entry:
  assumes "advance_group src on_macos c now live (g', previous) (tr, covered) = (tr', covered')"
  shows "processes tr' = processes tr \<and> cleanup tr' = cleanup tr \<and> incomplete_scans tr' = incomplete_scans tr
    \<and> (uncertain tr \<longrightarrow> uncertain tr')
    \<and> (hm_get (groups tr') g = hm_get (groups tr) g
       \<or> g = g' \<and> entry_moved src c previous (uncertain tr') (hm_get (groups tr') g))"
proof -
  obtain n t1 where n: "tr_now src now tr = (n, t1)" by force
  obtain s sg short where ns: "next_signal c previous n (cl_deadline c \<le> n) = (s, sg, short)"
    by (metis prod.collapse)
  obtain b t2 where b: "send_checked src on_macos g' True (case sg of Some x \<Rightarrow> x | None \<Rightarrow> 0) t1 = (b, t2)"
    by force
  obtain s3 t3 where a: "(if sg \<noteq> None then after_signal src c s n t2 else (s, t2)) = (s3, t3)" by force
  have t2: "book t2 = book tr" "uncertain tr \<longrightarrow> uncertain t2"
    using book_send_checked [OF b] book_now [OF n] by simp_all
  then have t3: "book t3 = book tr" "seq_phase s3 = seq_phase s" "uncertain tr \<longrightarrow> uncertain t3"
    using a book_after_signal after_signal_phase by (metis prod.inject)+
  define t4 where "t4 = (if short then fail (set_group g' s3 t3) else set_group g' s3 t3)"
  show ?thesis
  proof (cases "tr' = tr \<or> tr' = t2")
    case True
    with bookD [OF t2(1)] t2(2) show ?thesis by auto
  next
    case False
    then have tr': "tr' = fold (set_member s3) (filter (\<lambda>m. pgid m = pgid g') live) t4"
      using assms n ns b a by (auto simp: advance_group_def t4_def Let_def split: if_splits)
    have inc: "incomplete_scans (fold (set_member s3) ms t) = incomplete_scans t" for ms and t :: "'a tracker"
      by (induction ms arbitrary: t) (simp_all add: set_member_def)
    have "hm_get (groups tr') g = (if g = g' then Some (Some s3) else hm_get (groups tr) g)"
      using bookD(2) [OF t3(1)] unfolding tr' book_set_members
      by (simp add: t4_def set_group_def fail_def update_conv')
    moreover have "short \<or> uncertain tr \<longrightarrow> uncertain tr'"
      using t3(3) unfolding tr' book_set_members by (simp add: t4_def fail_def set_group_def)
    moreover have "processes tr' = processes tr" "cleanup tr' = cleanup tr" "incomplete_scans tr' = incomplete_scans tr"
      using bookD [OF t3(1)] unfolding tr' book_set_members inc
      by (auto simp: t4_def set_group_def fail_def)
    moreover have "entry_moved src c previous (short \<or> uncertain tr) (Some (Some s3))"
    proof -
      have "n = fst (src_now src now (world tr))"
        using n by (auto simp: tr_now_def Let_def split: prod.splits)
      with ns t3(2) show ?thesis unfolding entry_moved_def by blast
    qed
    ultimately show ?thesis
      using entry_moved_mono [of src c previous "short \<or> uncertain tr" "Some (Some s3)" "uncertain tr'"]
      by (cases "g = g'") simp_all
  qed
qed

lemma advance_groups_entry:
  assumes "distinct (map fst gs)"
    and "fold (advance_group src on_macos c now live) gs (tr, covered) = (tr', covered')"
  shows "processes tr' = processes tr \<and> cleanup tr' = cleanup tr \<and> incomplete_scans tr' = incomplete_scans tr
    \<and> (uncertain tr \<longrightarrow> uncertain tr')
    \<and> (hm_get (groups tr') g = hm_get (groups tr) g
       \<or> (\<exists>previous. (g, previous) \<in> set gs
            \<and> entry_moved src c previous (uncertain tr') (hm_get (groups tr') g)))"
  using assms
proof (induction gs arbitrary: tr covered)
  case (Cons gp gs)
  obtain g' prev where gp: "gp = (g', prev)" by (cases gp)
  obtain t1 c1 where st: "advance_group src on_macos c now live (g', prev) (tr, covered) = (t1, c1)" by force
  note step = advance_group_entry [OF st, of g]
  have rest: "fold (advance_group src on_macos c now live) gs (t1, c1) = (tr', covered')"
    using Cons.prems(2) gp st by simp
  have d: "distinct (map fst gs)" "g' \<notin> set (map fst gs)" using Cons.prems(1) gp by simp_all
  note IH = Cons.IH [OF d(1) rest]
  show ?case
  proof (cases "hm_get (groups t1) g = hm_get (groups tr) g")
    case True
    with step IH show ?thesis unfolding gp by auto
  next
    case False
    with step have own: "g = g'" "entry_moved src c prev (uncertain t1) (hm_get (groups t1) g)" by auto
    have "hm_get (groups tr') g = hm_get (groups t1) g"
      using IH own(1) d(2) by (force simp: image_iff)
    with step IH own gp entry_moved_mono [OF own(2), of "uncertain tr'"] show ?thesis by auto
  qed
qed simp

lemma advance_member_frame:
  "processes (advance_member src on_macos c now m tr) = processes tr
   \<and> groups (advance_member src on_macos c now m tr) = groups tr
   \<and> incomplete_scans (advance_member src on_macos c now m tr) = incomplete_scans tr
   \<and> (uncertain tr \<longrightarrow> uncertain (advance_member src on_macos c now m tr))"
proof -
  obtain n t1 where n: "tr_now src now tr = (n, t1)" by force
  obtain s sg short where ns: "next_signal c (hm_get (members t1) m) n (cl_deadline c \<le> n) = (s, sg, short)"
    by (metis prod.collapse)
  obtain b t2 where b: "send_checked src on_macos m False (the sg) t1 = (b, t2)" by force
  obtain s3 t3 where a: "after_signal src c s n t2 = (s3, t3)" by force
  have m: "members t1 = members tr" using book_now [OF n] bookD(3) by blast
  have "book t1 = book tr" "book t2 = book tr" "book t3 = book tr"
    "uncertain tr \<longrightarrow> uncertain t1 \<and> uncertain t2 \<and> uncertain t3"
    using book_now [OF n] book_send_checked [OF b] book_after_signal [OF a] by auto
  then show ?thesis using n ns [unfolded m] b a bookD(1,2,6)
    by (cases sg) (auto simp: advance_member_def Let_def set_member_def fail_def)
qed

lemma advance_members_frame:
  "processes (fold (advance_member src on_macos c now) ms tr) = processes tr
   \<and> groups (fold (advance_member src on_macos c now) ms tr) = groups tr
   \<and> incomplete_scans (fold (advance_member src on_macos c now) ms tr) = incomplete_scans tr
   \<and> (uncertain tr \<longrightarrow> uncertain (fold (advance_member src on_macos c now) ms tr))"
proof (induction ms arbitrary: tr)
  case (Cons m ms)
  show ?case
    using Cons [of "advance_member src on_macos c now m tr"] advance_member_frame [of src on_macos c now m tr]
    by simp
qed simp

text \<open>The whole pass, field by field.\<close>

lemma advance_result:
  assumes "cleanup tr = Some c" "hm_ok (groups tr)" "advance src on_macos now tr = (pr, tr')"
  defines "force \<equiv> cl_deadline c \<le> now"
    and "idle \<equiv> (if live_identities tr = [] \<and> incomplete_scans tr = 0 then sat_add (cl_empty_scans c) 1 else 0)"
  shows "processes tr' = processes tr \<and> incomplete_scans tr' = incomplete_scans tr
    \<and> cleanup tr' = Some (c\<lparr>cl_empty_scans := idle\<rparr>)
    \<and> (done_now pr \<longleftrightarrow> 2 \<le> idle \<or> force)
    \<and> (confirmed pr \<longleftrightarrow> done_now pr \<and> live_identities tr = [] \<and> \<not> uncertain tr')
    \<and> (uncertain tr \<or> force \<and> (live_identities tr \<noteq> [] \<or> 0 < incomplete_scans tr) \<longrightarrow> uncertain tr')
    \<and> (hm_get (groups tr') g = hm_get (groups tr) g
       \<or> (\<exists>previous. hm_get (groups tr) g = Some previous
            \<and> entry_moved src c previous (uncertain tr') (hm_get (groups tr') g)))"
proof -
  let ?live = "live_identities tr"
  obtain t1 cov where t1: "fold (advance_group src on_macos c now ?live) (groups tr) (tr, []) = (t1, cov)" by force
  have d: "distinct (map fst (groups tr))" using assms(2) by (simp add: hm_ok_def)
  note G = advance_groups_entry [OF d t1, of g]
  define t2 where "t2 = fold (advance_member src on_macos c now) (filter (\<lambda>m. pid m \<notin> set cov) ?live) t1"
  note M = advance_members_frame [of src on_macos c now "filter (\<lambda>m. pid m \<notin> set cov) ?live" t1, folded t2_def]
  have "advance_verdict c now ?live t2 = (pr, tr')"
    using assms(1,3) t1 by (simp add: advance_def t2_def Let_def)
  moreover have inc: "incomplete_scans t2 = incomplete_scans tr"
    using G [THEN conjunct2, THEN conjunct2, THEN conjunct1] M by simp
  ultimately have tr': "tr' = t2\<lparr>cleanup := Some (c\<lparr>cl_empty_scans := idle\<rparr>),
      uncertain := uncertain t2 \<or> force \<and> (?live \<noteq> [] \<or> 0 < incomplete_scans tr)\<rparr>"
    and pr: "done_now pr = (2 \<le> idle \<or> force)"
      "confirmed pr = (done_now pr \<and> ?live = [] \<and> \<not> (uncertain t2 \<or> force \<and> (?live \<noteq> [] \<or> 0 < incomplete_scans tr)))"
    unfolding advance_verdict_def Let_def force_def idle_def prod.inject
    by (clarsimp simp only: inc simp_thms progress.select_convs)+
  then have pr2: "confirmed pr = (done_now pr \<and> ?live = [] \<and> \<not> uncertain tr')" by simp
  have unc: "uncertain tr \<longrightarrow> uncertain t2" "uncertain t2 \<longrightarrow> uncertain tr'" using G M by (auto simp: tr')
  have mv: "hm_get (groups tr') g = hm_get (groups tr) g
       \<or> (\<exists>previous. (g, previous) \<in> set (groups tr)
            \<and> entry_moved src c previous (uncertain tr') (hm_get (groups tr') g))"
  proof -
    have gs: "groups tr' = groups t1" using M by (simp add: tr')
    have u: "uncertain t1 \<longrightarrow> uncertain tr'" using M by (simp add: tr')
    from G gs u entry_moved_mono [where v = "uncertain tr'"] show ?thesis by metis
  qed
  then have mv': "hm_get (groups tr') g = hm_get (groups tr) g
       \<or> (\<exists>previous. hm_get (groups tr) g = Some previous
            \<and> entry_moved src c previous (uncertain tr') (hm_get (groups tr') g))"
    using d by (metis map_of_is_SomeI)
  have "processes tr' = processes tr" "incomplete_scans tr' = incomplete_scans tr"
    "cleanup tr' = Some (c\<lparr>cl_empty_scans := idle\<rparr>)" using G M by (simp_all add: tr')
  moreover have "uncertain tr \<or> force \<and> (?live \<noteq> [] \<or> 0 < incomplete_scans tr) \<longrightarrow> uncertain tr'"
    using unc by (auto simp: tr')
  ultimately show ?thesis using pr(1) pr2 mv' by blast
qed

section \<open>Properties\<close>


definition sample_tracker :: "((u32, process_record) hash_map \<times> src_event list) tracker" where
  "sample_tracker = begin_cleanup 0 None 100
     (with_source (sample_table, []) True (sample_identity 10 10) (sample_identity 20 20))"


text \<open>C14: Cleanup is confirmed only on evidence: when \<open>advance\<close> reports \<open>confirmed\<close> it is done, no
  tracked process is alive, the last scan was complete, and nothing was ever left in doubt.\<close>

theorem confirmed_cleanup:
  assumes "hm_ok (groups tr)" "advance src on_macos now tr = (pr, tr')" "confirmed pr"
  shows "done_now pr \<and> live_identities tr' = [] \<and> incomplete_scans tr' = 0 \<and> \<not> uncertain tr \<and> \<not> uncertain tr'"
proof -
  obtain c where c: "cleanup tr = Some c"
    using assms(2,3) by (cases "cleanup tr") (auto simp: advance_def)
  note R = advance_result [OF c assms(1,2), of undefined]
  have live: "live_identities tr' = live_identities tr" using R by (simp add: live_identities_def)
  have "incomplete_scans tr = 0"
  proof (rule ccontr)
    assume "incomplete_scans tr \<noteq> 0"
    then have "\<not> (live_identities tr = [] \<and> incomplete_scans tr = 0)" "0 < incomplete_scans tr"
      by (simp_all add: word_gt_0)
    moreover have "\<not> 2 \<le> (0 :: u8)" by simp
    ultimately show False using R assms(3) by presburger
  qed
  with R assms(3) live show ?thesis by auto
qed

text \<open>A tracker with nothing left, one empty scan into its cleanup.\<close>

definition empty_tracker :: "(u32, process_record) hash_map tracker" where
  "empty_tracker = (tracker_empty [] True (sample_identity 10 10) 20)
     \<lparr>cleanup := Some \<lparr>cl_interrupt = None, cl_term = 100, cl_deadline = 600, cl_empty_scans = 1\<rparr>\<rparr>"

lemma advance_empty_tracker:
  "advance fake_source False 50 empty_tracker = (\<lparr>done_now = True, confirmed = True\<rparr>,
     empty_tracker\<lparr>cleanup := Some \<lparr>cl_interrupt = None, cl_term = 100, cl_deadline = 600, cl_empty_scans = 2\<rparr>\<rparr>)"
  by (simp add: advance_def empty_tracker_def tracker_empty_def live_identities_def advance_verdict_def
      Let_def sat_add_def)

theorem confirmed_cleanup_witness:
  "done_now (fst (advance fake_source False 50 empty_tracker)) \<and> \<not> uncertain empty_tracker"
  using confirmed_cleanup [OF _ advance_empty_tracker]
  by (simp add: advance_empty_tracker) (simp add: empty_tracker_def tracker_empty_def hm_ok_def)




text \<open>A tracker whose root was sent SIGTERM with a grace until 450.\<close>

definition terminating_tracker :: "(u32, process_record) hash_map tracker" where
  "terminating_tracker = set_group (sample_identity 20 20) \<lparr>seq_phase = Terminate, seq_next = 450\<rparr>
     (begin_cleanup 350 None 100 (with_source sample_table True (sample_identity 10 10) (sample_identity 20 20)))"


lemma finish_scan_clean:
  assumes "finish_scan src on_macos tr = (True, tr')"
  shows "live_identities tr' = [] \<and> incomplete_scans tr' = 0 \<and> \<not> uncertain tr \<and> \<not> uncertain tr'"
proof -
  define t where "t = scan src tr"
  let ?kill = "\<lambda>m tr. snd (send_checked src on_macos m False SIGKILL tr)"
  have sticky: "uncertain (fold ?kill ms u)" if "uncertain u" for ms u
    using that
  proof (induction ms arbitrary: u)
    case (Cons m ms)
    have "uncertain (?kill m u)" using book_send_checked Cons.prems by (metis prod.collapse)
    from Cons.IH [OF this] show ?case by simp
  qed simp
  have "live_identities t = []"
  proof (rule ccontr)
    assume "live_identities t \<noteq> []"
    with assms have "\<not> uncertain (fold ?kill (live_identities t) (fail t))"
      unfolding finish_scan_def t_def [symmetric] Let_def by (auto split: if_splits)
    with sticky [of "fail t"] show False by (simp add: fail_def)
  qed
  with assms have "tr' = t" "\<not> uncertain t" "incomplete_scans t = 0"
    unfolding finish_scan_def t_def [symmetric] Let_def by auto
  moreover have "\<not> uncertain tr" using \<open>\<not> uncertain t\<close> uncertain_scan unfolding t_def by blast
  ultimately show ?thesis using \<open>live_identities t = []\<close> by simp
qed

text \<open>The last scan has the last word: \<open>finish_scan\<close> vouches for the cleanup only when that scan
  was complete, found no live process, and nothing was in doubt before it.\<close>

theorem finish_scan_evidence:
  assumes "finish_scan src on_macos tr = (True, tr')"
  shows "live_identities tr' = [] \<and> incomplete_scans tr' = 0 \<and> \<not> uncertain tr \<and> \<not> uncertain tr'"
  using assms by (rule finish_scan_clean)

theorem finish_scan_evidence_witness:
  "live_identities (snd (finish_scan fake_source False (tracker_empty [] False (sample_identity 10 10) 20))) = []"
proof -
  have "scan fake_source (tracker_empty [] False (sample_identity 10 10) 20) = tracker_empty [] False (sample_identity 10 10) 20"
    by (simp add: scan_def discover_def scan_start_def tracker_empty_def scan_loop.simps scan_root_group_def
        retire_def hm_retain_def Let_def MAX_INCOMPLETE_SCANS_def)
  then have run: "finish_scan fake_source False (tracker_empty [] False (sample_identity 10 10) 20)
      = (True, tracker_empty [] False (sample_identity 10 10) 20)"
    by (simp add: finish_scan_def live_identities_def tracker_empty_def Let_def)
  from finish_scan_evidence [OF this] run show ?thesis by simp
qed

text \<open>Tracking is bounded: whatever is discovered, the groups retained never exceed the limit
  through a scan, a pass of cleanup and the final scan.\<close>

theorem groups_bounded:
  assumes "length (groups tr) \<le> group_limit tr"
  shows "length (groups (scan src tr)) \<le> group_limit (scan src tr)
    \<and> length (groups (snd (advance src on_macos now tr))) \<le> group_limit (snd (advance src on_macos now tr))
    \<and> length (groups (snd (finish_scan src on_macos tr))) \<le> group_limit (snd (finish_scan src on_macos tr))"
proof -
  have ok: "groups_ok tr" using assms by (simp add: groups_ok_def)
  have "groups_ok (scan src tr)" "groups_ok (snd (advance src on_macos now tr))"
    "groups_ok (snd (finish_scan src on_macos tr))"
    using ok by (auto intro: bounded.scan_inv bounded.advance_inv bounded.finish_scan_inv)
  then show ?thesis by (simp add: groups_ok_def)
qed

theorem groups_bounded_witness:
  "length (groups (scan fake_source terminating_tracker)) \<le> group_limit (scan fake_source terminating_tracker)"
  using groups_bounded [of terminating_tracker fake_source]
  by (simp add: terminating_tracker_def set_group_def begin_cleanup_def with_source_def tracker_empty_def
      Let_def MAX_GROUPS_def)

text \<open>C27: Trackers stay well formed: through a scan, a pass of cleanup and the final scan no pid, group or
  member is held twice, and only identities that lead their group are tracked as groups or wait to
  be announced to the BEAM.\<close>

theorem tracker_stays_well_formed:
  assumes "well_formed tr"
  shows "well_formed (scan src tr) \<and> well_formed (snd (advance src on_macos now tr))
    \<and> well_formed (snd (finish_scan src on_macos tr)) \<and> (\<forall>g\<in>set (fst (take_new_groups (scan src tr))). pid g = pgid g)"
proof -
  have "well_formed (scan src tr)" using assms by (rule formed.scan_inv)
  moreover have "well_formed (snd (advance src on_macos now tr))"
    using assms by (rule formed.advance_inv) simp_all
  moreover have "well_formed (snd (finish_scan src on_macos tr))"
    using assms by (rule formed.finish_scan_inv) simp
  moreover have "\<forall>g\<in>set (fst (take_new_groups (scan src tr))). pid g = pgid g"
    using \<open>well_formed (scan src tr)\<close> unfolding well_formed_def take_new_groups_def fst_conv by blast
  ultimately show ?thesis by blast
qed

theorem tracker_stays_well_formed_witness:
  "well_formed (scan fake_source (with_source sample_table True (sample_identity 10 10) (sample_identity 20 20)))"
proof -
  have "well_formed (with_source sample_table True (sample_identity 10 10) (sample_identity 20 20))"
    unfolding well_formed_def with_source_def tracker_empty_def Let_def by (simp add: hm_ok_def sample_identity_def)
  from tracker_stays_well_formed [OF this, THEN conjunct1] show ?thesis .
qed

end
