(* ===== verification/SuperviseTracked.thy ===== *)
theory SuperviseTracked
  imports Supervise Escalation
begin

text \<open>
  The event loop with descendant tracking, \<open>supervise_tracked\<close> of
  \<open>native/forcola_shim/src/supervisor.rs\<close>. The tracker owns the world all calls act on. The channel
  to the thread that writes TRACKED frames is an operation of a parameter, as are the reaping of
  the root and the delivery of the last frame; a receive that times out sleeps for its timeout.
\<close>

section \<open>The system and the loop's state\<close>

datatype try_send = SentOk | SendFull | SendDisconnected

record 'w track_os =
  tk_sup :: "'w sup_os"
  tk_source :: "'w source"
  tk_on_macos :: bool
  tk_scope :: string
  tk_encode :: "process_identity \<Rightarrow> bytes option"
  tk_try_send :: "frame \<Rightarrow> 'w \<Rightarrow> try_send \<times> 'w"
  tk_kill_child :: "'w \<Rightarrow> 'w"
  tk_delivered :: "'w \<Rightarrow> bool \<times> 'w"

record 'w track_state =
  ts_tracker :: "'w tracker"
  ts_timed_out :: bool
  ts_beam_gone :: bool
  ts_discard_output :: bool
  ts_outcome :: "child_outcome option"
  ts_next_scan :: nat
  ts_history_truncated :: bool

abbreviation ts_world :: "'w track_state \<Rightarrow> 'w" where
  "ts_world ts \<equiv> world (ts_tracker ts)"

definition set_world :: "'w \<Rightarrow> 'w track_state \<Rightarrow> 'w track_state" where
  "set_world w ts = ts\<lparr>ts_tracker := (ts_tracker ts)\<lparr>world := w\<rparr>\<rparr>"

text \<open>A call on the world, and one on the tracker.\<close>

definition on_world :: "('w \<Rightarrow> 'r \<times> 'w) \<Rightarrow> 'w track_state \<Rightarrow> 'r \<times> 'w track_state" where
  "on_world f ts = (let (r, w) = f (ts_world ts) in (r, set_world w ts))"

definition on_tracker :: "('w tracker \<Rightarrow> 'r \<times> 'w tracker) \<Rightarrow> 'w track_state \<Rightarrow> 'r \<times> 'w track_state" where
  "on_tracker f ts = (let (r, tr) = f (ts_tracker ts) in (r, ts\<lparr>ts_tracker := tr\<rparr>))"

abbreviation ts_now :: "'w track_os \<Rightarrow> 'w track_state \<Rightarrow> nat \<times> 'w track_state" where
  "ts_now os \<equiv> on_world (po_now (su_proc (tk_sup os)))"

definition start_cleanup :: "session \<Rightarrow> nat \<Rightarrow> 'w track_state \<Rightarrow> 'w track_state" where
  "start_cleanup se now ts =
     ts\<lparr>ts_tracker := begin_cleanup now (se_interrupt_grace se) (se_kill_grace se) (ts_tracker ts)\<rparr>"

section \<open>A pass of the loop\<close>

definition check_peer :: "'w track_os \<Rightarrow> session \<Rightarrow> nat \<Rightarrow> 'w track_state \<Rightarrow> 'w track_state" where
  "check_peer os se now ts =
     (if ts_beam_gone ts then ts
      else case on_world (peer_disconnected (tk_sup os) se) ts of
        (gone, ts) \<Rightarrow>
          if gone then start_cleanup se now (ts\<lparr>ts_beam_gone := True, ts_discard_output := True\<rparr>) else ts)"

text \<open>One newly found group, for the history of the BEAM.\<close>

definition publish_group :: "'w track_os \<Rightarrow> process_identity \<Rightarrow> 'w track_state \<Rightarrow> 'w track_state" where
  "publish_group os g ts =
     (if ts_beam_gone ts then ts
      else case tk_encode os g of
        None \<Rightarrow> ts\<lparr>ts_tracker := fail (ts_tracker ts)\<rparr>
      | Some bytes \<Rightarrow>
          (case on_world (tk_try_send os (new_frame TAG_TRACKED bytes)) ts of
             (SentOk, ts) \<Rightarrow> ts
           | (SendFull, ts) \<Rightarrow> ts\<lparr>ts_history_truncated := True\<rparr>
           | (SendDisconnected, ts) \<Rightarrow> ts\<lparr>ts_tracker := fail (ts_tracker ts), ts_beam_gone := True\<rparr>))"

definition discover_groups :: "'w track_os \<Rightarrow> 'w track_state \<Rightarrow> 'w track_state" where
  "discover_groups os ts =
     (let ts = ts\<lparr>ts_tracker := scan (tk_source os) (ts_tracker ts)\<rparr>;
          (found, ts) = on_tracker take_new_groups ts in
      fold (publish_group os) found ts)"

definition cancel_credits :: "'w track_os \<Rightarrow> session \<Rightarrow> 'w track_state \<Rightarrow> 'w track_state" where
  "cancel_credits os se ts = set_world (on_credits (tk_sup os) se OpCancel (ts_world ts)) ts"

text \<open>The cleanup of a pass; \<open>Some confirmed\<close> ends the loop.\<close>

definition cleanup_pass :: "'w track_os \<Rightarrow> session \<Rightarrow> nat \<Rightarrow> 'w track_state \<Rightarrow> bool option \<times> 'w track_state" where
  "cleanup_pass os se now ts =
     (let ts = (if uncertain (ts_tracker ts) \<and> \<not> cleaning (ts_tracker ts)
                then start_cleanup se now (ts\<lparr>ts_discard_output := True\<rparr>) else ts) in
      if \<not> cleaning (ts_tracker ts) then (None, ts)
      else
        let ts = set_world (su_close_input (tk_sup os) (ts_world ts)) ts;
            ts = (if ts_discard_output ts then cancel_credits os se ts else ts);
            (pr, ts) = on_tracker (advance (tk_source os) (tk_on_macos os) now) ts in
        if done_now pr \<and> (ts_outcome ts \<noteq> None \<or> expired (ts_tracker ts) now)
        then (Some (confirmed pr \<and> ts_outcome ts \<noteq> None), ts)
        else (None, ts))"

definition tracked_pass :: "'w track_os \<Rightarrow> session \<Rightarrow> nat \<Rightarrow> 'w track_state \<Rightarrow> bool option \<times> 'w track_state" where
  "tracked_pass os se now ts =
     (let ts = discover_groups os (check_peer os se now ts); (now, ts) = ts_now os ts;
          (verdict, ts) = cleanup_pass os se now ts in
      case verdict of
        Some c \<Rightarrow> (Some c, ts)
      | None \<Rightarrow> (let (now, ts) = ts_now os ts in (None, ts\<lparr>ts_next_scan := now + SAMPLE_INTERVAL\<rparr>)))"

section \<open>Events\<close>

definition rescan_now :: "'w track_os \<Rightarrow> 'w track_state \<Rightarrow> 'w track_state" where
  "rescan_now os ts = (let (now, ts) = ts_now os ts in ts\<lparr>ts_next_scan := now\<rparr>)"

text \<open>\<open>begin_cleanup(Instant::now(), ...)\<close> and an immediate scan.\<close>

definition cleanup_now :: "'w track_os \<Rightarrow> session \<Rightarrow> 'w track_state \<Rightarrow> 'w track_state" where
  "cleanup_now os se ts = (let (now, ts) = ts_now os ts in rescan_now os (start_cleanup se now ts))"

definition beam_lost_now :: "'w track_os \<Rightarrow> session \<Rightarrow> 'w track_state \<Rightarrow> 'w track_state" where
  "beam_lost_now os se ts = cleanup_now os se (ts\<lparr>ts_beam_gone := True, ts_discard_output := True\<rparr>)"

fun tracked_event :: "'w track_os \<Rightarrow> session \<Rightarrow> event \<Rightarrow> 'w track_state \<Rightarrow> 'w track_state" where
  "tracked_event os se (StdinFrame f) ts =
     (if tag f = TAG_CREDIT then
        set_world (grant_credit (tk_sup os) se StdoutPipe (payload f) (ts_world ts)) ts
      else if tag f = TAG_STDERR_CREDIT then
        set_world (grant_credit (tk_sup os) se StderrPipe (payload f) (ts_world ts)) ts
      else if tag f = TAG_KILL then
        cleanup_now os se (ts\<lparr>ts_discard_output := ts_discard_output ts \<or> ts_outcome ts = None\<rparr>)
      else ts)"
| "tracked_event os se StdinClosed ts = beam_lost_now os se ts"
| "tracked_event os se (StdinError e) ts = beam_lost_now os se ts"
| "tracked_event os se TrackingWriteFailed ts = beam_lost_now os se ts"
| "tracked_event os se TimedOutEvent ts =
     (if ts_outcome ts = None then
        cleanup_now os se (ts\<lparr>ts_timed_out := True, ts_discard_output := True\<rparr>)
      else ts)"
| "tracked_event os se ChildWaitFailed ts = rescan_now os (ts\<lparr>ts_tracker := fail (ts_tracker ts)\<rparr>)"
| "tracked_event os se (ChildExited outcome) ts = cleanup_now os se (ts\<lparr>ts_outcome := Some outcome\<rparr>)"

text \<open>\<open>recv_timeout\<close> until the next scan.\<close>

definition tracked_receive ::
  "'w track_os \<Rightarrow> session \<Rightarrow> events_rx \<Rightarrow> 'w track_state \<Rightarrow> events_rx \<times> 'w track_state" where
  "tracked_receive os se rx ts =
     (let (now, ts) = ts_now os ts in
      case rx of
        [] \<Rightarrow> ([], beam_lost_now os se ts)
      | Nothing # rx \<Rightarrow> (rx, set_world (po_sleep (su_proc (tk_sup os)) (ts_next_scan ts - now) (ts_world ts)) ts)
      | Got ev # rx \<Rightarrow> (rx, tracked_event os se ev ts))"

partial_function (option) tracked_loop ::
  "'w track_os \<Rightarrow> session \<Rightarrow> events_rx \<Rightarrow> 'w track_state \<Rightarrow> (bool \<times> events_rx \<times> 'w track_state) option" where
  "tracked_loop os se rx ts =
     (case ts_now os ts of
        (now, ts) \<Rightarrow>
          case (if ts_next_scan ts \<le> now then tracked_pass os se now ts else (None, ts)) of
            (verdict, ts) \<Rightarrow>
              if verdict \<noteq> None then Some (the verdict, rx, ts)
              else case tracked_receive os se rx ts of (rx, ts) \<Rightarrow> tracked_loop os se rx ts)"

declare tracked_loop.simps [code]

section \<open>The end of a tracked session\<close>

definition publish_last :: "'w track_os \<Rightarrow> process_identity \<Rightarrow> 'w track_state \<Rightarrow> 'w track_state" where
  "publish_last os g ts =
     (case tk_encode os g of
        None \<Rightarrow> ts
      | Some bytes \<Rightarrow>
          (case on_world (tk_try_send os (new_frame TAG_TRACKED bytes)) ts of
             (r, ts) \<Rightarrow> if r = SentOk then ts else ts\<lparr>ts_history_truncated := True\<rparr>))"

definition drain_tracked ::
  "'w track_os \<Rightarrow> session \<Rightarrow> events_rx \<Rightarrow> 'w track_state \<Rightarrow> ((bool \<times> bool) \<times> events_rx \<times> 'w track_state) option" where
  "drain_tracked os se rx ts =
     (if se_strict_output se \<and> \<not> ts_discard_output ts then
        drain_pumps_strict (tk_sup os) se (se_pumps se) rx (ts_world ts) \<bind>
          (\<lambda>((drained, cancelled, disappeared), rx, w).
             Some ((\<not> drained \<or> cancelled, disappeared), rx, set_world w ts))
      else
        let op = (if ts_discard_output ts then OpCancel else OpUncork);
            ts = set_world (on_credits (tk_sup os) se op (ts_world ts)) ts;
            (drained, ts) = on_world (drain_pumps (tk_sup os) (se_pumps se)) ts in
        Some ((ts_discard_output ts \<or> \<not> drained, False), rx, ts))"

text \<open>Everything up to the verdict on the root and the cgroup.\<close>

definition settle_tracked ::
  "'w track_os \<Rightarrow> session \<Rightarrow> u32 \<Rightarrow> 'w track_state \<Rightarrow>
   ((bool \<times> (io_error + exit_status option) \<times> bool) \<times> 'w track_state) option" where
  "settle_tracked os se child ts =
     (let ts = set_world (su_close_input (tk_sup os) (ts_world ts)) ts;
          (final_confirmed, ts) = on_tracker (finish_scan (tk_source os) (tk_on_macos os)) ts;
          ts = (if ts_outcome ts = None then set_world (tk_kill_child os (ts_world ts)) ts else ts) in
      reap_root (su_proc (tk_sup os)) child CONFIRM_GRACE (ts_world ts) \<bind> (\<lambda>(reaped, w).
      let ts = set_world w ts;
          ts = (case reaped of
            Inr (Some status) \<Rightarrow> ts\<lparr>ts_outcome := Some \<lparr>oc_status = es_code status, oc_signal = es_signal status\<rparr>\<rparr>
          | _ \<Rightarrow> ts) in
      teardown_cgroup (su_proc (tk_sup os)) (se_cgroup se) (se_kill_grace se) (ts_world ts) \<bind> (\<lambda>(cgroup_confirmed, w).
      Some ((final_confirmed, reaped, cgroup_confirmed), set_world w ts))))"

definition finish_tracked ::
  "'w track_os \<Rightarrow> session \<Rightarrow> u32 \<Rightarrow> bool \<Rightarrow> events_rx \<Rightarrow> 'w track_state \<Rightarrow>
   (bool \<times> events_rx \<times> 'w track_state) option" where
  "finish_tracked os se child loop_confirmed rx ts =
     settle_tracked os se child ts \<bind> (\<lambda>((final_confirmed, reaped, cgroup_confirmed), ts).
     if ts_beam_gone ts then Some (True, rx, cancel_credits os se ts)
     else
       let (found, ts) = on_tracker take_new_groups ts; ts = fold (publish_last os) found ts in
       drain_tracked os se rx ts \<bind> (\<lambda>((output_truncated, disappeared), rx, ts).
       if disappeared then Some (True, rx, ts)
       else
         let outcome = (case ts_outcome ts of Some oc \<Rightarrow> oc | None \<Rightarrow> no_outcome);
             report = \<lparr>xr_status = oc_status outcome, xr_signal = oc_signal outcome, xr_timed_out = ts_timed_out ts,
               xr_confirmed = (loop_confirmed \<and> cgroup_confirmed \<and> final_confirmed
                 \<and> (case reaped of Inr (Some status) \<Rightarrow> True | _ \<Rightarrow> False)),
               xr_contained = (se_cgroup se \<noteq> None), xr_output_truncated = output_truncated,
               xr_scope = Some (tk_scope os), xr_tracked_groups_truncated = Some (ts_history_truncated ts)\<rparr>;
             ts = set_world (su_write_exit (tk_sup os) report (ts_world ts)) ts;
             (delivered, ts) = on_world (tk_delivered os) ts in
         Some (\<not> delivered, rx, ts)))"

definition track_start :: "'w tracker \<Rightarrow> nat \<Rightarrow> 'w track_state" where
  "track_start tr now =
     \<lparr>ts_tracker = tr, ts_timed_out = False, ts_beam_gone = False, ts_discard_output = False, ts_outcome = None,
      ts_next_scan = now, ts_history_truncated = False\<rparr>"

definition supervise_tracked ::
  "'w track_os \<Rightarrow> session \<Rightarrow> u32 \<Rightarrow> events_rx \<Rightarrow> 'w tracker \<Rightarrow> (bool \<times> events_rx \<times> 'w track_state) option" where
  "supervise_tracked os se child rx tr =
     (let (now, w) = po_now (su_proc (tk_sup os)) (world tr) in
      tracked_loop os se rx (track_start (tr\<lparr>world := w\<rparr>) now) \<bind>
        (\<lambda>(loop_confirmed, rx, ts). finish_tracked os se child loop_confirmed rx ts))"

text \<open>\<open>supervise\<close> with the choice it starts with; a tracker owns the world.\<close>

definition supervise_child ::
  "'w track_os \<Rightarrow> session \<Rightarrow> u32 \<Rightarrow> events_rx \<Rightarrow> 'w tracker option \<Rightarrow> 'w \<Rightarrow> (bool \<times> events_rx \<times> 'w) option" where
  "supervise_child os se child rx tracker w =
     (case tracker of
        Some tr \<Rightarrow> supervise_tracked os se child rx (tr\<lparr>world := w\<rparr>) \<bind> (\<lambda>(gone, rx, ts). Some (gone, rx, ts_world ts))
      | None \<Rightarrow> supervise (tk_sup os) se rx w)"

section \<open>Invariants of a tracked session\<close>

lemma tr_calls_world:
  "world (snd (tr_read src p tr)) = snd (src_read src p (world tr))"
  "world (snd (tr_children src p tr)) = snd (src_children src p (world tr))"
  "world (snd (tr_group_members src p tr)) = snd (src_group_members src p (world tr))"
  "world (snd (tr_signal src t sg tr)) = snd (src_signal src t sg (world tr))"
  "world (snd (tr_reap src p tr)) = snd (src_reap src p (world tr))"
  "world (snd (tr_now src n tr)) = snd (src_now src n (world tr))"
  by (simp_all add: tr_calls Let_def case_prod_beta)

lemma worlds_kept:
  "world (fail tr) = world tr" "world (add_process p r tr) = world tr" "world (remove_process p tr) = world tr"
  "world (track_group r tr) = world tr" "world (set_group g s tr) = world tr" "world (set_member s m tr) = world tr"
  "world (begin_cleanup n i t tr) = world tr"
  by (simp_all add: fail_def add_process_def remove_process_def track_group_def set_group_def set_member_def
      begin_cleanup_def Let_def)

text \<open>
  What a property of worlds must survive to hold through the calls of a tracker on its source.
\<close>

locale source_world =
  fixes src :: "'w source"
    and P :: "'w \<Rightarrow> bool"
  assumes src_read_inv: "P w \<Longrightarrow> P (snd (src_read src p w))"
    and src_children_inv: "P w \<Longrightarrow> P (snd (src_children src p w))"
    and src_members_inv: "P w \<Longrightarrow> P (snd (src_group_members src g w))"
    and src_signal_inv: "P w \<Longrightarrow> P (snd (src_signal src t sg w))"
    and src_reap_inv: "P w \<Longrightarrow> P (snd (src_reap src p w))"
    and src_now_inv: "P w \<Longrightarrow> P (snd (src_now src n w))"

sublocale source_world \<subseteq> tracked: tracker_ops src "\<lambda>tr. P (world tr)" on_macos UNIV for on_macos
proof unfold_locales
  fix tr :: "'w tracker" and expected grp sg
  assume "P (world tr)"
  have read: "P (world t)" if "tr_read src p tr = (r, t)" for p r t
    using src_read_inv [OF \<open>P (world tr)\<close>, of p] tr_calls_world(1) [of src p tr] that by simp
  have signal: "P (world t')" if "tr_signal src n sg t = (q, t')" "P (world t)" for n t q t'
    using src_signal_inv [OF that(2), of n sg] tr_calls_world(4) [of src n sg t] that(1) by simp
  show "P (world (snd (send_checked src on_macos expected grp sg tr)))"
  proof -
    obtain b tr' where sc: "send_checked src on_macos expected grp sg tr = (b, tr')" by force
    then have "P (world tr')"
      by (cases rule: send_checked_cases) (auto simp: worlds_kept dest: read signal)
    with sc show ?thesis by simp
  qed
qed (simp_all add: tr_calls_world worlds_kept src_read_inv src_children_inv src_members_inv src_reap_inv src_now_inv)

text \<open>
  The same for a tracked session: the contract of an untracked one, that of the source, and the
  calls on the channel and the root.
\<close>

locale track_world = sup_ops "tk_sup os" P + source_world "tk_source os" P
  for os :: "'w track_os" and P :: "'w \<Rightarrow> bool" +
  assumes try_send_inv: "P w \<Longrightarrow> P (snd (tk_try_send os f w))"
    and kill_child_inv: "P w \<Longrightarrow> P (tk_kill_child os w)"
    and delivered_inv: "P w \<Longrightarrow> P (snd (tk_delivered os w))"

lemma set_world_simps [simp]:
  "ts_world (set_world w ts) = w" "ts_outcome (set_world w ts) = ts_outcome ts"
  "ts_beam_gone (set_world w ts) = ts_beam_gone ts" "ts_timed_out (set_world w ts) = ts_timed_out ts"
  "ts_discard_output (set_world w ts) = ts_discard_output ts" "ts_next_scan (set_world w ts) = ts_next_scan ts"
  by (simp_all add: set_world_def)

lemma set_world_same [simp]: "set_world (ts_world ts) ts = ts"
  by (simp add: set_world_def)

context track_world
begin

abbreviation PT :: "'w track_state \<Rightarrow> bool" where
  "PT ts \<equiv> P (ts_world ts)"

lemma on_world_inv: "(\<And>w. P w \<Longrightarrow> P (snd (f w))) \<Longrightarrow> PT ts \<Longrightarrow> PT (snd (on_world f ts))"
  by (simp add: on_world_def Let_def case_prod_beta)

lemma on_world_inv': "on_world f ts = (r, ts') \<Longrightarrow> (\<And>w. P w \<Longrightarrow> P (snd (f w))) \<Longrightarrow> PT ts \<Longrightarrow> PT ts'"
  using on_world_inv [of f ts] by simp

lemma on_tracker_inv:
  "on_tracker f ts = (r, ts') \<Longrightarrow> (\<And>tr. P (world tr) \<Longrightarrow> P (world (snd (f tr)))) \<Longrightarrow> PT ts \<Longrightarrow> PT ts'"
  by (auto simp: on_tracker_def Let_def case_prod_beta)

lemma ts_now_inv: "ts_now os ts = (t, ts') \<Longrightarrow> PT ts \<Longrightarrow> PT ts'"
  by (erule on_world_inv') (rule now_inv)

lemma start_cleanup_inv: "PT ts \<Longrightarrow> PT (start_cleanup se now ts)"
  by (simp add: start_cleanup_def worlds_kept)

lemma check_peer_inv: "PT ts \<Longrightarrow> PT (check_peer os se now ts)"
proof -
  assume P: "PT ts"
  obtain gone ts' where w: "on_world (peer_disconnected (tk_sup os) se) ts = (gone, ts')" by force
  have "PT ts'" using on_world_inv' [OF w peer_disconnected_inv P] .
  then show ?thesis
    using P w by (auto simp: check_peer_def start_cleanup_def worlds_kept)
qed

lemma publish_group_inv: "PT ts \<Longrightarrow> PT (publish_group os g ts)"
proof (cases "tk_encode os g")
  case (Some bytes)
  assume P: "PT ts"
  obtain r ts' where w: "on_world (tk_try_send os (new_frame TAG_TRACKED bytes)) ts = (r, ts')" by force
  have "PT ts'" using on_world_inv' [OF w try_send_inv P] .
  with P Some w show ?thesis by (cases r) (auto simp: publish_group_def worlds_kept)
qed (simp add: publish_group_def worlds_kept)

lemma fold_publish_inv: "PT ts \<Longrightarrow> PT (fold (publish_group os) gs ts)"
  by (induction gs arbitrary: ts) (simp_all add: publish_group_inv)

lemma discover_groups_inv: "PT ts \<Longrightarrow> PT (discover_groups os ts)"
  by (simp add: discover_groups_def on_tracker_def take_new_groups_def Let_def fold_publish_inv tracked.scan_inv)

lemma cleanup_pass_inv: "PT ts \<Longrightarrow> PT (snd (cleanup_pass os se now ts))"
proof -
  assume P: "PT ts"
  have adv: "P (world (snd (advance (tk_source os) (tk_on_macos os) now tr)))" if "P (world tr)" for tr
    using that by (rule tracked.advance_inv) simp_all
  define t1 where "t1 = (if uncertain (ts_tracker ts) \<and> \<not> cleaning (ts_tracker ts)
                then start_cleanup se now (ts\<lparr>ts_discard_output := True\<rparr>) else ts)"
  have P1: "PT t1" using P by (simp add: t1_def start_cleanup_inv)
  define t2 where "t2 = set_world (su_close_input (tk_sup os) (ts_world t1)) t1"
  define t3 where "t3 = (if ts_discard_output t2 then cancel_credits os se t2 else t2)"
  have "PT t3" using P1 by (simp add: t3_def t2_def cancel_credits_def close_input_inv on_credits_inv)
  then have "PT (snd (on_tracker (advance (tk_source os) (tk_on_macos os) now) t3))"
    using adv [of "ts_tracker t3"] by (simp add: on_tracker_def Let_def case_prod_beta)
  with P1 show ?thesis
    unfolding cleanup_pass_def Let_def t1_def [symmetric] t2_def [symmetric] t3_def [symmetric]
    by (simp add: case_prod_beta)
qed

lemma tracked_pass_inv: "PT ts \<Longrightarrow> PT (snd (tracked_pass os se now ts))"
proof -
  assume P: "PT ts"
  obtain now1 t1 where t1: "ts_now os (discover_groups os (check_peer os se now ts)) = (now1, t1)" by force
  have P1: "PT t1" by (rule ts_now_inv [OF t1 discover_groups_inv [OF check_peer_inv [OF P]]])
  obtain v t2 where t2: "cleanup_pass os se now1 t1 = (v, t2)" by force
  have P2: "PT t2" using cleanup_pass_inv [OF P1, of se now1] t2 by simp
  obtain now2 t3 where t3: "ts_now os t2 = (now2, t3)" by force
  have "PT t3" by (rule ts_now_inv [OF t3 P2])
  with P2 t1 t2 t3 show ?thesis by (auto simp: tracked_pass_def split: option.splits)
qed

lemma rescan_now_inv: "PT ts \<Longrightarrow> PT (rescan_now os ts)"
  by (auto simp: rescan_now_def Let_def split: prod.splits dest: ts_now_inv)

lemma cleanup_now_inv: "PT ts \<Longrightarrow> PT (cleanup_now os se ts)"
  by (auto simp: cleanup_now_def Let_def split: prod.splits dest: ts_now_inv intro!: rescan_now_inv start_cleanup_inv)

lemma beam_lost_now_inv: "PT ts \<Longrightarrow> PT (beam_lost_now os se ts)"
  by (simp add: beam_lost_now_def cleanup_now_inv)

lemma tracked_event_inv: "PT ts \<Longrightarrow> PT (tracked_event os se ev ts)"
  by (cases ev) (simp_all add: grant_credit_inv cleanup_now_inv beam_lost_now_inv rescan_now_inv worlds_kept)

lemma tracked_receive_inv: "tracked_receive os se rx ts = (rx', ts') \<Longrightarrow> PT ts \<Longrightarrow> PT ts'"
proof -
  assume r: "tracked_receive os se rx ts = (rx', ts')" and P: "PT ts"
  obtain now t1 where t1: "ts_now os ts = (now, t1)" by force
  have "PT t1" by (rule ts_now_inv [OF t1 P])
  with r t1 show ?thesis
    by (auto simp: tracked_receive_def sleep_inv tracked_event_inv beam_lost_now_inv split: list.splits received.splits)
qed

lemma reap_inv: "reap_root (su_proc (tk_sup os)) child grace w = Some (r, w') \<Longrightarrow> P w \<Longrightarrow> P w'"
  by (rule reap_root_inv)

lemma publish_last_inv: "PT ts \<Longrightarrow> PT (publish_last os g ts)"
proof (cases "tk_encode os g")
  case (Some bytes)
  assume P: "PT ts"
  obtain r ts' where w: "on_world (tk_try_send os (new_frame TAG_TRACKED bytes)) ts = (r, ts')" by force
  have "PT ts'" using on_world_inv' [OF w try_send_inv P] .
  with Some w show ?thesis by (simp add: publish_last_def)
qed (simp add: publish_last_def)

lemma fold_publish_last_inv: "PT ts \<Longrightarrow> PT (fold (publish_last os) gs ts)"
  by (induction gs arbitrary: ts) (simp_all add: publish_last_inv)

lemma drain_tracked_inv:
  assumes "drain_tracked os se rx ts = Some (res, rx', ts')" "PT ts"
  shows "PT ts'"
proof (cases "se_strict_output se \<and> \<not> ts_discard_output ts")
  case True
  with assms show ?thesis by (auto simp: drain_tracked_def split: bind_splits dest: drain_strict_inv)
next
  case False
  define t1 where "t1 = set_world (on_credits (tk_sup os) se (if ts_discard_output ts then OpCancel else OpUncork) (ts_world ts)) ts"
  have "PT t1" using assms(2) by (simp add: t1_def on_credits_inv)
  then have "PT (snd (on_world (drain_pumps (tk_sup os) (se_pumps se)) t1))"
    using on_world_inv [of "drain_pumps (tk_sup os) (se_pumps se)" t1] drain_pumps_inv by blast
  moreover have "snd (on_world (drain_pumps (tk_sup os) (se_pumps se)) t1) = ts'"
    using assms(1) False by (auto simp: drain_tracked_def Let_def t1_def [symmetric] split: prod.splits)
  ultimately show ?thesis by simp
qed

lemma settle_tracked_inv:
  assumes "settle_tracked os se child ts = Some (r, ts')" "PT ts"
  shows "PT ts'"
proof -
  define t1 where "t1 = set_world (su_close_input (tk_sup os) (ts_world ts)) ts"
  obtain fc t2 where t2: "on_tracker (finish_scan (tk_source os) (tk_on_macos os)) t1 = (fc, t2)" by force
  have "PT t1" using assms(2) by (simp add: t1_def close_input_inv)
  moreover have "P (world (snd (finish_scan (tk_source os) (tk_on_macos os) tr)))" if "P (world tr)" for tr
    using that by (rule tracked.finish_scan_inv) simp_all
  ultimately have P2: "PT t2" using on_tracker_inv [OF t2] by blast
  define t3 where "t3 = (if ts_outcome t2 = None then set_world (tk_kill_child os (ts_world t2)) t2 else t2)"
  have P3: "PT t3" using P2 by (simp add: t3_def kill_child_inv)
  from assms(1) obtain reaped w cc w' where
    reap: "reap_root (su_proc (tk_sup os)) child CONFIRM_GRACE (ts_world t3) = Some (reaped, w)"
    and cg: "teardown_cgroup (su_proc (tk_sup os)) (se_cgroup se) (se_kill_grace se) w = Some (cc, w')"
    and ts': "ts_world ts' = w'"
    by (auto simp: settle_tracked_def Let_def t1_def [symmetric] t2 t3_def [symmetric]
        split: bind_splits sum.splits option.splits)
  from reap_inv [OF reap P3] have "P w" .
  from teardown_inv [OF cg this] ts' show ?thesis by simp
qed

end

section \<open>The flags of the loop\<close>

text \<open>Doubt is never taken back, a session that timed out discards its output, and it is cleaning up
  then, as it is once the child has exited.\<close>

definition loop_ok :: "bool \<Rightarrow> 'w track_state \<Rightarrow> bool" where
  "loop_ok doubt ts \<longleftrightarrow>
     (doubt \<longrightarrow> uncertain (ts_tracker ts))
     \<and> (ts_timed_out ts \<longrightarrow> ts_discard_output ts \<and> cleaning (ts_tracker ts))
     \<and> (ts_outcome ts \<noteq> None \<longrightarrow> cleaning (ts_tracker ts))"

lemma loop_ok_set_world [simp]: "loop_ok d (set_world w ts) = loop_ok d ts"
  by (simp add: loop_ok_def set_world_def cleaning_def)

lemma loop_ok_on_world: "on_world f ts = (r, ts') \<Longrightarrow> loop_ok d ts' = loop_ok d ts"
  by (auto simp: on_world_def Let_def split: prod.splits)

lemma loop_ok_next_scan [simp]: "loop_ok d (ts\<lparr>ts_next_scan := n\<rparr>) = loop_ok d ts"
  by (simp add: loop_ok_def)

lemma loop_ok_history [simp]: "loop_ok d (ts\<lparr>ts_history_truncated := h\<rparr>) = loop_ok d ts"
  by (simp add: loop_ok_def)

lemma loop_ok_fail: "loop_ok d ts \<Longrightarrow> loop_ok d (ts\<lparr>ts_tracker := fail (ts_tracker ts)\<rparr>)"
  by (auto simp: loop_ok_def fail_def cleaning_def)

lemma begin_cleanup_flags [simp]:
  "cleaning (begin_cleanup n i t tr)" "uncertain (begin_cleanup n i t tr) = uncertain tr"
  by (simp_all add: begin_cleanup_def cleaning_def Let_def)

lemma start_cleanup_flags [simp]:
  "ts_tracker (start_cleanup se now ts) = begin_cleanup now (se_interrupt_grace se) (se_kill_grace se) (ts_tracker ts)"
  "ts_timed_out (start_cleanup se now ts) = ts_timed_out ts" "ts_beam_gone (start_cleanup se now ts) = ts_beam_gone ts"
  "ts_discard_output (start_cleanup se now ts) = ts_discard_output ts"
  "ts_outcome (start_cleanup se now ts) = ts_outcome ts"
  by (simp_all add: start_cleanup_def)

interpretation begun: tracker_ops src "\<lambda>tr. cleaning tr" on_macos UNIV for src :: "'s source" and on_macos
proof unfold_locales
  fix tr :: "'s tracker" and expected grp sg assume c: "cleaning tr"
  obtain b t where t: "send_checked src on_macos expected grp sg tr = (b, t)" by force
  from book_send_checked [OF t] have "cleanup t = cleanup tr" by (simp add: book_def)
  with c t show "cleaning (snd (send_checked src on_macos expected grp sg tr))" by (simp add: cleaning_def)
qed (auto simp: cleaning_def tr_calls fail_def add_process_def remove_process_def track_group_def set_group_def
    set_member_def Let_def split: prod.splits)

lemma loop_ok_tracker:
  assumes "loop_ok d ts" "uncertain (ts_tracker ts) \<Longrightarrow> uncertain tr" "cleaning (ts_tracker ts) \<Longrightarrow> cleaning tr"
  shows "loop_ok d (ts\<lparr>ts_tracker := tr\<rparr>)"
  using assms by (auto simp: loop_ok_def)

lemma check_peer_ok: "loop_ok d ts \<Longrightarrow> loop_ok d (check_peer os se now ts)"
proof -
  assume ok: "loop_ok d ts"
  obtain gone ts' where w: "on_world (peer_disconnected (tk_sup os) se) ts = (gone, ts')" by force
  have "loop_ok d ts'" using loop_ok_on_world [OF w] ok by simp
  then have "loop_ok d (start_cleanup se now (ts'\<lparr>ts_beam_gone := True, ts_discard_output := True\<rparr>))"
    by (auto simp: loop_ok_def)
  with \<open>loop_ok d ts'\<close> ok w show ?thesis by (simp add: check_peer_def)
qed

lemma publish_group_ok: "loop_ok d ts \<Longrightarrow> loop_ok d (publish_group os g ts)"
proof (cases "tk_encode os g")
  case (Some bytes)
  assume ok: "loop_ok d ts"
  obtain r ts' where w: "on_world (tk_try_send os (new_frame TAG_TRACKED bytes)) ts = (r, ts')" by force
  have ok': "loop_ok d ts'" using loop_ok_on_world [OF w] ok by simp
  then have "loop_ok d (ts'\<lparr>ts_tracker := fail (ts_tracker ts'), ts_beam_gone := True\<rparr>)"
    by (simp add: loop_ok_def fail_def cleaning_def)
  with ok ok' Some w show ?thesis by (cases r) (simp_all add: publish_group_def)
qed (simp add: publish_group_def loop_ok_fail)

lemma publish_groups_ok: "loop_ok d ts \<Longrightarrow> loop_ok d (fold (publish_group os) gs ts)"
  by (induction gs arbitrary: ts) (simp_all add: publish_group_ok)

lemma discover_groups_ok: "loop_ok d ts \<Longrightarrow> loop_ok d (discover_groups os ts)"
proof -
  assume ok: "loop_ok d ts"
  have "loop_ok d (ts\<lparr>ts_tracker := (scan (tk_source os) (ts_tracker ts))\<lparr>pending := []\<rparr>\<rparr>)"
    using uncertain_scan [of "ts_tracker ts" "tk_source os"] begun.scan_inv [of "ts_tracker ts" "tk_source os"]
    by (intro loop_ok_tracker [OF ok]) (simp_all add: cleaning_def)
  from publish_groups_ok [OF this] show ?thesis
    by (simp add: discover_groups_def on_tracker_def take_new_groups_def Let_def)
qed

lemma cleanup_pass_ok:
  assumes "loop_ok d ts" "cleanup_pass os se now ts = (v, ts')"
  shows "loop_ok d ts'
    \<and> (v = Some c \<longrightarrow> cleaning (ts_tracker ts') \<and> (c \<longrightarrow> ts_outcome ts' \<noteq> None))"
proof -
  define t1 where "t1 = (if uncertain (ts_tracker ts) \<and> \<not> cleaning (ts_tracker ts)
                then start_cleanup se now (ts\<lparr>ts_discard_output := True\<rparr>) else ts)"
  have ok1: "loop_ok d t1" using assms(1) by (auto simp: t1_def loop_ok_def)
  show ?thesis
  proof (cases "cleaning (ts_tracker t1)")
    case False
    then have "\<not> uncertain (ts_tracker t1)" by (auto simp: t1_def split: if_splits)
    with False assms(2) ok1 show ?thesis
      by (auto simp: cleanup_pass_def t1_def [symmetric] loop_ok_def)
  next
    case True
    define t2 where "t2 = set_world (su_close_input (tk_sup os) (ts_world t1)) t1"
    define t3 where "t3 = (if ts_discard_output t2 then cancel_credits os se t2 else t2)"
    obtain pr t4 where t4: "on_tracker (advance (tk_source os) (tk_on_macos os) now) t3 = (pr, t4)" by force
    have ok3: "loop_ok d t3" using ok1 by (simp add: t3_def t2_def cancel_credits_def)
    have c3: "cleaning (ts_tracker t3)"
      using True by (simp add: t3_def t2_def cancel_credits_def set_world_def cleaning_def)
    obtain tr4 where adv: "advance (tk_source os) (tk_on_macos os) now (ts_tracker t3) = (pr, tr4)"
      and ts4: "t4 = t3\<lparr>ts_tracker := tr4\<rparr>"
      using t4 by (auto simp: on_tracker_def Let_def split: prod.splits)
    have c4: "cleaning tr4"
      using begun.advance_inv [of "ts_tracker t3" "tk_source os" "tk_on_macos os" now] c3 adv by simp
    have ok4: "loop_ok d t4"
      unfolding ts4 using uncertain_advance [of "ts_tracker t3" "tk_source os" "tk_on_macos os" now] adv c4
      by (intro loop_ok_tracker [OF ok3]) auto
    have "ts' = t4 \<and> (v = None \<or> (\<exists>b. v = Some (b \<and> ts_outcome t4 \<noteq> None)))"
      using assms(2) True t4 unfolding cleanup_pass_def Let_def t1_def [symmetric] t2_def [symmetric] t3_def [symmetric]
      by (auto split: if_splits)
    then show ?thesis using ok4 c4 ts4 by auto
  qed
qed

lemma tracked_pass_ok:
  assumes "loop_ok d ts" "tracked_pass os se now ts = (v, ts')"
  shows "loop_ok d ts' \<and> (v = Some c \<longrightarrow> cleaning (ts_tracker ts') \<and> (c \<longrightarrow> ts_outcome ts' \<noteq> None))"
proof -
  obtain now1 t1 where t1: "ts_now os (discover_groups os (check_peer os se now ts)) = (now1, t1)" by force
  have ok1: "loop_ok d t1" using loop_ok_on_world [OF t1] discover_groups_ok check_peer_ok assms(1) by blast
  obtain v' t2 where t2: "cleanup_pass os se now1 t1 = (v', t2)" by force
  note ok2 = cleanup_pass_ok [OF ok1 t2]
  obtain now2 t3 where t3: "ts_now os t2 = (now2, t3)" by force
  have "loop_ok d t3" using loop_ok_on_world [OF t3] ok2 by blast
  with ok2 assms(2) t1 t2 t3 show ?thesis by (cases v') (auto simp: tracked_pass_def Let_def)
qed

lemma rescan_now_ok: "loop_ok d (rescan_now os ts) = loop_ok d ts"
proof -
  obtain t ts' where "ts_now os ts = (t, ts')" by force
  from loop_ok_on_world [OF this] this show ?thesis by (simp add: rescan_now_def)
qed

text \<open>What starts a cleanup keeps the flags in order, given they are once it is started.\<close>

lemma cleanup_now_ok:
  assumes "\<And>w now. loop_ok d (start_cleanup se now (set_world w ts))"
  shows "loop_ok d (cleanup_now os se ts)"
proof -
  obtain t ts' where n: "ts_now os ts = (t, ts')" by force
  then obtain w where "ts' = set_world w ts" by (auto simp: on_world_def Let_def split: prod.splits)
  with n assms [of t w] show ?thesis by (simp add: cleanup_now_def rescan_now_ok)
qed

lemma beam_lost_now_ok: "loop_ok d ts \<Longrightarrow> loop_ok d (beam_lost_now os se ts)"
  unfolding beam_lost_now_def by (rule cleanup_now_ok) (auto simp: loop_ok_def set_world_def)

lemma tracked_event_ok: "loop_ok d ts \<Longrightarrow> loop_ok d (tracked_event os se ev ts)"
proof (cases ev)
  case (StdinFrame f)
  assume ok: "loop_ok d ts"
  have "loop_ok d (cleanup_now os se (ts\<lparr>ts_discard_output := ts_discard_output ts \<or> ts_outcome ts = None\<rparr>))"
    by (rule cleanup_now_ok) (use ok in \<open>auto simp: loop_ok_def set_world_def\<close>)
  with ok StdinFrame show ?thesis by simp
next
  case TimedOutEvent
  assume ok: "loop_ok d ts"
  have "loop_ok d (cleanup_now os se (ts\<lparr>ts_timed_out := True, ts_discard_output := True\<rparr>))"
    by (rule cleanup_now_ok) (use ok in \<open>auto simp: loop_ok_def set_world_def\<close>)
  with ok TimedOutEvent show ?thesis by simp
next
  case (ChildExited oc)
  assume ok: "loop_ok d ts"
  have "loop_ok d (cleanup_now os se (ts\<lparr>ts_outcome := Some oc\<rparr>))"
    by (rule cleanup_now_ok) (use ok in \<open>auto simp: loop_ok_def set_world_def\<close>)
  with ChildExited show ?thesis by simp
qed (simp_all add: beam_lost_now_ok rescan_now_ok loop_ok_fail)

lemma tracked_receive_ok: "tracked_receive os se rx ts = (rx', ts') \<Longrightarrow> loop_ok d ts \<Longrightarrow> loop_ok d ts'"
proof -
  assume r: "tracked_receive os se rx ts = (rx', ts')" and ok: "loop_ok d ts"
  obtain now t1 where t1: "ts_now os ts = (now, t1)" by force
  have "loop_ok d t1" using loop_ok_on_world [OF t1] ok by simp
  with r t1 show ?thesis
    by (auto simp: tracked_receive_def tracked_event_ok beam_lost_now_ok split: list.splits received.splits)
qed

text \<open>What every step of the loop keeps holds of the state its last pass starts in.\<close>

lemma tracked_loop_rule:
  assumes "tracked_loop os se rx ts = Some (c, rx', ts')" "I ts"
    and "\<And>t ts ts'. I ts \<Longrightarrow> ts_now os ts = (t, ts') \<Longrightarrow> I ts'"
    and "\<And>now ts ts'. I ts \<Longrightarrow> tracked_pass os se now ts = (None, ts') \<Longrightarrow> I ts'"
    and "\<And>rx ts rx' ts'. I ts \<Longrightarrow> tracked_receive os se rx ts = (rx', ts') \<Longrightarrow> I ts'"
  shows "\<exists>now ts0. I ts0 \<and> tracked_pass os se now ts0 = (Some c, ts')"
proof -
  have "os' = os \<Longrightarrow> se' = se \<Longrightarrow> I ts \<Longrightarrow> \<exists>now ts0. I ts0 \<and> tracked_pass os se now ts0 = (Some (fst y), snd (snd y))"
    if "tracked_loop os' se' rx ts = Some y" for os' se' y
    using that
  proof (induction rule: tracked_loop.raw_induct [rotated 1, consumes 1, case_names step])
    case (step again os' se' rx ts y)
    obtain now t1 where t1: "ts_now os ts = (now, t1)" by force
    have I1: "I t1" using assms(3) [OF step(5) t1] .
    obtain v t2 where v: "(if ts_next_scan t1 \<le> now then tracked_pass os se now t1 else (None, t1)) = (v, t2)" by force
    show ?case
    proof (cases v)
      case None
      obtain rx3 t3 where r: "tracked_receive os se rx t2 = (rx3, t3)" by force
      have "I t2" using v None I1 assms(4) [OF I1] by (auto split: if_splits)
      then have "I t3" using assms(5) r by blast
      moreover have "again os se rx3 t3 = Some y"
        using step(2-4) by hypsubst (simp add: t1 v None r)
      ultimately show ?thesis using step(1) by blast
    next
      case (Some b)
      then have "tracked_pass os se now t1 = (Some b, t2)" using v by (auto split: if_splits)
      moreover have "y = (b, rx, t2)" using step(2-4) by hypsubst (simp add: t1 v Some)
      ultimately show ?thesis using I1 by auto
    qed
  qed
  from this [OF assms(1)] assms(2) show ?thesis by simp
qed

text \<open>A property of worlds holds up to the report, and through its delivery.\<close>

context track_world
begin

lemma tracked_loop_inv:
  assumes "tracked_loop os se rx ts = Some (c, rx', ts')" "PT ts"
  shows "PT ts'"
proof -
  have "\<exists>now ts0. PT ts0 \<and> tracked_pass os se now ts0 = (Some c, ts')"
  proof (rule tracked_loop_rule [where I = PT, OF assms])
    show "PT ts'" if "PT ts" "ts_now os ts = (t, ts')" for t ts ts'
      using ts_now_inv [OF that(2,1)] .
    show "PT ts'" if "PT ts" "tracked_pass os se now ts = (None, ts')" for now ts ts'
      using tracked_pass_inv [OF that(1), of se now] that(2) by simp
    show "PT ts'" if "PT ts" "tracked_receive os se rx ts = (rx', ts')" for rx ts rx' ts'
      using tracked_receive_inv [OF that(2,1)] .
  qed
  then obtain now ts0 where "PT ts0" "tracked_pass os se now ts0 = (Some c, ts')" by blast
  then show ?thesis using tracked_pass_inv [of ts0 se now] by simp
qed

lemma finish_tracked_inv:
  assumes "finish_tracked os se child c rx ts = Some (gone, rx', ts')" "PT ts"
  shows "gone \<and> PT ts' \<or> (\<exists>rep w1. P w1 \<and> ts_world ts' = snd (tk_delivered os (su_write_exit (tk_sup os) rep w1)))"
proof -
  from assms(1) obtain final reaped cgroup t1 where
    t1: "settle_tracked os se child ts = Some ((final, reaped, cgroup), t1)"
    unfolding finish_tracked_def by (auto split: bind_splits)
  have P1: "PT t1" using settle_tracked_inv [OF t1 assms(2)] .
  show ?thesis
  proof (cases "ts_beam_gone t1")
    case True
    with assms(1) t1 P1 show ?thesis by (auto simp: finish_tracked_def cancel_credits_def on_credits_inv)
  next
    case False
    obtain found t2 where t2: "on_tracker take_new_groups t1 = (found, t2)" by force
    have "PT t2" by (rule on_tracker_inv [OF t2 _ P1]) (simp add: take_new_groups_def)
    then have P3: "PT (fold (publish_last os) found t2)" by (rule fold_publish_last_inv)
    from assms(1) t1 t2 False obtain truncated disappeared rx4 t4 where
      t4: "drain_tracked os se rx (fold (publish_last os) found t2) = Some ((truncated, disappeared), rx4, t4)"
      unfolding finish_tracked_def by (auto simp: Let_def split: bind_splits)
    have P4: "PT t4" using drain_tracked_inv [OF t4 P3] .
    show ?thesis
    proof (cases disappeared)
      case True
      with assms(1) t1 t2 t4 False P4 show ?thesis by (simp add: finish_tracked_def)
    next
      case reported: False
      with assms(1) t1 t2 t4 False obtain rep where
        "ts' = snd (on_world (tk_delivered os) (set_world (su_write_exit (tk_sup os) rep (ts_world t4)) t4))"
        by (auto simp: finish_tracked_def Let_def split: prod.splits) (metis snd_conv)+
      then have "ts_world ts' = snd (tk_delivered os (su_write_exit (tk_sup os) rep (ts_world t4)))"
        by (simp add: on_world_def Let_def case_prod_beta)
      with P4 show ?thesis by blast
    qed
  qed
qed

lemma supervise_tracked_inv:
  assumes "supervise_tracked os se child rx tr = Some (gone, rx', ts')" "P (world tr)"
  shows "gone \<and> PT ts' \<or> (\<exists>rep w1. P w1 \<and> ts_world ts' = snd (tk_delivered os (su_write_exit (tk_sup os) rep w1)))"
proof -
  obtain now w where n: "po_now (su_proc (tk_sup os)) (world tr) = (now, w)" by force
  have "P w" using now_inv [OF assms(2)] n by simp
  then have "PT (track_start (tr\<lparr>world := w\<rparr>) now)" by (simp add: track_start_def)
  moreover from assms(1) n obtain c rx1 t1 where
    "tracked_loop os se rx (track_start (tr\<lparr>world := w\<rparr>) now) = Some (c, rx1, t1)"
    "finish_tracked os se child c rx1 t1 = Some (gone, rx', ts')"
    by (auto simp: supervise_tracked_def split: bind_splits)
  ultimately show ?thesis using tracked_loop_inv finish_tracked_inv by blast
qed

end

section \<open>The report\<close>

text \<open>The reports a session writes, in its world.\<close>

definition lift_source :: "'w source \<Rightarrow> ('w \<times> 'x) source" where
  "lift_source src =
     \<lparr>src_read = (\<lambda>p. on_fst (src_read src p)), src_children = (\<lambda>p. on_fst (src_children src p)),
      src_group_members = (\<lambda>g. on_fst (src_group_members src g)), src_signal = (\<lambda>t sg. on_fst (src_signal src t sg)),
      src_reap = (\<lambda>p. on_fst (src_reap src p)), src_now = (\<lambda>r. on_fst (src_now src r))\<rparr>"

definition with_reports :: "'w track_os \<Rightarrow> ('w \<times> exit_report list) track_os" where
  "with_reports os =
     \<lparr>tk_sup = \<lparr>su_proc = lift_proc (su_proc (tk_sup os)),
        su_close_input = (\<lambda>(w, x). (su_close_input (tk_sup os) w, x)),
        su_credit = (\<lambda>p op (w, x). (su_credit (tk_sup os) p op w, x)),
        su_pump_done = (\<lambda>d. on_fst (su_pump_done (tk_sup os) d)), su_peer = on_fst (su_peer (tk_sup os)),
        su_write_exit = (\<lambda>rep (w, x). (su_write_exit (tk_sup os) rep w, rep # x))\<rparr>,
      tk_source = lift_source (tk_source os), tk_on_macos = tk_on_macos os, tk_scope = tk_scope os,
      tk_encode = tk_encode os, tk_try_send = (\<lambda>f. on_fst (tk_try_send os f)),
      tk_kill_child = (\<lambda>(w, x). (tk_kill_child os w, x)), tk_delivered = on_fst (tk_delivered os)\<rparr>"

interpretation reports_kept: track_world "with_reports os" "\<lambda>s. snd s = x" for os :: "'w track_os" and x
  by unfold_locales (auto simp: with_reports_def lift_source_def lift_proc_def lift_fs_def Let_def split: prod.splits)

lemma with_reports_write:
  "snd (su_write_exit (tk_sup (with_reports os)) rep s) = rep # snd s"
  "tk_scope (with_reports os) = tk_scope os"
  by (simp_all add: with_reports_def case_prod_beta)

text \<open>What a report is made from, and what the last frames before it leave alone.\<close>

definition findings_of :: "'w track_state \<Rightarrow> (process_identity list \<times> u8 \<times> bool) \<times> bool \<times> bool \<times> bool \<times> child_outcome option" where
  "findings_of ts = ((live_identities (ts_tracker ts), incomplete_scans (ts_tracker ts), uncertain (ts_tracker ts)),
     ts_timed_out ts, ts_discard_output ts, ts_beam_gone ts, ts_outcome ts)"

lemma findings_set_world [simp]: "findings_of (set_world w ts) = findings_of ts"
  by (simp add: findings_of_def set_world_def live_identities_def)

lemma findings_on_world: "on_world f ts = (r, ts') \<Longrightarrow> findings_of ts' = findings_of ts"
  by (auto simp: on_world_def Let_def split: prod.splits)

lemma discard_on_world: "on_world f ts = (r, ts') \<Longrightarrow> ts_discard_output ts' = ts_discard_output ts"
  by (auto simp: on_world_def Let_def split: prod.splits)

lemma findings_publish_last: "findings_of (fold (publish_last os) gs ts) = findings_of ts"
proof (induction gs arbitrary: ts)
  case (Cons g gs)
  have "findings_of (publish_last os g ts) = findings_of ts"
  proof (cases "tk_encode os g")
    case (Some bytes)
    obtain r ts' where w: "on_world (tk_try_send os (new_frame TAG_TRACKED bytes)) ts = (r, ts')" by force
    have "findings_of (ts'\<lparr>ts_history_truncated := True\<rparr>) = findings_of ts'" by (simp add: findings_of_def)
    with Some w findings_on_world [OF w] show ?thesis by (simp add: publish_last_def)
  qed (simp add: publish_last_def)
  with Cons show ?case by simp
qed simp

lemma findings_take_new: "on_tracker take_new_groups ts = (found, ts') \<Longrightarrow> findings_of ts' = findings_of ts"
  by (auto simp: on_tracker_def take_new_groups_def findings_of_def live_identities_def Let_def)

lemma findings_drain:
  assumes "drain_tracked os se rx ts = Some ((trunc, dis), rx', ts')"
  shows "findings_of ts' = findings_of ts \<and> (ts_discard_output ts \<longrightarrow> trunc)"
proof (cases "se_strict_output se \<and> \<not> ts_discard_output ts")
  case True
  with assms show ?thesis by (auto simp: drain_tracked_def split: bind_splits)
next
  case False
  with assms show ?thesis
    by (auto simp: drain_tracked_def Let_def split: prod.splits dest: findings_on_world discard_on_world)
qed

lemma settle_findings:
  assumes "settle_tracked os se child ts = Some ((fc, reaped, cc), ts')"
  shows "ts_timed_out ts' = ts_timed_out ts \<and> ts_discard_output ts' = ts_discard_output ts
    \<and> ts_beam_gone ts' = ts_beam_gone ts
    \<and> (fc \<longrightarrow> live_identities (ts_tracker ts') = [] \<and> incomplete_scans (ts_tracker ts') = 0
         \<and> \<not> uncertain (ts_tracker ts') \<and> \<not> uncertain (ts_tracker ts))
    \<and> (\<forall>st. reaped = Inr (Some st) \<longrightarrow> ts_outcome ts' = Some \<lparr>oc_status = es_code st, oc_signal = es_signal st\<rparr>)"
proof -
  define t1 where "t1 = set_world (su_close_input (tk_sup os) (ts_world ts)) ts"
  obtain f tr where fs: "finish_scan (tk_source os) (tk_on_macos os) (ts_tracker t1) = (f, tr)" by force
  define t2 where "t2 = t1\<lparr>ts_tracker := tr\<rparr>"
  have on: "on_tracker (finish_scan (tk_source os) (tk_on_macos os)) t1 = (f, t2)"
    using fs by (simp add: on_tracker_def t2_def)
  define t3 where "t3 = (if ts_outcome t2 = None then set_world (tk_kill_child os (ts_world t2)) t2 else t2)"
  from assms obtain w w' where f: "f = fc" and reap: "reap_root (su_proc (tk_sup os)) child CONFIRM_GRACE (ts_world t3) = Some (reaped, w)"
    and ts': "ts' = set_world w' (case reaped of
            Inr (Some status) \<Rightarrow> (set_world w t3)\<lparr>ts_outcome := Some \<lparr>oc_status = es_code status, oc_signal = es_signal status\<rparr>\<rparr>
          | _ \<Rightarrow> set_world w t3)"
    unfolding settle_tracked_def Let_def t1_def [symmetric] on prod.case t3_def [symmetric]
    by (auto split: bind_splits)
  have clean: "live_identities tr = [] \<and> incomplete_scans tr = 0 \<and> \<not> uncertain tr \<and> \<not> uncertain (ts_tracker t1)" if fc
    using finish_scan_clean [of "tk_source os" "tk_on_macos os" "ts_tracker t1" tr] fs f that by simp
  have u1: "uncertain (ts_tracker t1) = uncertain (ts_tracker ts)" by (simp add: t1_def set_world_def)
  have "t3 = set_world (if ts_outcome t2 = None then tk_kill_child os (ts_world t2) else ts_world t2) t2"
    by (simp add: t3_def)
  then obtain w3 where t3: "t3 = set_world w3 t2" ..
  have "ts_tracker ts' = tr\<lparr>world := w'\<rparr>"
    by (simp add: ts' t3 t2_def set_world_def split: sum.splits option.splits)
  moreover have "ts_timed_out ts' = ts_timed_out ts \<and> ts_discard_output ts' = ts_discard_output ts \<and> ts_beam_gone ts' = ts_beam_gone ts"
    by (simp add: ts' t3 t2_def t1_def set_world_def split: sum.splits option.splits)
  moreover have "\<forall>st. reaped = Inr (Some st) \<longrightarrow> ts_outcome ts' = Some \<lparr>oc_status = es_code st, oc_signal = es_signal st\<rparr>"
    by (simp add: ts')
  ultimately show ?thesis using clean u1 by (simp add: live_identities_def)
qed

text \<open>Everything after the loop: no report, or one made from the final state.\<close>

lemma finish_report:
  assumes "finish_tracked (with_reports os) se child c rx ts = Some (gone, rx', ts')" "snd (ts_world ts) = []"
  shows "snd (ts_world ts') = [] \<and> gone
    \<or> (\<exists>rep. snd (ts_world ts') = [rep] \<and> \<not> ts_beam_gone ts \<and> xr_timed_out rep = ts_timed_out ts
        \<and> (ts_discard_output ts \<longrightarrow> xr_output_truncated rep)
        \<and> xr_contained rep = (se_cgroup se \<noteq> None) \<and> xr_scope rep = Some (tk_scope os)
        \<and> xr_status rep = (case ts_outcome ts' of Some oc \<Rightarrow> oc_status oc | None \<Rightarrow> None)
        \<and> xr_signal rep = (case ts_outcome ts' of Some oc \<Rightarrow> oc_signal oc | None \<Rightarrow> None)
        \<and> (xr_confirmed rep \<longrightarrow> c \<and> ts_outcome ts' \<noteq> None \<and> live_identities (ts_tracker ts') = []
            \<and> incomplete_scans (ts_tracker ts') = 0 \<and> \<not> uncertain (ts_tracker ts') \<and> \<not> uncertain (ts_tracker ts)))"
proof -
  let ?os = "with_reports os"
  have "settle_tracked ?os se child ts \<noteq> None"
  proof
    assume "settle_tracked ?os se child ts = None"
    with assms(1) show False by (simp add: finish_tracked_def)
  qed
  then obtain fc reaped cc t1 where s: "settle_tracked ?os se child ts = Some ((fc, reaped, cc), t1)"
    by (metis option.exhaust prod.collapse)
  have w1: "snd (ts_world t1) = []" using reports_kept.settle_tracked_inv [OF s] assms(2) by simp
  note F = settle_findings [OF s]
  show ?thesis
  proof (cases "ts_beam_gone t1")
    case True
    with assms(1) s have "gone" "ts' = cancel_credits ?os se t1" by (simp_all add: finish_tracked_def)
    with w1 reports_kept.on_credits_inv [where os = os] show ?thesis by (simp add: cancel_credits_def)
  next
    case False
    obtain found t2 where t2: "on_tracker take_new_groups t1 = (found, t2)" by force
    define t3 where "t3 = fold (publish_last ?os) found t2"
    have f3: "findings_of t3 = findings_of t1"
      using findings_take_new [OF t2] by (simp add: t3_def findings_publish_last)
    have w2: "ts_world t2 = ts_world t1" using t2 by (auto simp: on_tracker_def take_new_groups_def)
    have w3: "snd (ts_world t3) = []"
      unfolding t3_def using w1 w2 by (intro reports_kept.fold_publish_last_inv) simp
    have "drain_tracked ?os se rx t3 \<noteq> None"
    proof
      assume "drain_tracked ?os se rx t3 = None"
      with assms(1) s False t2 show False by (simp add: finish_tracked_def t3_def [symmetric])
    qed
    then obtain trunc dis rx4 t4 where d: "drain_tracked ?os se rx t3 = Some ((trunc, dis), rx4, t4)"
      by (metis option.exhaust prod.collapse)
    have w4: "snd (ts_world t4) = []" using reports_kept.drain_tracked_inv [OF d] w3 by simp
    note f4 = findings_drain [OF d]
    show ?thesis
    proof (cases dis)
      case True
      with assms(1) s False t2 d have "gone" "ts' = t4" by (simp_all add: finish_tracked_def t3_def)
      with w4 show ?thesis by simp
    next
      case dis: False
      define oc where "oc = (case ts_outcome t4 of Some oc \<Rightarrow> oc | None \<Rightarrow> no_outcome)"
      define rep where "rep = \<lparr>xr_status = oc_status oc, xr_signal = oc_signal oc, xr_timed_out = ts_timed_out t4,
               xr_confirmed = (c \<and> cc \<and> fc \<and> (case reaped of Inr (Some status) \<Rightarrow> True | _ \<Rightarrow> False)),
               xr_contained = (se_cgroup se \<noteq> None), xr_output_truncated = trunc,
               xr_scope = Some (tk_scope ?os), xr_tracked_groups_truncated = Some (ts_history_truncated t4)\<rparr>"
      define t5 where "t5 = set_world (su_write_exit (tk_sup ?os) rep (ts_world t4)) t4"
      obtain delivered t6 where t6: "on_world (tk_delivered ?os) t5 = (delivered, t6)" by force
      have ts': "ts' = t6"
        using assms(1) s False t2 d dis t6 [unfolded t5_def rep_def oc_def]
        by (simp add: finish_tracked_def Let_def t3_def [symmetric])
      have "snd (ts_world t5) = [rep]" by (simp add: t5_def with_reports_write w4)
      moreover have "snd (ts_world t6) = snd (ts_world t5)"
        using reports_kept.on_world_inv' [OF t6 reports_kept.delivered_inv] by blast
      ultimately have w6: "snd (ts_world ts') = [rep]" using ts' by simp
      have f6: "findings_of ts' = findings_of t1"
        using findings_on_world [OF t6] f4 f3 by (simp add: ts' t5_def)
      have f4': "findings_of t4 = findings_of t1" using f4 f3 by simp
      have c: "c \<and> fc \<and> (\<exists>st. reaped = Inr (Some st))" if "xr_confirmed rep"
        using that by (auto simp: rep_def split: sum.splits option.splits)
      have "xr_confirmed rep \<longrightarrow> c \<and> ts_outcome ts' \<noteq> None \<and> live_identities (ts_tracker ts') = []
            \<and> incomplete_scans (ts_tracker ts') = 0 \<and> \<not> uncertain (ts_tracker ts') \<and> \<not> uncertain (ts_tracker ts)"
        using c F f6 by (auto simp: findings_of_def)
      moreover have "xr_timed_out rep = ts_timed_out ts" "\<not> ts_beam_gone ts"
        "xr_contained rep = (se_cgroup se \<noteq> None)" "xr_scope rep = Some (tk_scope os)"
        using f4' F False by (simp_all add: rep_def findings_of_def with_reports_write)
      moreover have "ts_discard_output ts \<longrightarrow> xr_output_truncated rep"
        using f4 f3 F by (simp add: rep_def findings_of_def)
      moreover have "ts_outcome t4 = ts_outcome ts'" using f4' f6 by (simp add: findings_of_def)
      then have "xr_status rep = (case ts_outcome ts' of Some oc \<Rightarrow> oc_status oc | None \<Rightarrow> None)"
        "xr_signal rep = (case ts_outcome ts' of Some oc \<Rightarrow> oc_signal oc | None \<Rightarrow> None)"
        by (simp_all add: rep_def oc_def no_outcome_def split: option.splits)
      ultimately show ?thesis using w6 by blast
    qed
  qed
qed

section \<open>Properties\<close>


text \<open>A session with nothing to track, on a system whose world is a clock: the child exits with 0
  and two empty scans follow.\<close>

definition sample_track :: "(string set \<times> nat) track_os" where
  "sample_track =
     \<lparr>tk_sup = (timed_sup sample_sup)\<lparr>su_proc :=
        (timed_proc (su_proc sample_sup))\<lparr>po_try_wait := (\<lambda>c w. (Inr (Some \<lparr>es_code = Some 0, es_signal = None\<rparr>), w))\<rparr>\<rparr>,
      tk_source = \<lparr>src_read = (\<lambda>p w. (Inr None, w)), src_children = (\<lambda>p w. (Inr [], w)),
        src_group_members = (\<lambda>g w. (Inr [], w)), src_signal = (\<lambda>t sg w. (Inr (), w)),
        src_reap = (\<lambda>p w. (Inr (), w)), src_now = (\<lambda>r w. (r, w))\<rparr>,
      tk_on_macos = False, tk_scope = ''linux'', tk_encode = (\<lambda>g. Some []),
      tk_try_send = (\<lambda>f w. (SentOk, w)), tk_kill_child = (\<lambda>w. w), tk_delivered = (\<lambda>w. (True, w))\<rparr>"


definition sample_rx :: events_rx where
  "sample_rx = [Got (ChildExited \<lparr>oc_status = Some 0, oc_signal = None\<rparr>), Nothing]"

type_synonym sample_world = "(string set \<times> nat) \<times> exit_report list"

text \<open>The state of the session between two calls.\<close>

definition idle :: "nat \<Rightarrow> cleanup_state option \<Rightarrow> child_outcome option \<Rightarrow> nat \<Rightarrow> sample_world track_state" where
  "idle t c oc n = (track_start ((tracker_empty (({}, t), []) False (sample_identity 10 10) 20)\<lparr>cleanup := c\<rparr>) n)\<lparr>ts_outcome := oc\<rparr>"

lemma sample_calls:
  "ts_now (with_reports sample_track) (idle t c oc n) = (t, idle t c oc n)"
  "po_now (su_proc (tk_sup (with_reports sample_track))) ((S, t), x) = (t, ((S, t), x))"
  "su_close_input (tk_sup (with_reports sample_track)) w = w"
  "po_sleep (su_proc (tk_sup (with_reports sample_track))) d ((S, t), x) = ((S, t + d), x)"
  "peer_disconnected (tk_sup (with_reports sample_track)) sample_session w = (False, w)"
  by (simp_all add: with_reports_def sample_track_def lift_proc_def timed_proc_def timed_sup_def sample_sup_def
     on_world_def idle_def set_world_def track_start_def tracker_empty_def peer_disconnected_def case_prod_beta)

lemma idle_updates:
  "set_world (({}, t'), []) (idle t c oc n) = idle t' c oc n"
  "(idle t c oc n)\<lparr>ts_next_scan := n'\<rparr> = idle t c oc n'"
  "ts_beam_gone (idle t c oc n) = False"  "ts_outcome (idle t c oc n) = oc" "ts_next_scan (idle t c oc n) = n"
  "ts_discard_output (idle t c oc n) = False" "ts_world (idle t c oc n) = (({}, t), [])"
  "uncertain (ts_tracker (idle t c oc n)) = False" "cleaning (ts_tracker (idle t c oc n)) = (c \<noteq> None)"
  "(idle t c oc n)\<lparr>ts_outcome := oc'\<rparr> = idle t c oc' n"
  "(idle t c oc n)\<lparr>ts_tracker := ts_tracker (idle t' c' oc' n')\<rparr> = idle t' c' oc n"
  by (simp_all add: idle_def set_world_def track_start_def tracker_empty_def cleaning_def)

lemma idle_discover: "discover_groups (with_reports sample_track) (idle t c oc n) = idle t c oc n"
  by (simp add: discover_groups_def idle_def track_start_def on_tracker_def take_new_groups_def
     scan_def discover_def scan_start_def tracker_empty_def scan_loop.simps scan_root_group_def
        retire_def hm_retain_def Let_def MAX_INCOMPLETE_SCANS_def)

lemma idle_advance:
  "advance src mac now (ts_tracker (idle t (Some c) oc n)) =
    (\<lparr>done_now = 2 \<le> sat_add (cl_empty_scans c) 1 \<or> cl_deadline c \<le> now,
      confirmed = 2 \<le> sat_add (cl_empty_scans c) 1 \<or> cl_deadline c \<le> now\<rparr>,
      ts_tracker (idle t (Some (c\<lparr>cl_empty_scans := sat_add (cl_empty_scans c) 1\<rparr>)) oc n))"
  by (simp add: advance_def idle_def track_start_def tracker_empty_def live_identities_def advance_verdict_def
      Let_def)
lemma idle_check: "check_peer (with_reports sample_track) sample_session now (idle t c oc n) = idle t c oc n"
  by (simp add: check_peer_def idle_updates sample_calls on_world_def)

lemma idle_pass:
  "tracked_pass (with_reports sample_track) sample_session now (idle t None oc n) = (None, idle t None oc (t + 50))"
  "tracked_pass (with_reports sample_track) sample_session now (idle t (Some c) (Some r) n) =
    (let c' = c\<lparr>cl_empty_scans := sat_add (cl_empty_scans c) 1\<rparr> in
     if 2 \<le> cl_empty_scans c' \<or> cl_deadline c \<le> t then (Some True, idle t (Some c') (Some r) n)
     else (None, idle t (Some c') (Some r) (t + 50)))"
   by (simp_all add: tracked_pass_def idle_check idle_discover sample_calls(1,3) cleanup_pass_def idle_updates
    SAMPLE_INTERVAL_def on_tracker_def idle_advance Let_def)

lemma idle_start_cleanup: "start_cleanup sample_session now (idle t None oc n) =
   idle t (Some \<lparr>cl_interrupt = None, cl_term = 5000, cl_deadline = now + 5500, cl_empty_scans = 0\<rparr>) oc n"
  by (simp add: start_cleanup_def idle_def begin_cleanup_def track_start_def tracker_empty_def CONFIRM_GRACE_def sample_session_def)

lemma idle_receive:
  "tracked_receive (with_reports sample_track) sample_session (Nothing # rx) (idle t c oc n) = (rx, idle (t + (n - t)) c oc n)"
  "tracked_receive (with_reports sample_track) sample_session (Got (ChildExited r) # rx) (idle t None oc n)
   = (rx, idle t (Some \<lparr>cl_interrupt = None, cl_term = 5000, cl_deadline = t + 5500, cl_empty_scans = 0\<rparr>) (Some r) t)"
  by (simp_all add: tracked_receive_def sample_calls idle_updates cleanup_now_def rescan_now_def idle_start_cleanup)

lemma sample_loop: "tracked_loop (with_reports sample_track) sample_session sample_rx (idle 0 None None 0) =
  Some (True, [], idle 50 (Some \<lparr>cl_interrupt = None, cl_term = 5000, cl_deadline = 5500, cl_empty_scans = 2\<rparr>)
     (Some \<lparr>oc_status = Some 0, oc_signal = None\<rparr>) 50)"
proof -
  have [simp]: "sat_add 0 1 = (1 :: u8)" "sat_add 1 1 = (2 :: u8)" "\<not> 2 \<le> (1 :: u8)"
    by (simp_all add: sat_add_def word_le_nat_alt)
  show ?thesis
  unfolding sample_rx_def
  apply (subst tracked_loop.simps, simp add: sample_calls(1) idle_updates idle_pass idle_receive Let_def ex_bool_eq all_bool_eq)
  apply (subst tracked_loop.simps, simp add: sample_calls(1) idle_updates idle_pass idle_receive Let_def ex_bool_eq all_bool_eq)
  apply (subst tracked_loop.simps, simp add: sample_calls(1) idle_updates idle_pass idle_receive Let_def ex_bool_eq all_bool_eq)
  done
qed

lemma sample_finish: "\<exists>rep t. finish_tracked (with_reports sample_track) sample_session 20 True [] (idle 50 (Some c) (Some r) n)
   = Some (False, [], t) \<and> snd (ts_world t) = [rep] \<and> xr_confirmed rep"
proof -
  have fs: "on_tracker (finish_scan (tk_source (with_reports sample_track)) (tk_on_macos (with_reports sample_track))) (idle t c oc n)
     = (True, idle t c oc n)" for t c oc n
    by (simp add: finish_scan_def idle_def track_start_def on_tracker_def live_identities_def
     scan_def discover_def scan_start_def tracker_empty_def scan_loop.simps scan_root_group_def
        retire_def hm_retain_def Let_def MAX_INCOMPLETE_SCANS_def)
  have tw: "po_try_wait (su_proc (tk_sup (with_reports sample_track))) p w = (Inr (Some \<lparr>es_code = Some 0, es_signal = None\<rparr>), w)" for p w
    by (simp add: with_reports_def sample_track_def lift_proc_def case_prod_beta)
  have reap: "reap_root (su_proc (tk_sup (with_reports sample_track))) p g (({}, t), x) =
     Some (Inr (Some \<lparr>es_code = Some 0, es_signal = None\<rparr>), (({}, t), x))" for p g t x
    by (simp add: reap_root_def wait_until_def sample_calls(2)) (subst wait_loop.simps, simp add: try_reap_def tw)
  have tn: "on_tracker take_new_groups (idle t c oc n) = ([], idle t c oc n)" for t c oc n
    by (simp add: on_tracker_def take_new_groups_def idle_def track_start_def tracker_empty_def)
  have pd: "su_pump_done (tk_sup (with_reports sample_track)) d w = (PumpDone, w)" for d w
    by (simp add: with_reports_def sample_track_def timed_sup_def sample_sup_def case_prod_beta)
  have dp: "drain_pumps (tk_sup (with_reports sample_track)) 2 (({}, t), x) = (True, (({}, t), x))" for t x
    by (simp add: drain_pumps_def sample_calls(2) pd OUTPUT_DRAIN_GRACE_def numeral_2_eq_2)
  have del: "on_world (tk_delivered (with_reports sample_track)) ts = (True, ts)" for ts
    by (simp add: on_world_def with_reports_def sample_track_def case_prod_beta)
  have sess: "se_cgroup sample_session = None" "se_pumps sample_session = 2" "se_strict_output sample_session = False"
    "on_credits os sample_session op w = w" for os :: "sample_world sup_os" and op w
    by (simp_all add: sample_session_def on_credits_def on_credit_def)
  have dw: "on_world (drain_pumps (tk_sup (with_reports sample_track)) 2) (idle t c oc n) = (True, idle t c oc n)" for t c oc n
    by (simp add: on_world_def dp idle_updates)
  show ?thesis
    by (simp add: finish_tracked_def settle_tracked_def fs idle_updates sample_calls(3) reap teardown_cgroup_def tn
       drain_tracked_def sess dw del with_reports_write Let_def)
qed


end
