(* ===== verification/ChildSetup.thy ===== *)
theory ChildSetup
  imports Cgroup Protocol
begin

text \<open>
  Spawning a child, \<open>spawn_child\<close>, \<open>ChildSetup\<close> and \<open>finish_spawn\<close> of
  \<open>native/forcola_shim/src/supervisor.rs\<close>: what the parent prepares before the fork, what the
  child does between \<open>fork\<close> and \<open>exec\<close>, and how a failure comes back. The operating system is
  a record of operations on a world; \<open>Command::spawn\<close> is modelled as the standard library
  documents it for a command with a \<open>pre_exec\<close> hook.
\<close>

text \<open>The question mark operator on a state-passing step.\<close>

definition try_then ::
  "('e + 'a) \<times> 's \<Rightarrow> ('a \<Rightarrow> 's \<Rightarrow> ('e + 'b) \<times> 's) \<Rightarrow> ('e + 'b) \<times> 's" where
  "try_then m f = (case m of (Inl e, s) \<Rightarrow> (Inl e, s) | (Inr a, s) \<Rightarrow> f a s)"

lemma try_then_simps [simp]:
  "try_then (Inl e, s) f = (Inl e, s)"
  "try_then (Inr a, s) f = f a s"
  by (simp_all add: try_then_def)

section \<open>The child\<close>

record child_setup =
  cs_cwd :: "string option"
  cs_reporter :: bool
  cs_plan :: "drop_plan option"
  cs_placement :: "nat option"
  cs_pty :: bool
  cs_winsize :: "(u16 \<times> u16) option"

text \<open>The state of the child: the world and the report pipe.\<close>

type_synonym 'w child_state = "'w \<times> report_pipe"

definition setup_check ::
  "child_setup \<Rightarrow> stage \<Rightarrow> ('w \<Rightarrow> (io_error + unit) \<times> 'w) \<Rightarrow> 'w child_state \<Rightarrow>
   (io_error + unit) \<times> 'w child_state" where
  "setup_check su st operation s =
     (let (result, w) = operation (fst s) in
      if cs_reporter su then
        (let (r, p) = reporter_check st result (snd s) in (r, (w, p)))
      else (result, (w, snd s)))"

definition setup_apply ::
  "'w child_os \<Rightarrow> u32 \<Rightarrow> child_setup \<Rightarrow> 'w child_state \<Rightarrow> (io_error + unit) \<times> 'w child_state" where
  "setup_apply sys pid su s =
     try_then (case cs_cwd su of
                 Some cwd \<Rightarrow> setup_check su StCwd (checked sys (Chdir cwd)) s
               | None \<Rightarrow> (Inr (), s)) (\<lambda>_ s.
     try_then (setup_check su StSpawn (checked sys Setsid) s) (\<lambda>_ s.
     try_then (if cs_pty su then
                 try_then (setup_check su StPty (checked sys (SetControllingTty 0)) s) (\<lambda>_ s.
                   case cs_winsize su of
                     Some (rows, cols) \<Rightarrow> setup_check su StPty (checked sys (SetWindowSize 0 rows cols)) s
                   | None \<Rightarrow> (Inr (), s))
               else (Inr (), s)) (\<lambda>_ s.
     try_then (case cs_placement su of
                 Some fd \<Rightarrow> setup_check su StCgroup (join_in_child sys pid fd) s
               | None \<Rightarrow> (Inr (), s)) (\<lambda>_ s.
     try_then (case cs_plan su of
                 Some plan \<Rightarrow> setup_check su StPrivdrop (apply_drop sys plan) s
               | None \<Rightarrow> (Inr (), s)) (\<lambda>_ s.
     if cs_reporter su then
       (let (r, p) = ready_for_exec (snd s) in (r, (fst s, p)))
     else (Inr (), s))))))"

section \<open>The parent\<close>

datatype pty_call = Openpt | Grantpt | Unlockpt | Ptsname | OpenSlave | CloneSlave

record 'w spawn_os =
  so_display :: "io_error \<Rightarrow> string"
  so_accounts :: accounts
  so_fs :: "'w fs_ops"
  so_pid :: nat
  so_sequence :: nat
  so_pty :: "pty_call \<Rightarrow> 'w \<Rightarrow> (int + nat) \<times> 'w"
  so_channel :: "'w \<Rightarrow> (io_error + write_outcome list) \<times> 'w"
  so_fork :: "'w \<Rightarrow> (int + u32) \<times> 'w"
  so_child :: "'w child_os"
  so_exec :: "string list \<Rightarrow> 'w \<Rightarrow> int option \<times> 'w"
  so_report_stream :: "bytes \<Rightarrow> stream"

definition pty_step :: "'w spawn_os \<Rightarrow> pty_call \<Rightarrow> 'w \<Rightarrow> (io_error + nat) \<times> 'w" where
  "pty_step sys c w = (case so_pty sys c w of (Inl e, w') \<Rightarrow> (Inl (Os e), w') | (Inr n, w') \<Rightarrow> (Inr n, w'))"

definition prepare_child_pty :: "'w spawn_os \<Rightarrow> 'w \<Rightarrow> (io_error + nat) \<times> 'w" where
  "prepare_child_pty sys w =
     try_then (pty_step sys Openpt w) (\<lambda>master w.
     try_then (pty_step sys Grantpt w) (\<lambda>_ w.
     try_then (pty_step sys Unlockpt w) (\<lambda>_ w.
     try_then (pty_step sys Ptsname w) (\<lambda>_ w.
     try_then (pty_step sys OpenSlave w) (\<lambda>_ w.
     try_then (pty_step sys CloneSlave w) (\<lambda>_ w.
     try_then (pty_step sys CloneSlave w) (\<lambda>_ w. (Inr master, w))))))))"

definition window_size :: "spawn_request \<Rightarrow> (u16 \<times> u16) option" where
  "window_size request =
     (case (pty_rows request, pty_cols request) of
        (None, None) \<Rightarrow> None
      | (rows, cols) \<Rightarrow> Some (case rows of Some r \<Rightarrow> r | None \<Rightarrow> 0, case cols of Some c \<Rightarrow> c | None \<Rightarrow> 0))"

text \<open>The command as the builder calls leave it: a working directory of its own only in legacy
  mode, and the environment changes in the map's order.\<close>

record command =
  cmd_argv :: "string list"
  cmd_cwd :: "string option"
  cmd_env_clear :: bool
  cmd_env_changes :: "(string \<times> string option) list"

definition build_command :: "spawn_request \<Rightarrow> bool \<Rightarrow> command" where
  "build_command request structured =
     \<lparr>cmd_argv = argv request, cmd_cwd = (if structured then None else cd request),
      cmd_env_clear = (rq_env_mode request = Replace), cmd_env_changes = env request\<rparr>"

text \<open>The environment \<open>Command\<close> gives the child, from the one it inherits.\<close>

definition command_env :: "command \<Rightarrow> (string, string) hash_map \<Rightarrow> (string, string) hash_map" where
  "command_env cmd inherited =
     fold (\<lambda>(name, value) m. case value of Some v \<Rightarrow> hm_insert name v m | None \<Rightarrow> hm_remove name m)
       (cmd_env_changes cmd) (if cmd_env_clear cmd then [] else inherited)"

definition has_nul :: "string \<Rightarrow> bool" where
  "has_nul s \<longleftrightarrow> CHR 0x00 \<in> set s"

definition saw_nul :: "command \<Rightarrow> bool" where
  "saw_nul cmd \<longleftrightarrow> list_ex has_nul (cmd_argv cmd)
     \<or> (case cmd_cwd cmd of Some d \<Rightarrow> has_nul d | None \<Rightarrow> False)
     \<or> list_ex (\<lambda>(n, v). has_nul n \<or> (case v of Some v' \<Rightarrow> has_nul v' | None \<Rightarrow> False)) (cmd_env_changes cmd)"

text \<open>
  \<open>Command::spawn\<close>: a NUL byte fails before the fork; the child changes directory itself
  when the command has one, runs the hook and then \<open>exec\<close>; an error of the child comes back
  to the parent as its number, \<open>EINVAL\<close> when it has none.
\<close>

definition command_spawn ::
  "'w spawn_os \<Rightarrow> command \<Rightarrow> child_setup \<Rightarrow> 'w child_state \<Rightarrow> (io_error + u32) \<times> 'w child_state" where
  "command_spawn sys cmd su s =
     (if saw_nul cmd then (Inl (Custom InvalidInput ''nul byte found in provided data''), s)
      else case so_fork sys (fst s) of
        (Inl e, w) \<Rightarrow> (Inl (Os e), (w, snd s))
      | (Inr pid, w) \<Rightarrow>
          (case try_then (case cmd_cwd cmd of
                            Some d \<Rightarrow> (let (r, w') = checked (so_child sys) (Chdir d) w in (r, (w', snd s)))
                          | None \<Rightarrow> (Inr (), (w, snd s)))
                 (\<lambda>_ s. setup_apply (so_child sys) pid su s) of
             (Inl e, s') \<Rightarrow> (Inl (Os (case raw_os_error e of Some n \<Rightarrow> n | None \<Rightarrow> EINVAL)), s')
           | (Inr _, (w', p)) \<Rightarrow>
               (case so_exec sys (cmd_argv cmd) w' of
                  (Some n, w2) \<Rightarrow> (Inl (Os n), (w2, p))
                | (None, w2) \<Rightarrow> (Inr pid, (w2, p)))))"

definition finish_spawn ::
  "'w spawn_os \<Rightarrow> command \<Rightarrow> child_setup \<Rightarrow> write_outcome list option \<Rightarrow> string \<Rightarrow> string option \<Rightarrow> string option \<Rightarrow>
   'w \<Rightarrow> (spawn_failure + u32) \<times> 'w" where
  "finish_spawn sys cmd su reader argv0 cwd cgroup_path w =
     (let outcomes = (case reader of Some os \<Rightarrow> os | None \<Rightarrow> []) in
      case command_spawn sys cmd su (w, \<lparr>rp_bytes = [], rp_outcomes = outcomes\<rparr>) of
        (Inr pid, (w', p)) \<Rightarrow> (Inr pid, w')
      | (Inl e, (w', p)) \<Rightarrow>
          (Inl (case reader of
                  Some _ \<Rightarrow> report_failure (so_display sys) (so_report_stream sys (rp_bytes p)) e argv0 cwd cgroup_path
                | None \<Rightarrow> spawn_failure_new (so_display sys) StSpawn e None), w'))"

text \<open>Dropping a prepared cgroup: \<open>Drop for Cgroup\<close> removes the directory, then its
  descriptors are closed.\<close>

definition drop_cgroup :: "'w fs_ops \<Rightarrow> cgroup option \<Rightarrow> 'w \<Rightarrow> 'w" where
  "drop_cgroup fs cg w =
     (case cg of
        None \<Rightarrow> w
      | Some c \<Rightarrow>
          (let w1 = fs_close fs (cg_procs c) (snd (fs_rmdir fs (cg_dir c) w)) in
           case cg_kill_fd c of Some fd \<Rightarrow> fs_close fs fd w1 | None \<Rightarrow> w1))"

definition placement_path :: "cgroup \<Rightarrow> string" where
  "placement_path cg = path_join (cg_dir cg) ''cgroup.procs''"

definition select_cgroup ::
  "'w spawn_os \<Rightarrow> cgroup_mode \<Rightarrow> 'w \<Rightarrow> (spawn_failure + cgroup option) \<times> 'w" where
  "select_cgroup sys m w =
     (case m of
        BestEffort b \<Rightarrow>
          (if b then (let (cg, w') = prepare_cgroup (so_display sys) (so_fs sys) (so_pid sys) (so_sequence sys) w
                      in (Inr cg, w'))
           else (Inr None, w))
      | Required _ \<Rightarrow>
          (case prepare_required (so_display sys) (so_fs sys) (so_pid sys) (so_sequence sys) w of
             (Inl f, w') \<Rightarrow> (Inl f, w') | (Inr cg, w') \<Rightarrow> (Inr (Some cg), w')))"

definition child_cwd ::
  "(io_error \<Rightarrow> string) \<Rightarrow> spawn_request \<Rightarrow> bool \<Rightarrow> spawn_failure + string option" where
  "child_cwd display request structured =
     (if structured then
        (case cd request of
           None \<Rightarrow> Inr None
         | Some d \<Rightarrow>
             if has_nul d then
               Inl (spawn_failure_new display StCwd
                 (Custom InvalidInput ''nul byte found in provided data'') (Some d))
             else Inr (Some d))
      else Inr None)"

text \<open>The part of \<open>spawn_child\<close> after the cgroup is prepared: the pty, the report pipe, the
  working directory, and the spawn.\<close>

definition spawn_prepared ::
  "'w spawn_os \<Rightarrow> spawn_request \<Rightarrow> bool \<Rightarrow> drop_plan option \<Rightarrow> cgroup option \<Rightarrow> 'w \<Rightarrow>
   (spawn_failure + u32 \<times> nat option) \<times> 'w" where
  "spawn_prepared sys request structured plan cgroup w =
     (let display = so_display sys in
      try_then (if pty request then
                  (case prepare_child_pty sys w of
                     (Inl e, w) \<Rightarrow> (Inl (spawn_failure_new display StPty e None), w)
                   | (Inr m, w) \<Rightarrow> (Inr (Some m), w))
                else (Inr None, w)) (\<lambda>master w.
      try_then (if structured then
                  (case so_channel sys w of
                     (Inl e, w) \<Rightarrow> (Inl (spawn_failure_new display StSpawn e None), w)
                   | (Inr os, w) \<Rightarrow> (Inr (Some os), w))
                else (Inr None, w)) (\<lambda>reader w.
      try_then (child_cwd display request structured, w) (\<lambda>cwd w.
      let su = \<lparr>cs_cwd = cwd, cs_reporter = structured, cs_plan = plan,
            cs_placement = map_option cg_procs cgroup, cs_pty = pty request,
            cs_winsize = window_size request\<rparr> in
      try_then (finish_spawn sys (build_command request structured) su reader (hd (argv request))
                  (cd request) (map_option placement_path cgroup) w) (\<lambda>pid w.
      (Inr (pid, master), w))))))"

definition spawn_child ::
  "'w spawn_os \<Rightarrow> spawn_request \<Rightarrow> bool \<Rightarrow> 'w \<Rightarrow>
   (spawn_failure + u32 \<times> nat option \<times> cgroup option) \<times> 'w" where
  "spawn_child sys request structured w =
     (if argv request = [] then
        (Inl (spawn_failure_new (so_display sys) StSpawn (Custom InvalidInput ''argv must not be empty'') None), w)
      else case resolve (so_accounts sys) (rq_user request) (rq_group request) of
        Inl e \<Rightarrow> (Inl (spawn_failure_new (so_display sys) StPrivdrop e None), w)
      | Inr plan \<Rightarrow>
          try_then (select_cgroup sys (rq_cgroup request) w) (\<lambda>cgroup w.
          case spawn_prepared sys request structured plan cgroup w of
            (Inl f, w') \<Rightarrow> (Inl f, drop_cgroup (so_fs sys) cgroup w')
          | (Inr (pid, master), w') \<Rightarrow> (Inr (pid, master, cgroup), w')))"

section \<open>The order of the child's steps\<close>

text \<open>The operations of the child in order, each with the stage it belongs to.\<close>

definition setup_steps ::
  "'w child_os \<Rightarrow> u32 \<Rightarrow> child_setup \<Rightarrow> (stage \<times> ('w \<Rightarrow> (io_error + unit) \<times> 'w)) list" where
  "setup_steps sys pid su =
     (case cs_cwd su of Some d \<Rightarrow> [(StCwd, checked sys (Chdir d))] | None \<Rightarrow> [])
     @ [(StSpawn, checked sys Setsid)]
     @ (if cs_pty su then
          (StPty, checked sys (SetControllingTty 0)) #
          (case cs_winsize su of Some (r, c) \<Rightarrow> [(StPty, checked sys (SetWindowSize 0 r c))] | None \<Rightarrow> [])
        else [])
     @ (case cs_placement su of Some fd \<Rightarrow> [(StCgroup, join_in_child sys pid fd)] | None \<Rightarrow> [])
     @ (case cs_plan su of Some plan \<Rightarrow> [(StPrivdrop, apply_drop sys plan)] | None \<Rightarrow> [])"

fun run_steps ::
  "(stage \<times> ('w \<Rightarrow> (io_error + unit) \<times> 'w)) list \<Rightarrow> 'w \<Rightarrow> (stage \<times> io_error) option \<times> 'w" where
  "run_steps [] w = (None, w)"
| "run_steps ((st, f) # fs) w =
     (case f w of (Inl e, w') \<Rightarrow> (Some (st, e), w') | (Inr _, w') \<Rightarrow> run_steps fs w')"

text \<open>The same steps run through \<open>check\<close>.\<close>

fun check_steps ::
  "child_setup \<Rightarrow> (stage \<times> ('w \<Rightarrow> (io_error + unit) \<times> 'w)) list \<Rightarrow> 'w child_state \<Rightarrow>
   (io_error + unit) \<times> 'w child_state" where
  "check_steps su [] s = (Inr (), s)"
| "check_steps su ((st, f) # fs) s = try_then (setup_check su st f s) (\<lambda>_ s. check_steps su fs s)"

lemma check_steps_append:
  "check_steps su (xs @ ys) s = try_then (check_steps su xs s) (\<lambda>_ s. check_steps su ys s)"
  by (induction su xs s rule: check_steps.induct)
     (simp_all add: try_then_def split: prod.splits sum.splits)

lemma try_then_assoc: "try_then (try_then m f) g = try_then m (\<lambda>a s. try_then (f a s) g)"
  by (simp add: try_then_def split: prod.splits sum.splits)

lemma try_then_Inr: "try_then m (\<lambda>_ s. (Inr (), s)) = m" for m :: "('e + unit) \<times> 's"
  by (cases m) (simp add: try_then_def split: sum.splits)

lemma setup_apply_steps:
  "setup_apply sys pid su s =
     try_then (check_steps su (setup_steps sys pid su) s) (\<lambda>_ s.
       if cs_reporter su then (let (r, p) = ready_for_exec (snd s) in (r, (fst s, p))) else (Inr (), s))"
proof -
  have nil: "check_steps su [] = (\<lambda>s :: 'a child_state. (Inr (), s))" by (rule ext) simp
  have one: "check_steps su [(st, f)] s = setup_check su st f s" for st f and s :: "'a child_state"
    by (simp only: check_steps.simps(2) nil try_then_Inr)
  have opt: "check_steps su (case x of Some y \<Rightarrow> [(st, f y)] | None \<Rightarrow> []) s =
      (case x of Some y \<Rightarrow> setup_check su st (f y) s | None \<Rightarrow> (Inr (), s))" for x st f and s :: "'a child_state"
    by (cases x) (simp_all add: one del: check_steps.simps(2))
  have size: "check_steps su (case x of Some (r, c) \<Rightarrow> [(StPty, f r c)] | None \<Rightarrow> []) s =
      (case x of Some (r, c) \<Rightarrow> setup_check su StPty (f r c) s | None \<Rightarrow> (Inr (), s))" for x f and s :: "'a child_state"
    by (cases x) (auto simp: one simp del: check_steps.simps(2))
  have tty: "check_steps su (if b then (st, f) # fs else []) s =
      (if b then try_then (setup_check su st f s) (\<lambda>_ s. check_steps su fs s) else (Inr (), s))" for b st f fs and s :: "'a child_state"
    by simp
  show ?thesis
    unfolding setup_apply_def setup_steps_def check_steps_append one opt tty size try_then_assoc ..
qed

section \<open>Reports of the child\<close>

definition errno_sent :: "io_error \<Rightarrow> int" where
  "errno_sent e = (case raw_os_error e of Some n \<Rightarrow> n | None \<Rightarrow> EINVAL)"

abbreviation only_interrupts :: "write_outcome list \<Rightarrow> bool" where
  "only_interrupts os \<equiv> list_all (\<lambda>o'. o' = WroteErr EINTR) os"

lemma reporter_check_ok:
  assumes "only_interrupts (rp_outcomes p)"
  shows "reporter_check st (Inl e) p
    = (Inl e, \<lparr>rp_bytes = rp_bytes p @ report_bytes st (errno_sent e), rp_outcomes = []\<rparr>)"
  using assms by (simp add: reporter_check_def reporter_write_def report_write_loop_ok errno_sent_def)

lemma ready_for_exec_ok:
  assumes "only_interrupts (rp_outcomes p)"
  shows "ready_for_exec p = (Inr (), \<lparr>rp_bytes = rp_bytes p @ report_bytes StExec 0, rp_outcomes = []\<rparr>)"
  using assms by (simp add: ready_for_exec_def reporter_write_def report_write_loop_ok)

lemma check_steps_report:
  assumes "cs_reporter su" "only_interrupts (rp_outcomes p)"
  shows "check_steps su steps (w, p) =
     (case run_steps steps w of
        (None, w') \<Rightarrow> (Inr (), (w', p))
      | (Some (st, e), w') \<Rightarrow>
          (Inl e, (w', \<lparr>rp_bytes = rp_bytes p @ report_bytes st (errno_sent e), rp_outcomes = []\<rparr>)))"
proof (induction steps arbitrary: w)
  case (Cons sf steps)
  obtain st f where sf: "sf = (st, f)" by (cases sf)
  obtain r w1 where f: "f w = (r, w1)" by force
  show ?case
  proof (cases r)
    case (Inl e)
    then show ?thesis using assms f sf by (simp add: setup_check_def reporter_check_ok)
  next
    case (Inr u)
    then show ?thesis using assms(1) f sf Cons by (simp add: setup_check_def reporter_check_def)
  qed
qed simp

lemma setup_apply_report:
  assumes "cs_reporter su" "only_interrupts os"
  shows "setup_apply sys pid su (w, \<lparr>rp_bytes = [], rp_outcomes = os\<rparr>) =
     (case run_steps (setup_steps sys pid su) w of
        (None, w') \<Rightarrow> (Inr (), (w', \<lparr>rp_bytes = report_bytes StExec 0, rp_outcomes = []\<rparr>))
      | (Some (st, e), w') \<Rightarrow>
          (Inl e, (w', \<lparr>rp_bytes = report_bytes st (errno_sent e), rp_outcomes = []\<rparr>)))"
  using assms unfolding setup_apply_steps
  by (simp add: check_steps_report ready_for_exec_ok split: prod.splits option.splits)

text \<open>The error numbers of a kernel.\<close>

definition errno_ok :: "int \<Rightarrow> bool" where
  "errno_ok n \<longleftrightarrow> 0 < n \<and> n < 2 ^ 31"

definition kernel_errnos :: "'w child_os \<Rightarrow> bool" where
  "kernel_errnos sys \<longleftrightarrow> (\<forall>c w. case sys c w of (Inl e, _) \<Rightarrow> errno_ok e | _ \<Rightarrow> True)"

lemma kernel_errnosD: "kernel_errnos sys \<Longrightarrow> sys c w = (Inl e, w') \<Longrightarrow> errno_ok e"
  unfolding kernel_errnos_def by (metis (mono_tags, lifting) case_prod_conv old.sum.simps(5))

definition os_errors :: "('w \<Rightarrow> (io_error + unit) \<times> 'w) \<Rightarrow> bool" where
  "os_errors f \<longleftrightarrow> (\<forall>w e w'. f w = (Inl e, w') \<longrightarrow> (\<exists>n. e = Os n \<and> errno_ok n))"

lemma os_errors_checked: "kernel_errnos sys \<Longrightarrow> os_errors (checked sys c)"
  by (auto simp: os_errors_def checked_def dest: kernel_errnosD split: prod.splits sum.splits)

lemma os_errors_join: "kernel_errnos sys \<Longrightarrow> os_errors (join_in_child sys pid fd)"
  by (auto simp: os_errors_def join_in_child_def Let_def errno_ok_def EIO_def dest: kernel_errnosD
      split: prod.splits sum.splits if_splits)

lemma os_errors_run_calls: "kernel_errnos sys \<Longrightarrow> os_errors (run_calls sys cs)"
proof (induction cs)
  case Nil
  then show ?case by (simp add: os_errors_def)
next
  case (Cons c cs)
  then have IH: "os_errors (run_calls sys cs)" and c: "os_errors (checked sys c)"
    by (simp_all add: os_errors_checked)
  show ?case unfolding os_errors_def
  proof (intro allI impI)
    fix w e w' assume run: "run_calls sys (c # cs) w = (Inl e, w')"
    obtain r w1 where "checked sys c w = (r, w1)" by force
    with run IH c show "\<exists>n. e = Os n \<and> errno_ok n"
      unfolding os_errors_def by (cases r) (simp, blast)+
  qed
qed

lemma os_errors_apply_drop: "kernel_errnos sys \<Longrightarrow> os_errors (apply_drop sys plan)"
  using os_errors_run_calls [of sys "plan_calls plan"] by (simp add: os_errors_def apply_drop_calls)

lemma run_steps_error:
  "\<forall>(st, f)\<in>set steps. os_errors f \<Longrightarrow> run_steps steps w = (Some (st, e), w') \<Longrightarrow>
   st \<in> fst ` set steps \<and> (\<exists>n. e = Os n \<and> errno_ok n)"
proof (induction steps arbitrary: w)
  case (Cons sf steps)
  obtain st' f where sf: "sf = (st', f)" by (cases sf)
  obtain r w1 where f: "f w = (r, w1)" by force
  show ?case
  proof (cases r)
    case (Inl e')
    then show ?thesis using Cons.prems f sf by (auto simp: os_errors_def)
  next
    case (Inr u)
    then show ?thesis using Cons f sf by auto
  qed
qed simp

lemma setup_steps_os_errors:
  "kernel_errnos sys \<Longrightarrow> \<forall>(st, f)\<in>set (setup_steps sys pid su). os_errors f"
  by (auto simp: setup_steps_def os_errors_checked os_errors_join os_errors_apply_drop
      split: option.splits prod.splits)

lemma setup_steps_stages: "fst ` set (setup_steps sys pid su) \<subseteq> {StCwd, StSpawn, StPty, StCgroup, StPrivdrop}"
  by (auto simp: setup_steps_def split: option.splits prod.splits if_splits)

section \<open>Reading the report\<close>

definition failure_path :: "stage \<Rightarrow> string \<Rightarrow> string option \<Rightarrow> string option \<Rightarrow> string option" where
  "failure_path st argv0 cwd cg =
     (case st of StCwd \<Rightarrow> cwd | StExec \<Rightarrow> Some argv0 | StCgroup \<Rightarrow> cg | _ \<Rightarrow> None)"

definition delivers :: "(bytes \<Rightarrow> stream) \<Rightarrow> bool" where
  "delivers chunks \<longleftrightarrow> (\<forall>b. clean (chunks b) \<and> stream_bytes (chunks b) = b)"

lemma attribute_spawn: "attribute (report_bytes StSpawn n) e = StSpawn"
  by (simp add: attribute_def report_bytes_def Let_def)

lemma report_failure_step:
  assumes "delivers chunks" "errno_ok n" "st \<in> {StCwd, StSpawn, StPty, StCgroup, StPrivdrop}"
  shows "report_failure display (chunks (report_bytes st n)) (Os n) argv0 cwd cg
    = spawn_failure_new display st (Os n) (failure_path st argv0 cwd cg)"
proof -
  have "fst (read_exact 8 [] (chunks (report_bytes st n))) = Inr (report_bytes st n)"
    using assms(1) by (intro read_exact_report [of _ _ "[]"]) (simp_all add: delivers_def)
  moreover have "attribute (report_bytes st n) (Os n) = st"
    using attribute_report_bytes [of st n] attribute_spawn [of n] assms(2,3)
    by (auto simp: errno_ok_def)
  ultimately show ?thesis
    using assms(3) by (auto simp: report_failure_def failure_path_def Let_def)
qed

lemma report_failure_exec:
  assumes "delivers chunks"
  shows "report_failure display (chunks (report_bytes StExec 0)) e argv0 cwd cg
    = spawn_failure_new display StExec e (Some argv0)"
proof -
  have "fst (read_exact 8 [] (chunks (report_bytes StExec 0))) = Inr (report_bytes StExec 0)"
    using assms by (intro read_exact_report [of _ _ "[]"]) (simp_all add: delivers_def)
  then show ?thesis by (simp add: report_failure_def attribute_exec Let_def)
qed

lemma report_failure_empty:
  assumes "delivers chunks"
  shows "report_failure display (chunks []) e argv0 cwd cg = spawn_failure_new display StSpawn e None"
proof -
  have "clean (chunks [])" "stream_bytes (chunks []) = []" using assms by (simp_all add: delivers_def)
  then have "\<exists>e s'. read_exact 8 [] (chunks []) = (Inl e, s') \<and> kind e = UnexpectedEof"
    using read_exact_clean [of "chunks []" "[]" 8] by simp
  then show ?thesis by (auto simp: report_failure_def Let_def)
qed

section \<open>Properties\<close>

text \<open>C18: End to end, a structured spawn reports the operation that failed: whatever step of the
  child fails first, in the order working directory, session, terminal, cgroup, privileges, exec,
  the failure the parent returns carries that step's stage, its error and the path that belongs
  to it; a failed fork is a failure of the spawn itself, and without a failure the child runs.\<close>

theorem spawn_failure_names_operation:
  assumes "cs_reporter su" "\<not> saw_nul cmd" "cmd_cwd cmd = None" "only_interrupts os"
    and "delivers (so_report_stream sys)" "kernel_errnos (so_child sys)"
  shows "finish_spawn sys cmd su (Some os) argv0 cwd cg w =
    (case so_fork sys w of
       (Inl n, w0) \<Rightarrow> (Inl (spawn_failure_new (so_display sys) StSpawn (Os n) None), w0)
     | (Inr pid, w0) \<Rightarrow>
         (case run_steps (setup_steps (so_child sys) pid su) w0 of
            (Some (st, e), w1) \<Rightarrow>
              (Inl (spawn_failure_new (so_display sys) st e (failure_path st argv0 cwd cg)), w1)
          | (None, w1) \<Rightarrow>
              (case so_exec sys (cmd_argv cmd) w1 of
                 (Some n, w2) \<Rightarrow> (Inl (spawn_failure_new (so_display sys) StExec (Os n) (Some argv0)), w2)
               | (None, w2) \<Rightarrow> (Inr pid, w2))))"
proof -
  obtain r w0 where fork: "so_fork sys w = (r, w0)" by force
  show ?thesis
  proof (cases r)
    case (Inl n)
    with fork assms show ?thesis
      by (simp add: finish_spawn_def command_spawn_def report_failure_empty)
  next
    case (Inr pid)
    obtain failed w1 where run: "run_steps (setup_steps (so_child sys) pid su) w0 = (failed, w1)" by force
    show ?thesis
    proof (cases failed)
      case None
      obtain x w2 where "so_exec sys (cmd_argv cmd) w1 = (x, w2)" by force
      with None fork Inr run assms show ?thesis
        by (cases x) (simp_all add: finish_spawn_def command_spawn_def setup_apply_report report_failure_exec)
    next
      case (Some se)
      then obtain st e where se: "failed = Some (st, e)" by (cases se) auto
      from run_steps_error [OF setup_steps_os_errors [OF assms(6)] run [unfolded se]]
        setup_steps_stages [of "so_child sys" pid su]
      obtain n where n: "e = Os n" "errno_ok n" "st \<in> {StCwd, StSpawn, StPty, StCgroup, StPrivdrop}"
        by blast
      with se fork Inr run assms show ?thesis
        by (simp add: finish_spawn_def command_spawn_def setup_apply_report errno_sent_def
            report_failure_step [OF assms(5) n(2,3)])
    qed
  qed
qed

text \<open>An operating system whose directories are a set, where \<open>chdir\<close> fails.\<close>

fun no_chdir :: "'w child_os" where
  "no_chdir (Chdir d) w = (Inl ENOENT, w)"
| "no_chdir (WriteProcs fd b) w = (Inr (length b), w)"
| "no_chdir c w = (Inr 0, w)"

definition sample_os :: "string set spawn_os" where
  "sample_os = \<lparr>so_display = (\<lambda>e. ''error''), so_accounts = sample_db, so_fs = sample_fs, so_pid = 7,
     so_sequence = 0, so_pty = (\<lambda>c w. (Inr 5, w)), so_channel = (\<lambda>w. (Inr [], w)),
     so_fork = (\<lambda>w. (Inr 99, w)), so_child = no_chdir, so_exec = (\<lambda>a w. (None, w)),
     so_report_stream = (\<lambda>b. if b = [] then [] else [Fail (Os EINTR), Chunk b])\<rparr>"

lemma sample_os_delivers: "delivers (so_report_stream sample_os)"
  by (simp add: delivers_def sample_os_def decode_error_kind_def errno_defs)

lemma no_chdir_errnos: "kernel_errnos no_chdir"
  unfolding kernel_errnos_def
proof (intro allI)
  fix c and w :: 'a
  show "case no_chdir c w of (Inl e, _) \<Rightarrow> errno_ok e | _ \<Rightarrow> True"
    by (cases c) (simp_all add: errno_ok_def ENOENT_def)
qed

definition sample_setup :: child_setup where
  "sample_setup = \<lparr>cs_cwd = Some ''/nowhere'', cs_reporter = True, cs_plan = None, cs_placement = Some 4,
     cs_pty = False, cs_winsize = None\<rparr>"

theorem spawn_failure_names_operation_witness:
  "fst (finish_spawn sample_os (build_command (default_request [''true'']) True) sample_setup (Some [WroteErr EINTR])
      ''true'' (Some ''/nowhere'') None {})
    = Inl (spawn_failure_new (\<lambda>e. ''error'') StCwd (Os ENOENT) (Some ''/nowhere''))"
proof -
  let ?cmd = "build_command (default_request [''true'']) True"
  have "\<not> saw_nul ?cmd" "cmd_cwd ?cmd = None"
    by (simp_all add: saw_nul_def build_command_def default_request_def has_nul_def)
  moreover have "kernel_errnos (so_child sample_os)" by (simp add: sample_os_def no_chdir_errnos)
  moreover have "cs_reporter sample_setup" by (simp add: sample_setup_def)
  ultimately have "finish_spawn sample_os ?cmd sample_setup (Some [WroteErr EINTR]) ''true'' (Some ''/nowhere'') None {}
      = (Inl (spawn_failure_new (so_display sample_os) StCwd (Os ENOENT) (failure_path StCwd ''true'' (Some ''/nowhere'') None)), {})"
    by (subst spawn_failure_names_operation)
       (simp_all add: sample_os_delivers, simp add: sample_os_def setup_steps_def sample_setup_def checked_def)
  then show ?thesis by (simp add: failure_path_def sample_os_def)
qed

section \<open>Directories and cgroups\<close>

definition keeps :: "('w \<Rightarrow> 'd) \<Rightarrow> ('w \<Rightarrow> 'r \<times> 'w) \<Rightarrow> bool" where
  "keeps view f \<longleftrightarrow> (\<forall>w. view (snd (f w)) = view w)"

text \<open>A view of the world that changes, by \<open>g\<close>, only where \<open>exec\<close> succeeds.\<close>

definition exec_view :: "'w spawn_os \<Rightarrow> ('w \<Rightarrow> 'd) \<Rightarrow> (string list \<Rightarrow> 'd \<Rightarrow> 'd) \<Rightarrow> bool" where
  "exec_view sys view g \<longleftrightarrow> (\<forall>c. keeps view (so_pty sys c)) \<and> keeps view (so_channel sys)
     \<and> keeps view (so_fork sys) \<and> (\<forall>c. keeps view (so_child sys c))
     \<and> (\<forall>a w. view (snd (so_exec sys a w)) = (if fst (so_exec sys a w) = None then g a (view w) else view w))"

definition stepped :: "('w \<Rightarrow> 'd) \<Rightarrow> ('d \<Rightarrow> 'd) \<Rightarrow> 'e + 'a \<Rightarrow> 'w \<Rightarrow> 'w \<Rightarrow> bool" where
  "stepped view g r w w' \<longleftrightarrow> view w' = (case r of Inl _ \<Rightarrow> view w | Inr _ \<Rightarrow> g (view w))"

definition keeps_dirs :: "'w spawn_os \<Rightarrow> ('w \<Rightarrow> string set) \<Rightarrow> bool" where
  "keeps_dirs sys dirs \<longleftrightarrow> dir_laws (so_fs sys) dirs \<and> exec_view sys dirs (\<lambda>a d. d)"

lemma keepsD: "keeps view f \<Longrightarrow> f w = (r, w') \<Longrightarrow> view w' = view w"
  by (metis keeps_def snd_conv)

lemma keepsI: "(\<And>w r w'. f w = (r, w') \<Longrightarrow> view w' = view w) \<Longrightarrow> keeps view f"
  by (metis keeps_def surjective_pairing)

lemma keeps_checked: "keeps view (sys c) \<Longrightarrow> keeps view (checked sys c)"
  by (auto intro!: keepsI simp: checked_def dest: keepsD split: prod.splits sum.splits)

lemma keeps_join: "\<forall>c. keeps view (sys c) \<Longrightarrow> keeps view (join_in_child sys pid fd)"
  by (auto intro!: keepsI simp: join_in_child_def Let_def split: prod.splits sum.splits)
     (metis keepsD)+

lemma keeps_run_calls: "\<forall>c. keeps view (sys c) \<Longrightarrow> keeps view (run_calls sys cs)"
proof (induction cs)
  case Nil
  then show ?case by (simp add: keeps_def)
next
  case (Cons c cs)
  show ?case
  proof (rule keepsI)
    fix w r w' assume run: "run_calls sys (c # cs) w = (r, w')"
    obtain x w1 where x: "checked sys c w = (x, w1)" by force
    have "keeps view (checked sys c)" using Cons.prems by (simp add: keeps_checked)
    from keepsD [OF this x] have "view w1 = view w" .
    with run x Cons show "view w' = view w" by (cases x) (auto dest: keepsD)
  qed
qed

lemma keeps_apply_drop: "\<forall>c. keeps view (sys c) \<Longrightarrow> keeps view (apply_drop sys plan)"
  using keeps_run_calls [of view sys "plan_calls plan"] by (simp add: keeps_def apply_drop_calls)

lemma setup_steps_keep:
  "\<forall>c. keeps view (sys c) \<Longrightarrow> \<forall>(st, f)\<in>set (setup_steps sys pid su). keeps view f"
  by (auto simp: setup_steps_def keeps_checked keeps_join keeps_apply_drop split: option.splits prod.splits)

lemma setup_check_keeps: "keeps view f \<Longrightarrow> setup_check su st f s = (r, s') \<Longrightarrow> view (fst s') = view (fst s)"
  by (auto simp: setup_check_def Let_def dest: keepsD split: prod.splits if_splits)

lemma check_steps_keeps:
  "\<forall>(st, f)\<in>set steps. keeps view f \<Longrightarrow> check_steps su steps s = (r, s') \<Longrightarrow> view (fst s') = view (fst s)"
proof (induction steps arbitrary: s)
  case (Cons sf steps)
  obtain st f where sf: "sf = (st, f)" by (cases sf)
  obtain x s1 where x: "setup_check su st f s = (x, s1)" by (rule prod.exhaust)
  then have "view (fst s1) = view (fst s)" using Cons.prems(1) sf by (auto dest: setup_check_keeps)
  with x sf Cons show ?case by (cases x) auto
qed simp

lemma setup_apply_keeps:
  assumes "\<forall>c. keeps view (sys c)" "setup_apply sys pid su s = (r, s')"
  shows "view (fst s') = view (fst s)"
proof -
  obtain x s1 where x: "check_steps su (setup_steps sys pid su) s = (x, s1)" by (rule prod.exhaust)
  have "view (fst s1) = view (fst s)" by (rule check_steps_keeps [OF setup_steps_keep [OF assms(1)] x])
  with x assms(2) show ?thesis
    by (cases x) (auto simp: setup_apply_steps Let_def split: if_splits prod.splits)
qed

lemma exec_view_child: "exec_view sys view g \<Longrightarrow> \<forall>c. keeps view (so_child sys c)"
  by (simp add: exec_view_def)

lemma command_spawn_view:
  assumes "exec_view sys view g" "command_spawn sys cmd su s = (r, s')"
  shows "stepped view (g (cmd_argv cmd)) r (fst s) (fst s')"
proof -
  note k = assms(1) [unfolded exec_view_def]
  obtain f w0 where fork: "so_fork sys (fst s) = (f, w0)" by force
  have "keeps view (so_fork sys)" using k by simp
  from keepsD [OF this fork] have w0: "view w0 = view (fst s)" .
  consider (nul) "saw_nul cmd" | (nofork) e where "\<not> saw_nul cmd" "f = Inl e"
    | (child) pid where "\<not> saw_nul cmd" "f = Inr pid" by (cases f) blast+
  then show ?thesis
  proof cases
    case nul
    with assms(2) show ?thesis by (auto simp: command_spawn_def stepped_def)
  next
    case (nofork e)
    then have "s' = (w0, snd s)" "r = Inl (Os e)" using assms(2) fork by (simp_all add: command_spawn_def)
    with w0 show ?thesis by (simp add: stepped_def)
  next
    case (child pid)
    note False = child(1) and f = child(2)
    obtain c w1 where cwd: "(case cmd_cwd cmd of
          Some d \<Rightarrow> checked (so_child sys) (Chdir d) w0 | None \<Rightarrow> (Inr (), w0)) = (c, w1)" by force
    have "keeps view (checked (so_child sys) (Chdir d))" for d using k by (simp add: keeps_checked)
    with cwd have w1: "view w1 = view w0" by (auto dest: keepsD split: option.splits)
    obtain a s2 where hook: "try_then (case cmd_cwd cmd of
          Some d \<Rightarrow> (let (r, w') = checked (so_child sys) (Chdir d) w0 in (r, (w', snd s)))
        | None \<Rightarrow> (Inr (), (w0, snd s))) (\<lambda>_ s. setup_apply (so_child sys) pid su s) = (a, s2)"
      by (rule prod.exhaust)
    have s2: "view (fst s2) = view w1"
    proof (cases c)
      case (Inl e)
      with hook cwd show ?thesis by (auto split: option.splits)
    next
      case (Inr u)
      with hook cwd have "setup_apply (so_child sys) pid su (w1, snd s) = (a, s2)"
        by (auto split: option.splits)
      from setup_apply_keeps [OF exec_view_child [OF assms(1)] this] show ?thesis by simp
    qed
    obtain x w3 where x: "so_exec sys (cmd_argv cmd) (fst s2) = (x, w3)" by force
    then have "view w3 = (if x = None then g (cmd_argv cmd) (view (fst s2)) else view (fst s2))"
      using k by (metis fst_conv snd_conv)
    with s2 w0 w1 show ?thesis
      using assms(2) False f fork hook x unfolding command_spawn_def stepped_def
      by (cases a; cases s2; cases x) auto
  qed
qed

lemma finish_spawn_view:
  assumes "exec_view sys view g" "finish_spawn sys cmd su reader argv0 cwd cg w = (r, w')"
  shows "stepped view (g (cmd_argv cmd)) r w w'"
proof -
  define p0 where "p0 = \<lparr>rp_bytes = [], rp_outcomes = (case reader of Some os \<Rightarrow> os | None \<Rightarrow> [])\<rparr>"
  obtain x s where x: "command_spawn sys cmd su (w, p0) = (x, s)" by (rule prod.exhaust)
  have "stepped view (g (cmd_argv cmd)) x w (fst s)" using command_spawn_view [OF assms(1) x] by simp
  with assms(2) x show ?thesis
    by (cases x; cases s) (auto simp: finish_spawn_def p0_def Let_def stepped_def)
qed

lemma stepped_try_then:
  assumes "keeps view f" "try_then (f w) h = (r, w')" "\<And>a w1. h a w1 = (r, w') \<Longrightarrow> stepped view g r w1 w'"
  shows "stepped view g r w w'"
proof -
  obtain x w1 where x: "f w = (x, w1)" by force
  have w1: "view w1 = view w" by (rule keepsD [OF assms(1) x])
  show ?thesis
  proof (cases x)
    case (Inl e)
    with assms(2) x w1 show ?thesis by (auto simp: stepped_def)
  next
    case (Inr a)
    with assms(2) x have "h a w1 = (r, w')" by simp
    from assms(3) [OF this] w1 show ?thesis by (simp add: stepped_def split: sum.splits)
  qed
qed

lemma keeps_try_then:
  assumes "keeps view f" "\<And>a. keeps view (g a)"
  shows "keeps view (\<lambda>w. try_then (f w) g)"
proof (rule keepsI)
  fix w r w' assume run: "try_then (f w) g = (r, w')"
  obtain x w1 where x: "f w = (x, w1)" by force
  have w1: "view w1 = view w" by (rule keepsD [OF assms(1) x])
  show "view w' = view w"
  proof (cases x)
    case (Inl e)
    with run x w1 show ?thesis by simp
  next
    case (Inr a)
    with run x have "g a w1 = (r, w')" by simp
    from keepsD [OF assms(2) this] w1 show ?thesis by simp
  qed
qed

lemma keeps_prepare_child_pty:
  assumes "exec_view sys view g"
  shows "keeps view (prepare_child_pty sys)"
proof -
  have step: "keeps view (pty_step sys c)" for c
    using assms by (auto intro!: keepsI simp: pty_step_def exec_view_def split: prod.splits sum.splits)
      (metis keepsD)+
  have ret: "keeps view (\<lambda>w. (Inr m, w))" for m :: nat by (simp add: keeps_def)
  show ?thesis unfolding prepare_child_pty_def [abs_def]
    by (intro keeps_try_then step ret)
qed

lemma spawn_prepared_view:
  assumes "exec_view sys view g" "spawn_prepared sys request structured plan cgroup w = (r, w')"
  shows "stepped view (g (argv request)) r w w'"
proof -
  have pty: "keeps view (\<lambda>w. if pty request then
        (case prepare_child_pty sys w of
           (Inl e, w) \<Rightarrow> (Inl (spawn_failure_new d StPty e None), w) | (Inr m, w) \<Rightarrow> (Inr (Some m), w))
      else (Inr None, w))" for d
    by (rule keepsI) (auto dest: keepsD [OF keeps_prepare_child_pty [OF assms(1)]]
        split: prod.splits sum.splits if_splits)
  have "keeps view (so_channel sys)" using assms(1) by (simp add: exec_view_def)
  then have chan: "keeps view (\<lambda>w. if structured then
        (case so_channel sys w of
           (Inl e, w) \<Rightarrow> (Inl (spawn_failure_new d StSpawn e None), w) | (Inr os, w) \<Rightarrow> (Inr (Some os), w))
      else (Inr None, w))" for d
    by (intro keepsI) (auto dest: keepsD split: prod.splits sum.splits if_splits)
  have argv: "cmd_argv (build_command request structured) = argv request" by (simp add: build_command_def)
  have fin: "stepped view (g (argv request)) r w w'"
    if "try_then (finish_spawn sys (build_command request structured) su reader argv0 cwd cg w) (\<lambda>pid w. (Inr (pid, m), w))
          = (r :: spawn_failure + u32 \<times> nat option, w')"
    for su reader argv0 cwd cg m w r w'
  proof -
    obtain x w1 where x: "finish_spawn sys (build_command request structured) su reader argv0 cwd cg w = (x, w1)" by force
    from finish_spawn_view [OF assms(1) x] that x show ?thesis by (cases x) (auto simp: stepped_def argv)
  qed
  have ret: "keeps view (\<lambda>w. (x, w))" for x :: "spawn_failure + 'z" by (simp add: keeps_def)
  show ?thesis
    using assms(2) unfolding spawn_prepared_def Let_def
    apply (rule stepped_try_then [OF pty])
    apply (erule stepped_try_then [OF chan])
    apply (erule stepped_try_then [OF ret])
    apply (erule fin)
    done
qed

lemma select_cgroup_dirs:
  assumes "dir_laws (so_fs sys) dirs" "select_cgroup sys m w = (r, w')"
  shows "case r of
      Inl f \<Rightarrow> dirs w' = dirs w
    | Inr None \<Rightarrow> dirs w' = dirs w \<and> (\<exists>b. m = BestEffort b)
    | Inr (Some cg) \<Rightarrow> cg_dir cg \<notin> dirs w \<and> dirs w' = insert (cg_dir cg) (dirs w)
        \<and> (m = Required Required_value \<longrightarrow> cg_kill_fd cg \<noteq> None)"
proof -
  obtain x w1 where x: "try_prepare (so_display sys) (so_fs sys) (so_pid sys) (so_sequence sys)
      (m = Required Required_value) w = (x, w1)" by force
  note d = try_prepare_dirs [OF assms(1) x]
  show ?thesis
  proof (cases m)
    case (BestEffort b)
    with assms(2) x d show ?thesis
      by (cases x) (auto simp: select_cgroup_def prepare_cgroup_def split: if_splits)
  next
    case (Required v)
    then have "m = Required Required_value" by (cases v) simp
    with assms(2) x d show ?thesis
      by (cases x) (auto simp: select_cgroup_def prepare_required_def)
  qed
qed

lemma drop_cgroup_dirs:
  assumes "dir_laws fs dirs"
  shows "dirs (drop_cgroup fs cg w) = (case cg of Some c \<Rightarrow> dirs w - {cg_dir c} | None \<Rightarrow> dirs w)"
  using dir_laws_steps(6,7) [OF assms]
  by (auto simp: drop_cgroup_def Let_def split: option.splits)


definition fs_view :: "'w fs_ops \<Rightarrow> ('w \<Rightarrow> 'd) \<Rightarrow> bool" where
  "fs_view fs view \<longleftrightarrow> (\<forall>p. keeps view (fs_exists fs p)) \<and> (\<forall>p. keeps view (fs_read fs p))
     \<and> (\<forall>p. keeps view (fs_mkdir fs p)) \<and> (\<forall>p. keeps view (fs_rmdir fs p)) \<and> (\<forall>p. keeps view (fs_open_write fs p))
     \<and> (\<forall>fd w. view (fs_close fs fd w) = view w)"

lemma try_prepare_view:
  assumes "fs_view fs view" "try_prepare d fs n k required w = (r, w')"
  shows "view w' = view w"
proof -
  note k = assms(1) [unfolded fs_view_def]
  have close: "view (fs_close fs fd w) = view w" for fd w using k by simp
  have rmdir: "view (snd (fs_rmdir fs p w)) = view w" for p w using k by (simp add: keeps_def)
  obtain v2 w1 where v2: "is_cgroup2 fs w = (v2, w1)" by force
  have 1: "view w1 = view w" using v2 k by (auto simp: is_cgroup2_def dest: keepsD)
  obtain own w2 where own: "own_cgroup_dir fs w1 = (own, w2)" by force
  have 2: "view w2 = view w1"
    using own k by (auto simp: own_cgroup_dir_def read_to_string_def dest: keepsD split: prod.splits sum.splits option.splits)
  obtain dir w3 where dir: "create_child_dir d fs n k (projr own) w2 = (dir, w3)" by force
  have 3: "view w3 = view w2"
    using dir k by (auto simp: create_child_dir_def Let_def dest: keepsD split: prod.splits sum.splits)
  obtain procs w4 where procs: "fs_open_write fs (path_join (projr dir) ''cgroup.procs'') w3 = (procs, w4)" by force
  have 4: "view w4 = view w3" using procs k by (auto dest: keepsD)
  obtain kf w5 where kf: "fs_open_write fs (path_join (projr dir) ''cgroup.kill'') w4 = (kf, w5)" by force
  have 5: "view w5 = view w4" using kf k by (auto dest: keepsD)
  show ?thesis
    using assms(2) v2 own dir procs kf 1 2 3 4 5
    by (cases own; cases dir; cases procs; cases kf) (auto simp: try_prepare_def rmdir close split: if_splits)
qed

lemma select_cgroup_view:
  assumes "fs_view (so_fs sys) view" "select_cgroup sys m w = (r, w')"
  shows "view w' = view w"
  using assms(2)
  by (auto simp: select_cgroup_def prepare_cgroup_def prepare_required_def Let_def dest: try_prepare_view [OF assms(1)]
      split: cgroup_mode.splits if_splits prod.splits sum.splits)

lemma drop_cgroup_view: "fs_view fs view \<Longrightarrow> view (drop_cgroup fs cg w) = view w"
  by (auto simp: drop_cgroup_def fs_view_def keeps_def Let_def split: option.splits)

lemma spawn_child_view:
  assumes "exec_view sys view g" "fs_view (so_fs sys) view" "spawn_child sys request structured w = (r, w')"
  shows "stepped view (g (argv request)) r w w'"
proof (cases "argv request = [] \<or> isl (resolve (so_accounts sys) (rq_user request) (rq_group request))")
  case True
  with assms(3) show ?thesis
    by (cases "resolve (so_accounts sys) (rq_user request) (rq_group request)")
       (auto simp: spawn_child_def stepped_def split: if_splits)
next
  case False
  then obtain plan where plan: "resolve (so_accounts sys) (rq_user request) (rq_group request) = Inr plan"
    by (cases "resolve (so_accounts sys) (rq_user request) (rq_group request)") auto
  obtain c w1 where c: "select_cgroup sys (rq_cgroup request) w = (c, w1)" by force
  have w1: "view w1 = view w" by (rule select_cgroup_view [OF assms(2) c])
  show ?thesis
  proof (cases c)
    case (Inl f)
    with assms(3) False plan c w1 show ?thesis by (auto simp: spawn_child_def stepped_def)
  next
    case (Inr cg)
    obtain x w2 where x: "spawn_prepared sys request structured plan cg w1 = (x, w2)" by force
    from spawn_prepared_view [OF assms(1) x] assms(3) False plan c Inr x w1 drop_cgroup_view [OF assms(2)]
    show ?thesis by (cases x) (auto simp: spawn_child_def stepped_def)
  qed
qed

lemma sample_prepare_required: "\<exists>f w. prepare_required d sample_fs p s {} = (Inl f, w)"
proof -
  have fs: "fs_exists sample_fs q w = (True, w)" "fs_mkdir sample_fs q {} = (Inr (), {q})"
    "fs_open_write sample_fs q w = (Inl (Os EACCES), w)" for q w
    by (simp_all add: sample_fs_def)
  obtain r where "own_cgroup_dir sample_fs {} = (r, {})"
    by (cases "from_utf8 [48, 58, 58, 47, 117, 10]")
       (auto simp: own_cgroup_dir_def read_to_string_def sample_fs_def)
  then show ?thesis
    by (cases r) (simp_all add: prepare_required_def try_prepare_def is_cgroup2_def fs create_child_dir_def Let_def)
qed


section \<open>The order of the child's system calls\<close>

definition setup_calls :: "u32 \<Rightarrow> child_setup \<Rightarrow> child_call list" where
  "setup_calls pid su =
     (case cs_cwd su of Some d \<Rightarrow> [Chdir d] | None \<Rightarrow> [])
     @ [Setsid]
     @ (if cs_pty su then
          SetControllingTty 0 # (case cs_winsize su of Some (r, c) \<Rightarrow> [SetWindowSize 0 r c] | None \<Rightarrow> [])
        else [])
     @ (case cs_placement su of Some fd \<Rightarrow> [WriteProcs fd (decimal_pid pid)] | None \<Rightarrow> [])
     @ (case cs_plan su of Some plan \<Rightarrow> plan_calls plan | None \<Rightarrow> [])"

definition logs_calls :: "('w \<times> child_call list \<Rightarrow> (io_error + unit) \<times> 'w \<times> child_call list) \<Rightarrow> child_call list \<Rightarrow> bool" where
  "logs_calls f cs \<longleftrightarrow> (\<forall>w l. \<exists>k\<le>length cs. snd (snd (f (w, l))) = l @ take k cs
     \<and> (fst (f (w, l)) = Inr () \<longrightarrow> k = length cs))"

lemma logs_callsE:
  assumes "logs_calls f cs" "f s = (r, s')"
  obtains k where "k \<le> length cs" "snd s' = snd s @ take k cs" "r = Inr () \<Longrightarrow> k = length cs"
proof -
  obtain w l where s: "s = (w, l)" by (cases s)
  from assms(1) obtain k where "k \<le> length cs" "snd (snd (f (w, l))) = l @ take k cs"
    "fst (f (w, l)) = Inr () \<longrightarrow> k = length cs"
    unfolding logs_calls_def by blast
  with s assms(2) that show thesis by simp
qed

lemma logs_calls_run: "logs_calls (run_calls (logged sys) cs) cs"
  unfolding logs_calls_def
proof (intro allI)
  fix w l
  from run_calls_log_error [of cs sys w l] obtain k where "k \<le> length cs"
    "snd (snd (run_calls (logged sys) cs (w, l))) = l @ take k cs"
    "case fst (run_calls (logged sys) cs (w, l)) of Inr _ \<Rightarrow> k = length cs
     | Inl e \<Rightarrow> 0 < k \<and> (\<exists>w1 w2. checked sys (cs ! (k - 1)) w1 = (Inl e, w2))" by blast
  then show "\<exists>k\<le>length cs. snd (snd (run_calls (logged sys) cs (w, l))) = l @ take k cs
     \<and> (fst (run_calls (logged sys) cs (w, l)) = Inr () \<longrightarrow> k = length cs)"
    by (intro exI [of _ k]) (auto split: sum.splits)
qed

lemma logs_calls_checked: "logs_calls (checked (logged sys) c) [c]"
proof -
  have "run_calls (logged sys) [c] = checked (logged sys) c" by (rule ext) (rule run_calls_single)
  with logs_calls_run [of sys "[c]"] show ?thesis by simp
qed

lemma logs_calls_apply_drop: "logs_calls (apply_drop (logged sys) plan) (plan_calls plan)"
  using logs_calls_run [of sys "plan_calls plan"] by (simp add: logs_calls_def apply_drop_calls)

lemma logs_calls_join: "logs_calls (join_in_child (logged sys) pid fd) [WriteProcs fd (decimal_pid pid)]"
  by (auto simp: logs_calls_def join_in_child_def logged_def format_pid_form Let_def
      split: prod.splits sum.splits intro!: exI [of _ 1])

text \<open>The calls of each step, beside the steps.\<close>

inductive steps_log :: "(stage \<times> ('w \<times> child_call list \<Rightarrow> (io_error + unit) \<times> 'w \<times> child_call list)) list \<Rightarrow>
    child_call list \<Rightarrow> bool" where
  none: "steps_log [] []"
| some: "logs_calls f cs \<Longrightarrow> steps_log fs ds \<Longrightarrow> steps_log ((st, f) # fs) (cs @ ds)"

lemma steps_log_append: "steps_log xs cs \<Longrightarrow> steps_log ys ds \<Longrightarrow> steps_log (xs @ ys) (cs @ ds)"
  by (induction rule: steps_log.induct) (auto intro: steps_log.intros simp: steps_log.some)

lemma steps_log_one: "logs_calls f cs \<Longrightarrow> steps_log [(st, f)] cs"
  using steps_log.some [OF _ steps_log.none, of f cs st] by simp

lemma setup_steps_log: "steps_log (setup_steps (logged sys) pid su) (setup_calls pid su)"
  unfolding setup_steps_def setup_calls_def
  by (intro steps_log_append)
     (auto intro: steps_log.none steps_log_one logs_calls_checked logs_calls_join logs_calls_apply_drop
       steps_log_append [OF steps_log_one [OF logs_calls_checked], simplified] split: option.splits)

lemma check_steps_log:
  assumes "steps_log steps cs"
  shows "\<exists>k\<le>length cs. snd (fst (snd (check_steps su steps ((w, l), p)))) = l @ take k cs
     \<and> (fst (check_steps su steps ((w, l), p)) = Inr () \<longrightarrow> k = length cs)"
  using assms
proof (induction arbitrary: w l p rule: steps_log.induct)
  case (some f cs fs ds st)
  obtain r s1 where f: "f (w, l) = (r, s1)" by (rule prod.exhaust)
  from logs_callsE [OF some.hyps(1) f] obtain k where
    k: "k \<le> length cs" "snd s1 = l @ take k cs" "r = Inr () \<Longrightarrow> k = length cs" by auto
  obtain p1 where c: "setup_check su st f ((w, l), p) = (r, (s1, p1))"
    using f by (cases "cs_reporter su"; cases r)
      (auto simp: setup_check_def Let_def reporter_check_def split: prod.splits)
  show ?case
  proof (cases r)
    case (Inl e)
    with c k show ?thesis by (auto intro!: exI [of _ k])
  next
    case (Inr u)
    then have r: "r = Inr ()" by simp
    from some.IH [of "fst s1" "snd s1" p1] obtain j where
      "j \<le> length ds" "snd (fst (snd (check_steps su fs (s1, p1)))) = snd s1 @ take j ds"
      "fst (check_steps su fs (s1, p1)) = Inr () \<longrightarrow> j = length ds" by auto
    with c r k k(3) [OF r] show ?thesis by (auto intro!: exI [of _ "length cs + j"])
  qed
qed simp


definition terminal_setup :: child_setup where
  "terminal_setup = \<lparr>cs_cwd = None, cs_reporter = False, cs_plan = None, cs_placement = None,
     cs_pty = True, cs_winsize = Some (24, 80)\<rparr>"


section \<open>The environment\<close>

lemma command_env_get:
  assumes "distinct (map fst changes)" "hm_ok m"
  shows "hm_get (fold (\<lambda>(name, value) m. case value of Some v \<Rightarrow> hm_insert name v m | None \<Rightarrow> hm_remove name m)
      changes m) n
    = (case map_of changes n of Some value \<Rightarrow> value | None \<Rightarrow> hm_get m n)"
  using assms
proof (induction changes arbitrary: m)
  case (Cons nv changes)
  obtain name val where nv: "nv = (name, val)" by (cases nv)
  define m1 where "m1 = (case val of Some v \<Rightarrow> hm_insert name v m | None \<Rightarrow> hm_remove name m)"
  have m1: "hm_ok m1" using Cons.prems(2) hm.inv_ins hm.inv_rem by (auto simp: m1_def split: option.splits)
  have get: "hm_get m1 n = (if n = name then val else hm_get m n)"
    using Cons.prems(2) by (auto simp: m1_def hm.get_ins hm.get_rem split: option.splits)
  have "name \<notin> set (map fst changes)" using Cons.prems(1) nv by simp
  then have "map_of changes name = None" by (simp add: map_of_eq_None_iff)
  with Cons.IH [of m1] Cons.prems(1) m1 get show ?case
    by (auto simp: nv m1_def [symmetric] split: option.splits)
qed simp

text \<open>C33: The child's environment: a name the request sets has that value, one it maps to null is
  absent, and any other name is inherited, or absent in replacement mode.\<close>

theorem child_environment:
  assumes "distinct (map fst (env request))" "hm_ok inherited"
  shows "hm_get (command_env (build_command request structured) inherited) name =
    (case hm_get (env request) name of
       Some value \<Rightarrow> value
     | None \<Rightarrow> if rq_env_mode request = Replace then None else hm_get inherited name)"
  using command_env_get [OF assms(1), of "if rq_env_mode request = Replace then [] else inherited" name] assms(2)
  by (simp add: command_env_def build_command_def hm_ok_def split: option.splits)

theorem child_environment_witness:
  "hm_get (command_env (build_command ((default_request [''env''])\<lparr>env := [(''A'', Some ''1''), (''B'', None)]\<rparr>) True)
      [(''B'', ''2''), (''C'', ''3'')]) ''B'' = None"
  by (subst child_environment) (simp_all add: default_request_def hm_ok_def)

end
