(* ===== verification/Discovery.thy ===== *)
theory Discovery
  imports Tracking
begin

text \<open>
  What one scan of \<open>native/forcola_shim/src/tracking.rs\<close> finds, on a system that stands still while it
  runs and adopts orphans: exactly the processes below the shim or below a process tracked before
  and still there. The bound on attempts is shown to be enough.
\<close>

section \<open>A table of processes\<close>

type_synonym process_table = "u32 \<Rightarrow> process_record option"

text \<open>
  Reads and listings answer from the table \<open>tab\<close> and leave the world as it is; the table files each
  process under its own pid and is finite; an exited process can be reaped.
\<close>

definition undisturbed :: "'s source \<Rightarrow> 's \<Rightarrow> process_table \<Rightarrow> bool" where
  "undisturbed src w tab \<longleftrightarrow>
     finite (dom tab)
     \<and> (\<forall>p r. tab p = Some r \<longrightarrow> pid (identity r) = p)
     \<and> (\<forall>p. src_read src p w = (Inr (tab p), w))
     \<and> (\<forall>p. tab p \<noteq> None \<longrightarrow>
          (\<exists>ps. src_children src p w = (Inr ps, w) \<and> set ps = {q. \<exists>r. tab q = Some r \<and> ppid r = p}))
     \<and> (\<forall>p w. fst (src_reap src p w) = Inr ())"

definition current :: "process_table \<Rightarrow> process_identity \<Rightarrow> bool" where
  "current tab i \<longleftrightarrow> (\<exists>r. tab (pid i) = Some r \<and> same_process (identity r) i)"

text \<open>Where a scan starts, and what is below.\<close>

definition anchors :: "process_table \<Rightarrow> 's tracker \<Rightarrow> u32 set" where
  "anchors tab tr = insert (pid (shim tr))
     {p. \<exists>r. hm_get (processes tr) p = Some r \<and> current tab (identity r)}"

inductive below :: "process_table \<Rightarrow> u32 set \<Rightarrow> u32 \<Rightarrow> bool" for tab A where
  anchor: "p \<in> A \<Longrightarrow> below tab A p"
| child: "below tab A p \<Longrightarrow> tab q = Some r \<Longrightarrow> ppid r = p \<Longrightarrow> below tab A q"

text \<open>The tracker as scans leave it: one entry per pid, filed under it, never the shim itself, and
  room for the whole table.\<close>

definition tracker_ok :: "process_table \<Rightarrow> 's tracker \<Rightarrow> bool" where
  "tracker_ok tab tr \<longleftrightarrow>
     hm_ok (processes tr)
     \<and> (\<forall>p r. hm_get (processes tr) p = Some r \<longrightarrow> pid (identity r) = p \<and> p \<noteq> pid (shim tr))
     \<and> card (dom (hm_get (processes tr)) \<union> dom tab) \<le> process_limit tr"

lemma hm_ok_length: "hm_ok m \<Longrightarrow> length m = card (dom (hm_get m))"
  by (metis distinct_card dom_map_of_conv_image_fst hm_ok_def length_map list.set_map)

lemma same_pid: "same_process i j \<Longrightarrow> pid i = pid j \<and> started i = started j"
  by (simp add: same_process_def)

lemma same_current:
  "tab (pid i) = Some r \<Longrightarrow> pid (identity r) = pid i \<Longrightarrow> started i = started (identity r) \<longleftrightarrow> current tab i"
  by (auto simp: current_def same_process_def)

section \<open>The children of an anchor\<close>

definition rec_of :: "process_table \<Rightarrow> u32 \<Rightarrow> process_record" where
  "rec_of tab p = the (tab p)"

definition unvisited :: "process_table \<Rightarrow> u32 \<Rightarrow> (u32, start_time) hash_map \<Rightarrow> u32 list \<Rightarrow> u32 list" where
  "unvisited tab sh vs ps = filter (\<lambda>q. q \<noteq> sh \<and> hm_get vs q \<noteq> Some (started (identity (rec_of tab q)))) ps"

abbreviation add_all :: "process_table \<Rightarrow> u32 list \<Rightarrow> 's tracker \<Rightarrow> 's tracker" where
  "add_all tab qs \<equiv> fold (\<lambda>q. add_process q (rec_of tab q)) qs"

lemma add_process_simps [simp]:
  "processes (add_process p r tr) = hm_insert p r (processes tr)" "world (add_process p r tr) = world tr"
  "shim (add_process p r tr) = shim tr" "process_limit (add_process p r tr) = process_limit tr"
  by (simp_all add: add_process_def)

lemma room_for:
  assumes "tracker_ok tab tr" "finite (dom tab)" "tab p \<noteq> None"
  shows "\<not> at_limit p tr"
proof
  assume "at_limit p tr"
  then have p: "p \<notin> dom (hm_get (processes tr))" and full: "process_limit tr \<le> length (processes tr)"
    by (auto simp: at_limit_def)
  have "card (insert p (dom (hm_get (processes tr)))) \<le> card (dom (hm_get (processes tr)) \<union> dom tab)"
    using assms(2,3) by (intro card_mono) (auto simp: finite_dom_map_of)
  with p full assms(1) show False by (simp add: tracker_ok_def hm_ok_length finite_dom_map_of)
qed

lemma tracker_ok_add:
  assumes "tracker_ok tab tr" "tab p = Some r" "pid (identity r) = p" "p \<noteq> pid (shim tr)"
  shows "tracker_ok tab (add_process p r tr)"
proof -
  have "insert p (dom (hm_get (processes tr)) \<union> dom tab) = dom (hm_get (processes tr)) \<union> dom tab"
    using assms(2) by auto
  with assms show ?thesis
    by (auto simp: tracker_ok_def hm.get_ins hm.inv_ins)
qed

lemma scan_children_result:
  assumes "undisturbed src w tab" "world (sc_tracker sc) = w" "tracker_ok tab (sc_tracker sc)"
    and "\<forall>q\<in>set ps. \<exists>r. tab q = Some r \<and> ppid r = pid expected"
  shows "scan_children src expected ps sc =
    (let new = unvisited tab (pid (shim (sc_tracker sc))) (sc_visited sc) ps in
     sc\<lparr>sc_tracker := add_all tab new (sc_tracker sc), sc_queue := sc_queue sc @ map (\<lambda>q. identity (rec_of tab q)) new\<rparr>)"
  using assms(2-)
proof (induction ps arbitrary: sc)
  case (Cons p ps)
  obtain r where r: "tab p = Some r" "ppid r = pid expected" using Cons.prems(3) by auto
  have pr: "pid (identity r) = p" using assms(1) r(1) by (simp add: undisturbed_def)
  have rd: "tr_read src p (sc_tracker sc) = (Inr (Some r), sc_tracker sc)"
    using assms(1) Cons.prems(1) r by (simp add: tr_read_def undisturbed_def)
  show ?case
  proof (cases "p = pid (shim (sc_tracker sc)) \<or> hm_get (sc_visited sc) p = Some (started (identity r))")
    case True
    have "scan_children src expected (p # ps) sc = scan_children src expected ps sc"
      using True rd r by auto
    with Cons True r show ?thesis by (auto simp: unvisited_def rec_of_def)
  next
    case False
    let ?sc = "sc\<lparr>sc_tracker := add_process p r (sc_tracker sc), sc_queue := sc_queue sc @ [identity r]\<rparr>"
    have "\<not> at_limit p (sc_tracker sc)"
      using room_for [OF Cons.prems(2)] assms(1) r by (simp add: undisturbed_def)
    with False rd r have "scan_children src expected (p # ps) sc = scan_children src expected ps ?sc" by simp
    moreover have "tracker_ok tab (sc_tracker ?sc)"
      using tracker_ok_add [OF Cons.prems(2) r(1) pr] False by simp
    ultimately show ?thesis
      using Cons.IH [of ?sc] Cons.prems False r by (simp add: unvisited_def rec_of_def Let_def)
  qed
qed (simp add: unvisited_def Let_def)

section \<open>One anchor\<close>

lemma unvisited_set: "set (unvisited tab sh vs ps) =
    {q \<in> set ps. q \<noteq> sh \<and> hm_get vs q \<noteq> Some (started (identity (rec_of tab q)))}"
  by (auto simp: unvisited_def)

lemma visit_gone:
  assumes "undisturbed src w tab" "world (sc_tracker sc) = w" "\<not> current tab e"
  shows "scan_visit src e sc = sc\<lparr>sc_tracker := forget e (sc_tracker sc)\<rparr>"
proof -
  have rd: "tr_read src (pid e) (sc_tracker sc) = (Inr (tab (pid e)), sc_tracker sc)"
    using assms(1,2) by (simp add: tr_read_def undisturbed_def)
  with assms(3) show ?thesis
    by (auto simp: scan_visit_def current_def Let_def split: option.splits)
qed

lemma visit_current:
  assumes "undisturbed src w tab" "world (sc_tracker sc) = w" "tracker_ok tab (sc_tracker sc)"
    and "tab (pid e) = Some r" "same_process (identity r) e"
  defines "sh \<equiv> pid (shim (sc_tracker sc))"
    and "vs \<equiv> hm_insert (pid e) (started e) (sc_visited sc)"
    and "t1 \<equiv> if pid e \<noteq> pid (shim (sc_tracker sc)) then add_process (pid e) r (sc_tracker sc) else sc_tracker sc"
  shows "\<exists>ps. set ps = {q. \<exists>c. tab q = Some c \<and> ppid c = pid e}
    \<and> scan_visit src e sc = sc\<lparr>sc_tracker := add_all tab (unvisited tab sh vs ps) t1, sc_visited := vs,
         sc_queue := sc_queue sc @ map (\<lambda>q. identity (rec_of tab q)) (unvisited tab sh vs ps)\<rparr>"
proof -
  have rd: "tr_read src (pid e) t = (Inr (Some r), t)" if "world t = w" for t
    using assms(1,4) that by (simp add: tr_read_def undisturbed_def)
  obtain ps where ps: "src_children src (pid e) w = (Inr ps, w)"
    "set ps = {q. \<exists>c. tab q = Some c \<and> ppid c = pid e}" using assms(1,4) unfolding undisturbed_def by blast
  have kids: "tr_children src (pid e) t = (Inr ps, t)" if "world t = w" for t
    using ps(1) that by (simp add: tr_children_def)
  have pr: "pid (identity r) = pid e" using assms(1,4) by (simp add: undisturbed_def)
  have st: "started (identity r) = started e" using assms(5) by (simp add: same_process_def)
  have w1: "world t1 = w" using assms(2) by (simp add: t1_def)
  have sh1: "shim t1 = shim (sc_tracker sc)" by (simp add: t1_def)
  have ok1: "tracker_ok tab t1" using tracker_ok_add [OF assms(3,4) pr] assms(3) by (simp add: t1_def)
  let ?sc = "sc\<lparr>sc_tracker := t1, sc_visited := vs\<rparr>"
  have "scan_visit src e sc = scan_edges src e ?sc"
    using rd [OF assms(2)] assms(5) st by (simp add: scan_visit_def vs_def t1_def Let_def)
  also have "\<dots> = scan_children src e ps ?sc"
    using kids [OF w1] rd [OF w1] assms(5) by (cases sc) (simp add: scan_edges_def)
  also have "\<dots> = ?sc\<lparr>sc_tracker := add_all tab (unvisited tab sh vs ps) t1,
         sc_queue := sc_queue sc @ map (\<lambda>q. identity (rec_of tab q)) (unvisited tab sh vs ps)\<rparr>"
    using scan_children_result [OF assms(1), of ?sc ps e] w1 ok1 ps(2) by (simp add: sh_def sh1 Let_def)
  finally show ?thesis using ps(2) by (intro exI [of _ ps]) simp
qed

lemma add_all_fields:
  "processes (add_all tab qs tr) = fold (\<lambda>q. hm_insert q (rec_of tab q)) qs (processes tr)"
  "add_all tab qs tr = tr\<lparr>processes := fold (\<lambda>q. hm_insert q (rec_of tab q)) qs (processes tr)\<rparr>"
  by (induction qs arbitrary: tr) (simp_all add: add_process_def)

lemma get_add_all:
  "hm_get (processes (add_all tab qs tr)) p = (if p \<in> set qs then Some (rec_of tab p) else hm_get (processes tr) p)"
  by (induction qs arbitrary: tr) (auto simp: hm.get_ins)

lemma tracker_ok_add_all:
  assumes "undisturbed src w tab" "tracker_ok tab tr" "\<forall>q\<in>set qs. tab q \<noteq> None \<and> q \<noteq> pid (shim tr)"
  shows "tracker_ok tab (add_all tab qs tr)"
  using assms(2,3)
proof (induction qs arbitrary: tr)
  case (Cons q qs)
  then obtain r where r: "tab q = Some r" by auto
  then have "tracker_ok tab (add_process q (rec_of tab q) tr)"
    using assms(1) Cons.prems by (intro tracker_ok_add) (auto simp: rec_of_def undisturbed_def)
  with Cons show ?case by simp
qed simp

section \<open>The loop over the queue\<close>

definition loop_inv :: "process_table \<Rightarrow> u32 set \<Rightarrow> 's \<Rightarrow> 's scan \<Rightarrow> bool" where
  "loop_inv tab A w sc \<longleftrightarrow>
     world (sc_tracker sc) = w \<and> tracker_ok tab (sc_tracker sc)
     \<and> (\<forall>p s. hm_get (sc_visited sc) p = Some s \<longrightarrow>
          (\<exists>r. tab p = Some r \<and> started (identity r) = s \<and> below tab A p
             \<and> (p \<noteq> pid (shim (sc_tracker sc)) \<longrightarrow> hm_get (processes (sc_tracker sc)) p = Some r)))
     \<and> (\<forall>i\<in>set (sc_queue sc). current tab i \<longrightarrow> below tab A (pid i))
     \<and> (\<forall>p q r. hm_get (sc_visited sc) p \<noteq> None \<longrightarrow> tab q = Some r \<longrightarrow> ppid r = p \<longrightarrow> q \<noteq> pid (shim (sc_tracker sc)) \<longrightarrow>
          hm_get (sc_visited sc) q \<noteq> None \<or> identity r \<in> set (sc_queue sc))
     \<and> (\<forall>a\<in>A. hm_get (sc_visited sc) a \<noteq> None \<or> (\<exists>i\<in>set (sc_queue sc). pid i = a \<and> current tab i))
     \<and> (\<forall>p r. hm_get (processes (sc_tracker sc)) p = Some r \<longrightarrow>
          hm_get (sc_visited sc) p \<noteq> None \<or> identity r \<in> set (sc_queue sc))"

lemma loop_invD:
  assumes "loop_inv tab A w sc"
  shows "world (sc_tracker sc) = w" "tracker_ok tab (sc_tracker sc)"
    and "hm_get (sc_visited sc) p = Some s \<Longrightarrow> \<exists>r. tab p = Some r \<and> started (identity r) = s \<and> below tab A p
             \<and> (p \<noteq> pid (shim (sc_tracker sc)) \<longrightarrow> hm_get (processes (sc_tracker sc)) p = Some r)"
    and "i \<in> set (sc_queue sc) \<Longrightarrow> current tab i \<Longrightarrow> below tab A (pid i)"
    and "hm_get (sc_visited sc) p \<noteq> None \<Longrightarrow> tab q = Some r \<Longrightarrow> ppid r = p \<Longrightarrow> q \<noteq> pid (shim (sc_tracker sc)) \<Longrightarrow>
          hm_get (sc_visited sc) q \<noteq> None \<or> identity r \<in> set (sc_queue sc)"
    and "a \<in> A \<Longrightarrow> hm_get (sc_visited sc) a \<noteq> None \<or> (\<exists>i\<in>set (sc_queue sc). pid i = a \<and> current tab i)"
    and "hm_get (processes (sc_tracker sc)) p = Some r \<Longrightarrow>
          hm_get (sc_visited sc) p \<noteq> None \<or> identity r \<in> set (sc_queue sc)"
  using assms unfolding loop_inv_def by blast+

lemma loop_inv_skip:
  assumes "loop_inv tab A w sc" "sc_queue sc = e # es" "hm_get (sc_visited sc) (pid e) = Some (started e)"
    and "undisturbed src w tab"
  shows "loop_inv tab A w (sc\<lparr>sc_queue := es\<rparr>)"
proof -
  note D = loop_invD [OF assms(1)]
  have pids: "pid (identity r) = q" if "tab q = Some r" for q r
    using assms(4) that by (simp add: undisturbed_def)
  have trk: "pid (identity r) = q" if "hm_get (processes (sc_tracker sc)) q = Some r" for q r
    using D(2) that by (simp add: tracker_ok_def)
  show ?thesis
    unfolding loop_inv_def
  proof (intro conjI allI ballI impI, goal_cases)
    case (5 p q r) then show ?case using D(5) [of p q r] assms(2,3) pids by force
  next
    case (6 a) then show ?case using D(6) [of a] assms(2,3) by force
  next
    case (7 p r) then show ?case using D(7) [of p r] assms(2,3) trk by force
  qed (use D(1-4) assms(2) in auto)
qed

lemma forget_same: "processes (forget e tr) = (case hm_get (processes tr) (pid e) of
    Some r \<Rightarrow> if same_process (identity r) e then hm_remove (pid e) (processes tr) else processes tr
  | None \<Rightarrow> processes tr)"
  by (auto simp: forget_def remove_process_def split: option.splits)

lemma forget_fields: "forget e tr = tr\<lparr>processes := processes (forget e tr)\<rparr>"
  by (auto simp: forget_def remove_process_def split: option.splits)

lemma forget_frame [simp]:
  "world (forget e tr) = world tr" "shim (forget e tr) = shim tr" "process_limit (forget e tr) = process_limit tr"
  by (subst forget_fields, simp)+

lemma get_forget:
  "hm_ok (processes tr) \<Longrightarrow> hm_get (processes (forget e tr)) p =
    (if p = pid e \<and> (\<exists>r. hm_get (processes tr) p = Some r \<and> same_process (identity r) e) then None
     else hm_get (processes tr) p)"
  by (auto simp: forget_same hm.get_rem split: option.splits)

lemma tracker_ok_forget:
  assumes "tracker_ok tab tr" "finite (dom tab)"
  shows "tracker_ok tab (forget e tr)"
proof -
  have ok: "hm_ok (processes tr)" using assms(1) by (simp add: tracker_ok_def)
  then have "hm_ok (processes (forget e tr))"
    by (auto simp: forget_same hm.inv_rem split: option.splits)
  moreover have "dom (hm_get (processes (forget e tr))) \<subseteq> dom (hm_get (processes tr))"
    by (auto simp: get_forget [OF ok] split: if_splits)
  then have "card (dom (hm_get (processes (forget e tr))) \<union> dom tab) \<le> card (dom (hm_get (processes tr)) \<union> dom tab)"
    using assms(2) by (intro card_mono) (auto simp: finite_dom_map_of)
  ultimately show ?thesis using assms(1) by (auto simp: tracker_ok_def get_forget [OF ok] split: if_splits)
qed

lemma loop_inv_gone:
  assumes "loop_inv tab A w sc" "sc_queue sc = e # es" "\<not> current tab e" "undisturbed src w tab"
  shows "loop_inv tab A w (sc\<lparr>sc_queue := es, sc_tracker := forget e (sc_tracker sc)\<rparr>)"
proof -
  note D = loop_invD [OF assms(1)]
  have ok: "hm_ok (processes (sc_tracker sc))" using D(2) by (simp add: tracker_ok_def)
  have fin: "finite (dom tab)" using assms(4) by (simp add: undisturbed_def)
  have cur: "current tab (identity r)" if "tab q = Some r" for q r
    using assms(4) that by (auto simp: undisturbed_def current_def same_process_def)
  show ?thesis
    unfolding loop_inv_def
  proof (intro conjI allI ballI impI, goal_cases)
    case 1 then show ?case using D(1) by simp
  next
    case 2 then show ?case using tracker_ok_forget [OF D(2) fin] by simp
  next
    case (3 p s)
    then obtain r where r: "tab p = Some r" "started (identity r) = s" "below tab A p"
      "p \<noteq> pid (shim (sc_tracker sc)) \<longrightarrow> hm_get (processes (sc_tracker sc)) p = Some r" using D(3) [of p s] by auto
    have "\<not> (p = pid e \<and> same_process (identity r) e)" using r(1) assms(3) by (auto simp: current_def)
    with r show ?case by (auto simp: get_forget [OF ok])
  next
    case (4 i) then show ?case using D(4) [of i] assms(2) by simp
  next
    case (5 p q r) then show ?case using D(5) [of p q r] assms(2,3) cur by auto
  next
    case (6 a) then show ?case using D(6) [of a] assms(2,3) by auto
  next
    case (7 p r)
    then have g: "hm_get (processes (sc_tracker sc)) p = Some r" "\<not> (p = pid e \<and> same_process (identity r) e)"
      by (auto simp: get_forget [OF ok] split: if_splits)
    then have "identity r \<noteq> e" using D(2) by (auto simp: tracker_ok_def same_process_def)
    with D(7) [OF g(1)] assms(2) show ?case by auto
  qed
qed

lemma loop_inv_current:
  assumes inv: "loop_inv tab A w sc" and q: "sc_queue sc = e # es" and c: "current tab e"
    and new: "hm_get (sc_visited sc) (pid e) \<noteq> Some (started e)" and u: "undisturbed src w tab"
  shows "\<exists>sc'. scan_visit src e (sc\<lparr>sc_queue := es\<rparr>) = sc' \<and> loop_inv tab A w sc'
    \<and> hm_get (sc_visited sc) (pid e) = None \<and> sc_visited sc' = hm_insert (pid e) (started e) (sc_visited sc)
    \<and> sc_incomplete sc' = sc_incomplete sc
    \<and> (\<exists>m. sc_tracker sc' = (sc_tracker sc)\<lparr>processes := m\<rparr>)
    \<and> (\<exists>is. sc_queue sc' = es @ is \<and> (\<forall>i\<in>set is. current tab i))"
proof -
  note D = loop_invD [OF inv]
  obtain r where r: "tab (pid e) = Some r" "same_process (identity r) e" using c by (auto simp: current_def)
  have pids: "pid (identity r) = p" if "tab p = Some r" for p r using u that by (simp add: undisturbed_def)
  have cur: "current tab (identity r)" if "tab p = Some r" for p r
    using pids [OF that] that by (auto simp: current_def same_process_def)
  have st: "started (identity r) = started e" using r(2) by (simp add: same_process_def)
  have fresh: "hm_get (sc_visited sc) (pid e) = None"
  proof (cases "hm_get (sc_visited sc) (pid e)")
    case (Some s)
    with D(3) [OF Some] r(1) st new show ?thesis by auto
  qed simp
  define sh where "sh = pid (shim (sc_tracker sc))"
  define vs where "vs = hm_insert (pid e) (started e) (sc_visited sc)"
  define t1 where "t1 = (if pid e \<noteq> sh then add_process (pid e) r (sc_tracker sc) else sc_tracker sc)"
  obtain ps where ps: "set ps = {q. \<exists>c. tab q = Some c \<and> ppid c = pid e}"
    and run: "scan_visit src e (sc\<lparr>sc_queue := es\<rparr>) = sc\<lparr>sc_queue := es, sc_tracker := add_all tab (unvisited tab sh vs ps) t1,
         sc_visited := vs, sc_queue := es @ map (\<lambda>q. identity (rec_of tab q)) (unvisited tab sh vs ps)\<rparr>"
    using visit_current [OF u, of "sc\<lparr>sc_queue := es\<rparr>" e r] D(1,2) r by (auto simp: sh_def vs_def t1_def)
  define us where "us = unvisited tab sh vs ps"
  let ?sc = "sc\<lparr>sc_tracker := add_all tab us t1, sc_visited := vs,
     sc_queue := es @ map (\<lambda>q. identity (rec_of tab q)) us\<rparr>"
  have us: "tab q = Some (rec_of tab q) \<and> ppid (rec_of tab q) = pid e \<and> q \<noteq> sh" if "q \<in> set us" for q
    using that ps by (auto simp: us_def unvisited_set rec_of_def)
  have kid: "hm_get vs q \<noteq> None \<or> q \<in> set us" if "tab q = Some c" "ppid c = pid e" "q \<noteq> sh" for q c
    using that ps by (auto simp: us_def unvisited_set)
  have vs: "hm_get vs p = (if p = pid e then Some (started e) else hm_get (sc_visited sc) p)" for p
    by (simp add: vs_def hm.get_ins)
  have sh: "pid (shim (add_all tab us t1)) = sh" "world (add_all tab us t1) = w"
    using D(1) by (simp_all add: add_all_fields(2) t1_def sh_def)
  have procs: "hm_get (processes (add_all tab us t1)) p =
     (if p \<in> set us then tab p else if p = pid e \<and> p \<noteq> sh then Some r else hm_get (processes (sc_tracker sc)) p)" for p
    using us by (auto simp: get_add_all t1_def hm.get_ins)
  have ok: "tracker_ok tab (add_all tab us t1)"
  proof (rule tracker_ok_add_all [OF u])
    show "tracker_ok tab t1"
      using D(2) tracker_ok_add [OF D(2) r(1) pids [OF r(1)]] by (simp add: t1_def sh_def)
    show "\<forall>q\<in>set us. tab q \<noteq> None \<and> q \<noteq> pid (shim t1)" using us by (auto simp: t1_def sh_def)
  qed
  have e: "below tab A (pid e)" using D(4) [OF _ c] q by simp
  have "loop_inv tab A w ?sc"
    unfolding loop_inv_def
  proof (intro conjI allI ballI impI, goal_cases)
    case (3 p s)
    show ?case
    proof (cases "p = pid e")
      case True
      with 3 e r(1) st us show ?thesis by (auto simp: sh procs vs)
    next
      case False
      with 3 have "hm_get (sc_visited sc) p = Some s" by (simp add: vs)
      from D(3) [OF this] False show ?thesis by (auto simp: sh sh_def procs)
    qed
  next
    case (4 i)
    then consider "i \<in> set es" | q where "q \<in> set us" "i = identity (rec_of tab q)" by auto
    then show ?case
    proof cases
      case 1 with D(4) [OF _ 4(2)] q show ?thesis by simp
    next
      case (2 q)
      with us [of q] pids [of q] e show ?thesis by (auto intro: below.child)
    qed
  next
    case (5 p q c)
    show ?case
    proof (cases "p = pid e")
      case True
      have "q \<noteq> sh" using 5(4) sh(1) by simp
      from kid [OF 5(2) _ this] True 5(2,3) have "hm_get vs q \<noteq> None \<or> q \<in> set us" by simp
      moreover have "rec_of tab q = c" using 5(2) by (simp add: rec_of_def)
      ultimately show ?thesis by auto
    next
      case False
      with 5 D(5) [of p q c] q pids [OF 5(2)] show ?thesis by (auto simp: sh sh_def vs)
    qed
  next
    case (6 a)
    with D(6) [of a] q show ?case by (auto simp: vs)
  next
    case (7 p c)
    show ?case
    proof (cases "p \<in> set us")
      case True
      with 7 us [of p] show ?thesis by (auto simp: procs)
    next
      case False
      show ?thesis
      proof (cases "p = pid e")
        case False2: False
        with 7 False have "hm_get (processes (sc_tracker sc)) p = Some c" by (simp add: procs)
        with D(7) [OF this] D(2) q False2 show ?thesis by (auto simp: vs tracker_ok_def)
      qed (simp add: vs)
    qed
  qed (simp_all add: sh ok)
  moreover have "scan_visit src e (sc\<lparr>sc_queue := es\<rparr>) = ?sc"
    unfolding run us_def [symmetric] by (cases sc) simp
  moreover have "add_all tab us t1 = (sc_tracker sc)\<lparr>processes := processes (add_all tab us t1)\<rparr>"
    by (simp add: add_all_fields t1_def add_process_def)
  then have "\<exists>m. sc_tracker ?sc = (sc_tracker sc)\<lparr>processes := m\<rparr>" by auto
  moreover have "\<forall>i\<in>set (map (\<lambda>q. identity (rec_of tab q)) us). current tab i"
    using us cur by auto
  ultimately show ?thesis using fresh by (intro exI [of _ ?sc]) (auto simp: vs_def)
qed

text \<open>Attempts are spent on anchors visited for the first time and on stale ones.\<close>

definition credit_left :: "process_table \<Rightarrow> 's scan \<Rightarrow> nat" where
  "credit_left tab sc = card (dom tab - dom (hm_get (sc_visited sc))) + length (filter (\<lambda>i. \<not> current tab i) (sc_queue sc))"

lemma scan_loop_complete:
  assumes "undisturbed src w tab" "loop_inv tab A w sc" "attempts + credit_left tab sc \<le> bound"
  shows "\<exists>sc'. scan_loop src bound attempts sc = sc' \<and> loop_inv tab A w sc' \<and> sc_queue sc' = []
    \<and> sc_incomplete sc' = sc_incomplete sc \<and> (\<exists>m. sc_tracker sc' = (sc_tracker sc)\<lparr>processes := m\<rparr>)"
  using assms
proof (induction src bound attempts sc rule: scan_loop.induct)
  case (1 src bound attempts sc)
  note u = "1.prems"(1) and inv = "1.prems"(2) and credit = "1.prems"(3)
  note D = loop_invD [OF inv]
  have fin: "finite (dom tab)" using u by (simp add: undisturbed_def)
  show ?case
  proof (cases "sc_queue sc")
    case Nil
    then have "scan_loop src bound attempts sc = sc" by (simp add: scan_loop.simps)
    with inv Nil show ?thesis by (auto intro: exI [of _ "processes (sc_tracker sc)"])
  next
    case (Cons e es)
    let ?sc = "sc\<lparr>sc_queue := es\<rparr>"
    show ?thesis
    proof (cases "hm_get (sc_visited sc) (pid e) = Some (started e)")
      case True
      have run: "scan_loop src bound attempts sc = scan_loop src bound attempts ?sc"
        by (subst scan_loop.simps) (simp add: Cons True)
      have "attempts + credit_left tab ?sc \<le> bound"
        using credit Cons by (simp add: credit_left_def split: if_splits)
      from "1.IH"(1) [OF Cons refl _ u loop_inv_skip [OF inv Cons True u] this] True run show ?thesis by simp
    next
      case new: False
      show ?thesis
      proof (cases "current tab e")
        case True
        from loop_inv_current [OF inv Cons True new u] obtain sc' m js where
          sc': "scan_visit src e ?sc = sc'" "loop_inv tab A w sc'" "hm_get (sc_visited sc) (pid e) = None"
          "sc_visited sc' = hm_insert (pid e) (started e) (sc_visited sc)" "sc_incomplete sc' = sc_incomplete sc"
          "sc_tracker sc' = (sc_tracker sc)\<lparr>processes := m\<rparr>" "sc_queue sc' = es @ js" "\<forall>i\<in>set js. current tab i"
          by blast
        have "pid e \<in> dom tab - dom (hm_get (sc_visited sc))" using True sc'(3) by (auto simp: current_def)
        then have "Suc (card (dom tab - dom (hm_get (sc_visited sc)) - {pid e})) = card (dom tab - dom (hm_get (sc_visited sc)))"
          using fin by (intro card_Suc_Diff1) auto
        moreover have "dom (hm_get (sc_visited sc')) = insert (pid e) (dom (hm_get (sc_visited sc)))"
          unfolding sc'(4) hm.get_ins by simp
        then have "dom tab - dom (hm_get (sc_visited sc')) = dom tab - dom (hm_get (sc_visited sc)) - {pid e}"
          by blast
        ultimately have "card (dom tab - dom (hm_get (sc_visited sc))) = Suc (card (dom tab - dom (hm_get (sc_visited sc')))) "
          by metis
        moreover have "filter (\<lambda>i. \<not> current tab i) js = []" using sc'(8) by (simp add: filter_empty_conv)
        ultimately have left: "Suc attempts + credit_left tab sc' \<le> bound"
          using credit Cons True by (simp add: credit_left_def sc'(7))
        then have run: "scan_loop src bound attempts sc = scan_loop src bound (Suc attempts) sc'"
          by (subst scan_loop.simps) (simp add: Cons new sc'(1))
        from left "1.IH"(2) [OF Cons refl _ _ u] new sc'(1,2) obtain sc'' m' where
          "scan_loop src bound (Suc attempts) sc' = sc''" "loop_inv tab A w sc''" "sc_queue sc'' = []"
          "sc_incomplete sc'' = sc_incomplete sc'" "sc_tracker sc'' = (sc_tracker sc')\<lparr>processes := m'\<rparr>" by auto
        with run sc'(5,6) show ?thesis by auto
      next
        case stale: False
        let ?sc' = "?sc\<lparr>sc_tracker := forget e (sc_tracker sc)\<rparr>"
        have v: "scan_visit src e ?sc = ?sc'" using visit_gone [OF u _ stale, of ?sc] D(1) by simp
        have left: "Suc attempts + credit_left tab ?sc' \<le> bound"
          using credit Cons stale by (simp add: credit_left_def)
        then have run: "scan_loop src bound attempts sc = scan_loop src bound (Suc attempts) ?sc'"
          by (subst scan_loop.simps) (simp add: Cons new v)
        have inv': "loop_inv tab A w ?sc'" using loop_inv_gone [OF inv Cons stale u] .
        from left "1.IH"(2) [OF Cons refl _ _ u] new v inv' obtain sc'' m' where
          "scan_loop src bound (Suc attempts) ?sc' = sc''" "loop_inv tab A w sc''" "sc_queue sc'' = []"
          "sc_incomplete sc'' = sc_incomplete sc" "sc_tracker sc'' = (forget e (sc_tracker sc))\<lparr>processes := m'\<rparr>" by auto
        with run forget_fields [of e "sc_tracker sc"] show ?thesis by (metis tracker.update_convs(4) tracker.surjective)
      qed
    qed
  qed
qed

section \<open>The whole scan\<close>

lemma scan_start_inv:
  assumes "tracker_ok tab tr" "adopt_orphans tr" "current tab (shim tr)"
  shows "loop_inv tab (anchors tab tr) (world tr) (scan_start tr)"
proof -
  have ok: "hm_ok (processes tr)" "\<And>p r. hm_get (processes tr) p = Some r \<Longrightarrow> pid (identity r) = p"
    using assms(1) by (simp_all add: tracker_ok_def)
  have val: "hm_get (processes tr) (pid (identity r)) = Some r" if "(p, r) \<in> set (processes tr)" for p r
  proof -
    have "hm_get (processes tr) p = Some r" using that ok(1) by (simp add: hm_ok_def)
    with ok(2) [OF this] show ?thesis by simp
  qed
  have "below tab (anchors tab tr) (pid i)"
    if i: "i \<in> set (sc_queue (scan_start tr))" and c: "current tab i" for i
  proof -
    consider "i = shim tr" | p r where "(p, r) \<in> set (processes tr)" "i = identity r"
      using i assms(2) by (auto simp: scan_start_def)
    then have "pid i \<in> anchors tab tr"
      by cases (use c val in \<open>auto simp: anchors_def\<close>)
    then show ?thesis by (rule below.anchor)
  qed
  moreover have queued: "identity r \<in> set (sc_queue (scan_start tr))" if "hm_get (processes tr) p = Some r" for p r
    using map_of_SomeD [OF that] by (force simp: scan_start_def)
  moreover have "\<exists>i\<in>set (sc_queue (scan_start tr)). pid i = a \<and> current tab i" if "a \<in> anchors tab tr" for a
  proof (cases "a = pid (shim tr)")
    case True
    with assms(2,3) show ?thesis by (intro bexI [of _ "shim tr"]) (auto simp: scan_start_def)
  next
    case False
    with that obtain r where "hm_get (processes tr) a = Some r" "current tab (identity r)" by (auto simp: anchors_def)
    with ok(2) show ?thesis
      by (intro bexI [of _ "identity r"]) (auto simp: queued)
  qed
  ultimately show ?thesis using assms(1) unfolding loop_inv_def by (auto simp: scan_start_def)
qed

lemma loop_inv_end:
  assumes "loop_inv tab A w sc" "sc_queue sc = []" "pid (shim (sc_tracker sc)) \<in> A"
  shows "hm_get (processes (sc_tracker sc)) p =
    (if below tab A p \<and> p \<noteq> pid (shim (sc_tracker sc)) then tab p else None)"
proof -
  note D = loop_invD [OF assms(1)]
  have vis: "hm_get (sc_visited sc) p \<noteq> None" if "below tab A p" for p
    using that
  proof induction
    case (anchor p)
    with D(6) [of p] assms(2) show ?case by simp
  next
    case (child p q r)
    show ?case
    proof (cases "q = pid (shim (sc_tracker sc))")
      case True
      with D(6) [OF assms(3)] assms(2) show ?thesis by simp
    next
      case False
      with D(5) [OF child.IH child.hyps(2,3)] assms(2) show ?thesis by simp
    qed
  qed
  show ?thesis
  proof (cases "hm_get (processes (sc_tracker sc)) p")
    case (Some r)
    have sh: "p \<noteq> pid (shim (sc_tracker sc))" using D(2) Some by (auto simp: tracker_ok_def)
    obtain s where "hm_get (sc_visited sc) p = Some s" using D(7) [OF Some] assms(2) by auto
    from D(3) [OF this] Some sh show ?thesis by auto
  next
    case None
    have "\<not> (below tab A p \<and> p \<noteq> pid (shim (sc_tracker sc)))"
    proof
      assume b: "below tab A p \<and> p \<noteq> pid (shim (sc_tracker sc))"
      then obtain s where "hm_get (sc_visited sc) p = Some s" using vis by blast
      from D(3) [OF this] b None show False by auto
    qed
    with None show ?thesis by auto
  qed
qed

text \<open>An exited process the shim has adopted.\<close>

definition reapable :: "'s tracker \<Rightarrow> process_record \<Rightarrow> bool" where
  "reapable tr r \<longleftrightarrow> pid (identity r) \<noteq> root_pid tr \<and> ppid r = pid (shim tr) \<and> exited r"

lemma reaped:
  assumes "\<And>p w. fst (src_reap src p w) = Inr ()" "adopt_orphans tr" "hm_ok (processes tr)"
  shows "hm_get (processes (fold (reap_one src) rs tr)) p =
    (if \<exists>r\<in>set rs. reapable tr r \<and> pid (identity r) = p then None else hm_get (processes tr) p)"
  using assms(2,3)
proof (induction rs arbitrary: tr)
  case (Cons r rs)
  obtain w where w: "src_reap src (pid (identity r)) (world tr) = (Inr (), w)"
    using assms(1) [of "pid (identity r)" "world tr"] by (metis prod.collapse)
  have one: "reap_one src r tr = (if reapable tr r then remove_process (pid (identity r)) (tr\<lparr>world := w\<rparr>) else tr)"
    using Cons.prems(1) w by (simp add: reap_one_def reapable_def tr_reap_def)
  have keep: "reapable (remove_process q (tr\<lparr>world := w\<rparr>)) = reapable tr" for q
    by (auto simp: reapable_def remove_process_def fun_eq_iff)
  show ?case
  proof (cases "reapable tr r")
    case True
    with Cons.IH [of "remove_process (pid (identity r)) (tr\<lparr>world := w\<rparr>)"] Cons.prems one show ?thesis
      by (auto simp: keep) (auto simp: remove_process_def hm.get_rem hm.inv_rem)
  next
    case False
    with Cons one show ?thesis by simp
  qed
qed simp

lemma discover_result:
  assumes "undisturbed src (world tr) tab" "tracker_ok tab tr" "adopt_orphans tr" "current tab (shim tr)"
  shows "hm_get (processes (fst (discover src tr))) p =
     (if below tab (anchors tab tr) p \<and> p \<noteq> pid (shim tr) \<and> \<not> (\<exists>r. tab p = Some r \<and> reapable tr r) then tab p else None)
    \<and> \<not> snd (discover src tr)"
proof -
  have fin: "finite (dom tab)" using assms(1) by (simp add: undisturbed_def)
  have "card (dom tab) \<le> card (dom (hm_get (processes tr)) \<union> dom tab)"
    "card (dom (hm_get (processes tr))) \<le> card (dom (hm_get (processes tr)) \<union> dom tab)"
    using fin by (auto intro!: card_mono simp: finite_dom_map_of)
  then have small: "card (dom tab) \<le> process_limit tr" "length (processes tr) \<le> process_limit tr"
    using assms(2) by (simp_all add: tracker_ok_def hm_ok_length)
  have "length (filter (\<lambda>i. \<not> current tab i) (sc_queue (scan_start tr))) \<le> length (processes tr)"
    using assms(3,4) length_filter_le [of "\<lambda>i. \<not> current tab i" "map identity (hm_values (processes tr))"]
    by (simp add: scan_start_def)
  then have credit: "0 + credit_left tab (scan_start tr) \<le> 2 * process_limit tr + 1"
    using small by (simp add: credit_left_def scan_start_def)
  from scan_loop_complete [OF assms(1) scan_start_inv [OF assms(2-4)] credit] obtain sc m where
    sc: "scan_loop src (2 * process_limit tr + 1) 0 (scan_start tr) = sc" "loop_inv tab (anchors tab tr) (world tr) sc"
    "sc_queue sc = []" "\<not> sc_incomplete sc" "sc_tracker sc = tr\<lparr>processes := m\<rparr>"
    by (auto simp: scan_start_def)
  define t where "t = (sc_tracker sc)\<lparr>root_group_unresolved := False\<rparr>"
  have t: "adopt_orphans t" "hm_ok (processes t)" "reapable t = reapable tr" "shim t = shim tr"
    using loop_invD(2) [OF sc(2)] assms(3) sc(5)
    by (auto simp: t_def tracker_ok_def reapable_def fun_eq_iff)
  have procs: "hm_get (processes t) p = (if below tab (anchors tab tr) p \<and> p \<noteq> pid (shim tr) then tab p else None)" for p
    using loop_inv_end [OF sc(2,3)] sc(5) by (simp add: t_def anchors_def)
  have pids: "pid (identity r) = p" if "hm_get (processes t) p = Some r" for p r
    using loop_invD(2) [OF sc(2)] that by (simp add: t_def tracker_ok_def)
  have d: "discover src tr = (fold (reap_one src) (hm_values (processes t)) t, False)"
    using sc assms(3) by (simp add: discover_def scan_root_group_def t_def Let_def)
  have "(\<exists>r\<in>set (hm_values (processes t)). reapable t r \<and> pid (identity r) = p)
      \<longleftrightarrow> (\<exists>r. hm_get (processes t) p = Some r \<and> reapable t r)"
  proof
    assume "\<exists>r\<in>set (hm_values (processes t)). reapable t r \<and> pid (identity r) = p"
    then obtain r q where r: "(q, r) \<in> set (processes t)" "reapable t r" "pid (identity r) = p" by auto
    then have "hm_get (processes t) q = Some r" using t(2) by (simp add: hm_ok_def)
    with r pids [OF this] show "\<exists>r. hm_get (processes t) p = Some r \<and> reapable t r" by auto
  next
    assume "\<exists>r. hm_get (processes t) p = Some r \<and> reapable t r"
    then show "\<exists>r\<in>set (hm_values (processes t)). reapable t r \<and> pid (identity r) = p"
      using pids by (force dest: map_of_SomeD)
  qed
  moreover have "\<And>p w. fst (src_reap src p w) = Inr ()" using assms(1) by (simp add: undisturbed_def)
  ultimately have "hm_get (processes (fst (discover src tr))) p =
      (if \<exists>r. hm_get (processes t) p = Some r \<and> reapable t r then None else hm_get (processes t) p)"
    using reaped [OF _ t(1,2), of src "hm_values (processes t)" p] by (simp add: d)
  then show ?thesis by (auto simp: d procs t(3))
qed

lemma scan_result:
  assumes "undisturbed src (world tr) tab" "tracker_ok tab tr" "adopt_orphans tr" "current tab (shim tr)"
  shows "hm_get (processes (scan src tr)) p =
     (if below tab (anchors tab tr) p \<and> p \<noteq> pid (shim tr) \<and> \<not> (\<exists>r. tab p = Some r \<and> reapable tr r) then tab p else None)
    \<and> incomplete_scans (scan src tr) = 0"
proof (cases "discover src tr")
  case (Pair t i)
  with discover_result [OF assms, of p] have "\<not> i" by simp
  with discover_result [OF assms, of p] retire_result [of t i] Pair show ?thesis by (simp add: scan_def)
qed

section \<open>Properties\<close>

text \<open>C11: A scan finds everything: on a system that stands still while it runs, with room for its
  processes, the tracker that adopts orphans retains after a scan exactly the processes below the
  shim or below a process it tracked that is still there, each with its current record, except
  the exited ones adopted by the shim, which it has reaped; and the scan counts as complete.\<close>

theorem scan_finds_all:
  assumes "undisturbed src (world tr) tab" "tracker_ok tab tr" "adopt_orphans tr" "current tab (shim tr)"
  shows "hm_get (processes (scan src tr)) p =
     (if below tab (anchors tab tr) p \<and> p \<noteq> pid (shim tr) \<and> \<not> (\<exists>r. tab p = Some r \<and> reapable tr r) then tab p else None)
    \<and> incomplete_scans (scan src tr) = 0"
  using assms by (rule scan_result)

lemma sample_undisturbed: "undisturbed fake_source sample_table (hm_get sample_table)"
  unfolding undisturbed_def
proof (intro conjI allI)
  show "finite (dom (hm_get sample_table))" by (rule finite_dom_map_of)
  show "hm_get sample_table p = Some r \<longrightarrow> pid (identity r) = p" for p r
    by (auto simp: sample_table_def sample_record_def sample_identity_def split: if_splits)
  have "distinct (map fst sample_table)" by (simp add: sample_table_def)
  then show "hm_get sample_table p \<noteq> None \<longrightarrow> (\<exists>ps. src_children fake_source p sample_table = (Inr ps, sample_table)
      \<and> set ps = {q. \<exists>r. hm_get sample_table q = Some r \<and> ppid r = p})" for p
    by (force simp: fake_source_def dest: map_of_SomeD)
qed (simp_all add: fake_source_def)

theorem scan_finds_all_witness:
  "hm_get (processes (scan fake_source (with_source sample_table True (sample_identity 10 10) (sample_identity 20 20)))) 21
     = Some (sample_record 21 21 20)"
proof -
  let ?tab = "hm_get sample_table" and ?tr = "with_source sample_table True (sample_identity 10 10) (sample_identity 20 20)"
  have f: "world ?tr = sample_table" "adopt_orphans ?tr" "pid (shim ?tr) = 10" "shim ?tr = sample_identity 10 10" "root_pid ?tr = 20"
    by (simp_all add: with_source_def tracker_empty_def Let_def sample_identity_def)
  have procs: "processes ?tr = [(20, sample_record 20 20 10)]"
    by (simp add: with_source_def tracker_empty_def Let_def sample_identity_def sample_record_def)
  have "dom ?tab = {10, 20, 21}" by (auto simp: sample_table_def split: if_splits)
  moreover have "dom (hm_get (processes ?tr)) = {20}" by (simp add: procs)
  moreover have "process_limit ?tr = 65536" by (simp add: with_source_def tracker_empty_def Let_def MAX_PROCESSES_def)
  moreover have "card ({20} \<union> {10, 20, 21 :: u32}) \<le> 65536"
    using card_length [of "[10, 20, 21 :: u32]"] by (simp add: insert_absorb)
  ultimately have "card (dom (hm_get (processes ?tr)) \<union> dom ?tab) \<le> process_limit ?tr" by simp
  then have "tracker_ok ?tab ?tr"
    unfolding tracker_ok_def f(3) procs
    by (simp add: hm_ok_def sample_record_def sample_identity_def)
  moreover have "current ?tab (sample_identity 10 10)"
    by (simp add: current_def sample_table_def sample_record_def sample_identity_def same_process_def)
  then have "current ?tab (shim ?tr)" unfolding f(4) .
  moreover have "below ?tab (anchors ?tab ?tr) 21"
  proof (rule below.child [where p = 20 and r = "sample_record 21 21 20"])
    show "below ?tab (anchors ?tab ?tr) 20"
    proof (rule below.child [where p = 10 and r = "sample_record 20 20 10"])
      show "below ?tab (anchors ?tab ?tr) 10" by (rule below.anchor) (simp add: anchors_def f(3))
    qed (simp_all add: sample_table_def sample_record_def)
  qed (simp_all add: sample_table_def sample_record_def)
  moreover have "?tab 21 = Some (sample_record 21 21 20)" by (simp add: sample_table_def)
  ultimately show ?thesis
    using scan_finds_all [of fake_source ?tr ?tab 21] sample_undisturbed f
    by (simp add: reapable_def sample_record_def)
qed

end
