(* ===== verification/Native.thy ===== *)
theory Native
  imports Discovery
begin

text \<open>
  The process source of \<open>native/forcola_shim/src/tracking.rs\<close> on Linux: \<open>Native\<close>, the listing of
  children in \<open>/proc/<pid>/task/*/children\<close>, the subreaper calls, and the checks before a tracked
  session. The kernel is a record of operations. The set of children is the list of its elements
  in the order they were inserted.
\<close>

section \<open>The kernel\<close>

record 'w native_os =
  nt_fs :: "'w fs_ops"
  nt_read_dir :: "string \<Rightarrow> 'w \<Rightarrow> (io_error + (io_error + string) list) \<times> 'w"
  nt_kill :: "int \<Rightarrow> int \<Rightarrow> 'w \<Rightarrow> int option \<times> 'w"
  nt_waitpid :: "u32 \<Rightarrow> 'w \<Rightarrow> (int + int) \<times> 'w"
  nt_get_subreaper :: "'w \<Rightarrow> (int + int) \<times> 'w"
  nt_set_subreaper :: "int \<Rightarrow> 'w \<Rightarrow> (int + unit) \<times> 'w"
  nt_now :: "'w \<Rightarrow> nat \<times> 'w"
  nt_pid :: u32

section \<open>The children of a process\<close>

fun insert_children :: "str list \<Rightarrow> u32 list \<Rightarrow> io_error + u32 list" where
  "insert_children [] cs = Inr cs"
| "insert_children (t # ts) cs =
     (case parse_u32 t of
        None \<Rightarrow> Inl (Custom InvalidData ''invalid child pid'')
      | Some p \<Rightarrow>
          (let cs = (if p \<in> set cs then cs else cs @ [p]) in
           if MAX_PROCESSES < length cs then Inl (Custom InvalidData ''tracking process inventory overflow'')
           else insert_children ts cs))"

fun task_children ::
  "'w native_os \<Rightarrow> nat \<Rightarrow> (io_error + string) list \<Rightarrow> u32 list \<Rightarrow> 'w \<Rightarrow> (io_error + u32 list) \<times> 'w" where
  "task_children os index [] cs w = (Inr cs, w)"
| "task_children os index (task # tasks) cs w =
     (if MAX_PROCESSES \<le> index then (Inl (Custom InvalidData ''tracking thread inventory overflow''), w)
      else case task of
        Inl e \<Rightarrow> (Inl e, w)
      | Inr path \<Rightarrow>
          (case fs_read (nt_fs os) (path_join path ''children'') w of
             (Inl e, w) \<Rightarrow>
               if disappeared e then
                 (case fs_exists (nt_fs os) path w of
                    (there, w) \<Rightarrow> if there then (Inl e, w) else task_children os (Suc index) tasks cs w)
               else (Inl e, w)
           | (Inr bytes, w) \<Rightarrow>
               (case from_utf8 bytes of
                  None \<Rightarrow> (Inl (Custom InvalidData ''invalid children list''), w)
                | Some text \<Rightarrow>
                    (case insert_children (split_whitespace text) cs of
                       Inl e \<Rightarrow> (Inl e, w)
                     | Inr cs \<Rightarrow> task_children os (Suc index) tasks cs w))))"

definition native_children :: "'w native_os \<Rightarrow> u32 \<Rightarrow> 'w \<Rightarrow> (io_error + u32 list) \<times> 'w" where
  "native_children os p w =
     (case nt_read_dir os (''/proc/'' @ fmt_nat (unat p) @ ''/task'') w of
        (Inl e, w) \<Rightarrow> if disappeared e then (Inr [], w) else (Inl e, w)
      | (Inr tasks, w) \<Rightarrow> task_children os 0 tasks [] w)"

section \<open>The other operations\<close>

definition native_read :: "'w native_os \<Rightarrow> u32 \<Rightarrow> 'w \<Rightarrow> (io_error + process_record option) \<times> 'w" where
  "native_read os p w =
     (case read_process_linux (nt_fs os) p w of
        (Inr r, w) \<Rightarrow> (Inr (Some r), w)
      | (Inl e, w) \<Rightarrow> if disappeared e then (Inr None, w) else (Inl e, w))"

definition native_group_members :: "u32 \<Rightarrow> 'w \<Rightarrow> (io_error + u32 list) \<times> 'w" where
  "native_group_members g w = (Inl (Custom Unsupported ''group inventory unavailable''), w)"

definition native_signal :: "'w native_os \<Rightarrow> int \<Rightarrow> int \<Rightarrow> 'w \<Rightarrow> (io_error + unit) \<times> 'w" where
  "native_signal os target sg w =
     (case nt_kill os target sg w of
        (None, w) \<Rightarrow> (Inr (), w)
      | (Some n, w) \<Rightarrow> (if disappeared (Os n) then Inr () else Inl (Os n), w))"

text \<open>The result of \<open>waitpid\<close> is an error number or what it returned.\<close>

partial_function (option) native_reap :: "'w native_os \<Rightarrow> u32 \<Rightarrow> 'w \<Rightarrow> ((io_error + unit) \<times> 'w) option" where
  "native_reap os p w =
     (case nt_waitpid os p w of
        (Inr r, w) \<Rightarrow> Some (Inr (), w)
      | (Inl n, w) \<Rightarrow>
          if n = ECHILD then Some (Inr (), w)
          else if kind (Os n) \<noteq> Interrupted then Some (Inl (Os n), w)
          else native_reap os p w)"

declare native_reap.simps [code]

definition native_now :: "'w native_os \<Rightarrow> nat \<Rightarrow> 'w \<Rightarrow> nat \<times> 'w" where
  "native_now os reference w = (let (t, w) = nt_now os w in (max t reference, w))"

text \<open>The source; where the reaping loop does not return there is no value to speak of.\<close>

definition native_source :: "'w native_os \<Rightarrow> 'w source" where
  "native_source os =
     \<lparr>src_read = native_read os, src_children = native_children os, src_group_members = native_group_members,
      src_signal = native_signal os, src_reap = (\<lambda>p w. the (native_reap os p w)), src_now = native_now os\<rparr>"

section \<open>Before a tracked session\<close>

definition tracking_probe :: "'w native_os \<Rightarrow> 'w \<Rightarrow> (io_error + unit) \<times> 'w" where
  "tracking_probe os w =
     (case nt_get_subreaper os w of
        (Inl n, w) \<Rightarrow> (Inl (Os n), w)
      | (Inr enabled, w) \<Rightarrow>
          (case nt_set_subreaper os enabled w of (Inl n, w) \<Rightarrow> (Inl (Os n), w) | (Inr _, w) \<Rightarrow> (Inr (), w)))"

definition platform_prepare :: "'w native_os \<Rightarrow> 'w \<Rightarrow> (io_error + unit) \<times> 'w" where
  "platform_prepare os w =
     (case nt_set_subreaper os 1 w of (Inl n, w) \<Rightarrow> (Inl (Os n), w) | (Inr _, w) \<Rightarrow> (Inr (), w))"

definition tracking_prepare :: "'w native_os \<Rightarrow> 'w \<Rightarrow> (io_error + process_identity) \<times> 'w" where
  "tracking_prepare os w =
     (case platform_prepare os w of
        (Inl e, w) \<Rightarrow> (Inl e, w)
      | (Inr _, w) \<Rightarrow> identity_read (read_process_linux (nt_fs os)) (nt_pid os) w)"

definition tracking_available :: "'w native_os \<Rightarrow> 'w \<Rightarrow> bool \<times> 'w" where
  "tracking_available os w =
     (case tracking_probe os w of
        (Inl e, w) \<Rightarrow> (False, w)
      | (Inr _, w) \<Rightarrow>
          (case identity_read (read_process_linux (nt_fs os)) (nt_pid os) w of
             (Inl e, w) \<Rightarrow> (False, w)
           | (Inr _, w) \<Rightarrow>
               (case native_children os (nt_pid os) w of (Inl e, w) \<Rightarrow> (False, w) | (Inr _, w) \<Rightarrow> (True, w))))"

definition tracking_scope :: "bool \<Rightarrow> string" where
  "tracking_scope on_linux = (if on_linux then ''tree_contained'' else ''tree_sampled'')"

section \<open>What \<open>/proc\<close> shows\<close>

text \<open>A \<open>children\<close> file: every pid is followed by a space.\<close>

definition children_text :: "u32 list \<Rightarrow> str" where
  "children_text ps = concat (map (\<lambda>q. show_nat (unat q) @ [32]) ps)"

lemma show_nat_word: "word_ok (show_nat n)" "ascii (show_nat n)"
  using stat_field_show_nat [of n] by (simp_all add: stat_field_def)

lemma split_children_text: "split_whitespace (children_text ps) = map (\<lambda>q. show_nat (unat q)) ps"
proof (induction ps)
  case (Cons q ps)
  have "split_whitespace (show_nat (unat q) @ 32 # children_text ps) = show_nat (unat q) # split_whitespace (children_text ps)"
    using show_nat_word(1) [of "unat q"] by (simp add: split_whitespace_def word_ok_def ws_fields_token)
  with Cons show ?case by (simp add: children_text_def)
qed (simp add: children_text_def split_whitespace_def)

lemma children_text_utf8: "from_utf8 (bytes_of (children_text ps)) = Some (children_text ps)"
proof (rule from_utf8_bytes_of)
  show "ascii (children_text ps)"
    using show_nat_word(2) by (auto simp: children_text_def ascii_def)
qed

lemma insert_children_all:
  assumes "distinct cs" "card (set cs \<union> set ps) \<le> MAX_PROCESSES"
  shows "\<exists>cs'. insert_children (map (\<lambda>q. show_nat (unat q)) ps) cs = Inr cs' \<and> distinct cs' \<and> set cs' = set cs \<union> set ps"
  using assms
proof (induction ps arbitrary: cs)
  case (Cons q ps)
  let ?cs = "if q \<in> set cs then cs else cs @ [q]"
  have u: "set ?cs \<union> set ps = set cs \<union> set (q # ps)" by auto
  have d: "distinct ?cs" using Cons.prems(1) by auto
  have "length ?cs = card (set ?cs)" using d by (simp only: distinct_card)
  also have "\<dots> \<le> card (set cs \<union> set (q # ps))" by (rule card_mono) auto
  finally have "\<not> MAX_PROCESSES < length ?cs" using Cons.prems(2) by simp
  moreover obtain cs' where "insert_children (map (\<lambda>q. show_nat (unat q)) ps) ?cs = Inr cs'" "distinct cs'"
    "set cs' = set ?cs \<union> set ps"
    using Cons.IH [OF d] Cons.prems(2) u by metis
  ultimately show ?case using u by (auto simp: Let_def)
qed simp

lemma task_children_all:
  assumes "\<forall>(path, ps)\<in>set tasks. fs_read (nt_fs os) (path_join path ''children'') w = (Inr (bytes_of (children_text ps)), w)"
    and "distinct cs" "card (set cs \<union> (\<Union>(path, ps)\<in>set tasks. set ps)) \<le> MAX_PROCESSES" "index + length tasks \<le> MAX_PROCESSES"
  shows "\<exists>cs'. task_children os index (map (\<lambda>t. Inr (fst t)) tasks) cs w = (Inr cs', w)
    \<and> set cs' = set cs \<union> (\<Union>(path, ps)\<in>set tasks. set ps)"
  using assms
proof (induction tasks arbitrary: index cs)
  case (Cons t tasks)
  obtain path ps where t: "t = (path, ps)" by force
  have rd: "fs_read (nt_fs os) (path_join path ''children'') w = (Inr (bytes_of (children_text ps)), w)"
    using Cons.prems(1) t by simp
  have "card (set cs \<union> set ps) \<le> card (set cs \<union> (\<Union>(path, ps)\<in>set (t # tasks). set ps))"
    by (rule card_mono) (auto simp: t)
  then obtain cs1 where cs1: "insert_children (map (\<lambda>q. show_nat (unat q)) ps) cs = Inr cs1" "distinct cs1"
    "set cs1 = set cs \<union> set ps"
    using insert_children_all [OF Cons.prems(2), of ps] Cons.prems(3) by auto
  have "set cs1 \<union> (\<Union>(path, ps)\<in>set tasks. set ps) = set cs \<union> (\<Union>(path, ps)\<in>set (t # tasks). set ps)"
    using cs1(3) t by auto
  with Cons.IH [of cs1 "Suc index"] Cons.prems cs1(2) obtain cs' where
    "task_children os (Suc index) (map (\<lambda>t. Inr (fst t)) tasks) cs1 w = (Inr cs', w)"
    "set cs' = set cs \<union> (\<Union>(path, ps)\<in>set (t # tasks). set ps)" by auto
  with rd cs1(1) Cons.prems(4) t show ?case by (simp add: children_text_utf8 split_children_text)
qed simp

definition stat_path :: "u32 \<Rightarrow> string" where
  "stat_path p = ''/proc/'' @ fmt_nat (unat p) @ ''/stat''"

definition task_path :: "u32 \<Rightarrow> string" where
  "task_path p = ''/proc/'' @ fmt_nat (unat p) @ ''/task''"

definition stat_shows :: "'w native_os \<Rightarrow> 'w \<Rightarrow> str \<Rightarrow> u32 \<Rightarrow> process_record \<Rightarrow> bool" where
  "stat_shows os w boot p r \<longleftrightarrow> (\<exists>comm state middle rest ticks.
     fs_read (nt_fs os) (stat_path p) w
       = (Inr (stat_line p comm state (ppid r) (Some (pgid (identity r))) middle ticks rest), w)
     \<and> stat_field state \<and> length middle = 16 \<and> (\<forall>t\<in>set middle. stat_field t) \<and> (\<forall>t\<in>set rest. stat_field t)
     \<and> pgid (identity r) \<noteq> 0 \<and> state \<noteq> str_of ''X'' \<and> state \<noteq> str_of ''x''
     \<and> pid (identity r) = p \<and> started (identity r) = Linux boot ticks \<and> exited r = (state = str_of ''Z''))"

definition tasks_show :: "'w native_os \<Rightarrow> 'w \<Rightarrow> process_table \<Rightarrow> u32 \<Rightarrow> bool" where
  "tasks_show os w tab p \<longleftrightarrow> (\<exists>tasks.
     nt_read_dir os (task_path p) w = (Inr (map (\<lambda>t. Inr (fst t)) tasks), w) \<and> length tasks \<le> MAX_PROCESSES
     \<and> (\<forall>(path, ps)\<in>set tasks. fs_read (nt_fs os) (path_join path ''children'') w = (Inr (bytes_of (children_text ps)), w))
     \<and> (\<Union>(path, ps)\<in>set tasks. set ps) = {q. \<exists>r. tab q = Some r \<and> ppid r = p})"

text \<open>A kernel at rest: the boot id, a stat line and the children of every process of the table, no
  other process, and a \<open>waitpid\<close> that reaps, finds nothing to reap or knows no such child.\<close>

definition proc_shows :: "'w native_os \<Rightarrow> 'w \<Rightarrow> process_table \<Rightarrow> bool" where
  "proc_shows os w tab \<longleftrightarrow>
     finite (dom tab) \<and> card (dom tab) \<le> MAX_PROCESSES
     \<and> (\<exists>contents. read_to_string (nt_fs os) ''/proc/sys/kernel/random/boot_id'' w = (Inr contents, w)
          \<and> trim_str contents \<noteq> [] \<and> (\<forall>p r. tab p = Some r \<longrightarrow> stat_shows os w (trim_str contents) p r \<and> tasks_show os w tab p))
     \<and> (\<forall>p. tab p = None \<longrightarrow> (\<exists>e. fs_read (nt_fs os) (stat_path p) w = (Inl e, w) \<and> disappeared e))
     \<and> (\<forall>p w. fst (nt_waitpid os p w) = Inl ECHILD \<or> (\<exists>n. fst (nt_waitpid os p w) = Inr n))"

lemma native_read_shows:
  assumes "stat_shows os w boot p r" "boot \<noteq> []"
    and "read_to_string (nt_fs os) ''/proc/sys/kernel/random/boot_id'' w = (Inr contents, w)" "trim_str contents = boot"
  shows "native_read os p w = (Inr (Some r), w)"
proof -
  from assms(1) obtain comm state middle rest ticks where
    f: "fs_read (nt_fs os) (stat_path p) w
       = (Inr (stat_line p comm state (ppid r) (Some (pgid (identity r))) middle ticks rest), w)"
    "stat_field state" "length middle = 16" "\<forall>t\<in>set middle. stat_field t" "\<forall>t\<in>set rest. stat_field t"
    "pgid (identity r) \<noteq> 0" "state \<noteq> str_of ''X''" "state \<noteq> str_of ''x''"
    "pid (identity r) = p" "started (identity r) = Linux boot ticks" "exited r = (state = str_of ''Z'')"
    unfolding stat_shows_def by blast
  have "parse_stat (stat_line p comm state (ppid r) (Some (pgid (identity r))) middle ticks rest)
      = Inr (ppid r, pgid (identity r), ticks, exited r)"
    unfolding parse_stat_line [OF f(2-5)] using f(3,6-8,11)
    by (simp add: parse_stat_fields_def group_field_def show_nat_not_minus)
  with f(1) assms have "read_process_linux (nt_fs os) p w =
      (Inr \<lparr>identity = \<lparr>pid = p, pgid = pgid (identity r), started = Linux boot ticks\<rparr>, ppid = ppid r, exited = exited r\<rparr>, w)"
    by (simp add: read_process_linux_def stat_path_def Let_def)
  moreover have "r = \<lparr>identity = \<lparr>pid = p, pgid = pgid (identity r), started = Linux boot ticks\<rparr>, ppid = ppid r, exited = exited r\<rparr>"
    using f(9,10) by (cases r; cases "identity r") simp
  ultimately show ?thesis by (simp add: native_read_def)
qed

lemma native_children_shows:
  assumes "tasks_show os w tab p" "finite (dom tab)" "card (dom tab) \<le> MAX_PROCESSES"
  shows "\<exists>ps. native_children os p w = (Inr ps, w) \<and> set ps = {q. \<exists>r. tab q = Some r \<and> ppid r = p}"
proof -
  from assms(1) obtain tasks where t: "nt_read_dir os (task_path p) w = (Inr (map (\<lambda>t. Inr (fst t)) tasks), w)"
    "length tasks \<le> MAX_PROCESSES"
    "\<forall>(path, ps)\<in>set tasks. fs_read (nt_fs os) (path_join path ''children'') w = (Inr (bytes_of (children_text ps)), w)"
    "(\<Union>(path, ps)\<in>set tasks. set ps) = {q. \<exists>r. tab q = Some r \<and> ppid r = p}"
    unfolding tasks_show_def by blast
  have "card {q. \<exists>r. tab q = Some r \<and> ppid r = p} \<le> card (dom tab)"
    using assms(2) by (intro card_mono) auto
  with t(4) assms(3) have "card (set [] \<union> (\<Union>(path, ps)\<in>set tasks. set ps)) \<le> MAX_PROCESSES" by simp
  from task_children_all [OF t(3) distinct.simps(1) [THEN iffD2, OF TrueI] this, of 0] t(1,2,4) show ?thesis
    by (simp add: native_children_def task_path_def)
qed

lemma native_reap_shows:
  assumes "fst (nt_waitpid os p w) = Inl ECHILD \<or> (\<exists>n. fst (nt_waitpid os p w) = Inr n)"
  shows "fst (the (native_reap os p w)) = Inr ()"
  using assms by (subst native_reap.simps) (auto split: prod.splits)

lemma native_shows:
  assumes "proc_shows os w tab"
  shows "undisturbed (native_source os) w tab"
proof -
  from assms obtain contents where c: "finite (dom tab)" "card (dom tab) \<le> MAX_PROCESSES"
    "read_to_string (nt_fs os) ''/proc/sys/kernel/random/boot_id'' w = (Inr contents, w)" "trim_str contents \<noteq> []"
    "\<And>p r. tab p = Some r \<Longrightarrow> stat_shows os w (trim_str contents) p r"
    "\<And>p r. tab p = Some r \<Longrightarrow> tasks_show os w tab p"
    "\<And>p. tab p = None \<Longrightarrow> \<exists>e. fs_read (nt_fs os) (stat_path p) w = (Inl e, w) \<and> disappeared e"
    "\<And>p w. fst (nt_waitpid os p w) = Inl ECHILD \<or> (\<exists>n. fst (nt_waitpid os p w) = Inr n)"
    unfolding proc_shows_def by blast
  have "native_read os p w = (Inr (tab p), w)" for p
  proof (cases "tab p")
    case None
    with c(7) [OF None] show ?thesis by (auto simp: native_read_def read_process_linux_def stat_path_def)
  next
    case (Some r)
    with native_read_shows [OF c(5) [OF Some] c(4) c(3) refl] show ?thesis by simp
  qed
  moreover have "\<exists>ps. native_children os p w = (Inr ps, w) \<and> set ps = {q. \<exists>r. tab q = Some r \<and> ppid r = p}"
    if some: "tab p \<noteq> None" for p
  proof -
    obtain r where "tab p = Some r" using some by blast
    from native_children_shows [OF c(6) [OF this] c(1,2)] show ?thesis .
  qed
  moreover have "pid (identity r) = p" if "tab p = Some r" for p r
    using c(5) [OF that] by (auto simp: stat_shows_def)
  moreover have "src_read (native_source os) = native_read os" "src_children (native_source os) = native_children os"
    "src_reap (native_source os) = (\<lambda>p w. the (native_reap os p w))" by (simp_all add: native_source_def)
  ultimately show ?thesis
    unfolding undisturbed_def using c(1) native_reap_shows [OF c(8)] by presburger
qed

section \<open>Properties\<close>


text \<open>A shim 2 with a child 3 and a grandchild 4.\<close>

definition sample_proc :: "u32 \<Rightarrow> u32 \<Rightarrow> process_record" where
  "sample_proc p parent =
     \<lparr>identity = \<lparr>pid = p, pgid = p, started = Linux (str_of ''b'') (ucast p)\<rparr>, ppid = parent, exited = False\<rparr>"

definition sample_procs :: "(u32 \<times> process_record) list" where
  "sample_procs = [(2, sample_proc 2 1), (3, sample_proc 3 2), (4, sample_proc 4 3)]"

definition sample_stat :: "u32 \<Rightarrow> u32 \<Rightarrow> bytes" where
  "sample_stat p parent = stat_line p [115] (str_of ''S'') parent (Some p) (replicate 16 (show_nat 0)) (ucast p) []"

definition sample_files :: "(string \<times> bytes) list" where
  "sample_files =
     [(''/proc/sys/kernel/random/boot_id'', bytes_of (str_of ''b'')),
      (''/proc/2/stat'', sample_stat 2 1), (''/proc/3/stat'', sample_stat 3 2), (''/proc/4/stat'', sample_stat 4 3),
      (''/proc/2/task/2/children'', bytes_of (children_text [3])),
      (''/proc/3/task/3/children'', bytes_of (children_text [4])),
      (''/proc/4/task/4/children'', bytes_of (children_text []))]"

definition sample_dirs :: "(string \<times> string) list" where
  "sample_dirs = [(''/proc/2/task'', ''/proc/2/task/2''), (''/proc/3/task'', ''/proc/3/task/3''), (''/proc/4/task'', ''/proc/4/task/4'')]"

definition sample_native :: "unit native_os" where
  "sample_native =
     \<lparr>nt_fs = \<lparr>fs_exists = (\<lambda>p w. (False, w)),
        fs_read = (\<lambda>p w. (case map_of sample_files p of Some b \<Rightarrow> Inr b | None \<Rightarrow> Inl (Os ENOENT), w)),
        fs_mkdir = (\<lambda>p w. (Inl (Os EACCES), w)), fs_rmdir = (\<lambda>p w. (Inl (Os EACCES), w)),
        fs_open_write = (\<lambda>p w. (Inl (Os EACCES), w)), fs_write_all = (\<lambda>fd bs w. (Inl (Os EACCES), w)),
        fs_close = (\<lambda>fd w. w)\<rparr>,
      nt_read_dir = (\<lambda>p w. (case map_of sample_dirs p of Some d \<Rightarrow> Inr [Inr d] | None \<Rightarrow> Inl (Os ENOENT), w)),
      nt_kill = (\<lambda>t sg w. (None, w)), nt_waitpid = (\<lambda>p w. (Inl ECHILD, w)),
      nt_get_subreaper = (\<lambda>w. (Inr 0, w)), nt_set_subreaper = (\<lambda>e w. (Inr (), w)),
      nt_now = (\<lambda>w. (0, w)), nt_pid = 2\<rparr>"

lemma fmt_nat_inj: "fmt_nat m = fmt_nat n \<Longrightarrow> m = n"
proof -
  assume "fmt_nat m = fmt_nat n"
  then have "map of_char (fmt_nat m) = (map of_char (fmt_nat n) :: nat list)" by simp
  moreover have "map of_char (fmt_nat k) = show_nat k" for k
    using show_nat_digits [of _ k] by (force simp: fmt_nat_def intro: map_idI)
  ultimately show ?thesis by (metis digits_val_show_nat option.inject)
qed

lemma sample_paths:
  "stat_path 2 = ''/proc/2/stat''" "stat_path 3 = ''/proc/3/stat''" "stat_path 4 = ''/proc/4/stat''"
  "task_path 2 = ''/proc/2/task''" "task_path 3 = ''/proc/3/task''" "task_path 4 = ''/proc/4/task''"
  by (simp_all add: stat_path_def task_path_def fmt_nat_def show_nat.simps) code_simp+

lemma stat_path_inj: "stat_path p = stat_path q \<longleftrightarrow> p = q"
  by (auto simp: stat_path_def word_unat_eq_iff dest!: fmt_nat_inj)

lemma stat_path_last: "last (stat_path p) = CHR ''t''"
  by (simp add: stat_path_def)

lemma sample_files_stat:
  "map_of sample_files (stat_path p) =
     (if p = 2 then Some (sample_stat 2 1) else if p = 3 then Some (sample_stat 3 2)
      else if p = 4 then Some (sample_stat 4 3) else None)"
proof -
  have "stat_path p \<noteq> ''/proc/sys/kernel/random/boot_id''" "stat_path p \<noteq> ''/proc/2/task/2/children''"
    "stat_path p \<noteq> ''/proc/3/task/3/children''" "stat_path p \<noteq> ''/proc/4/task/4/children''"
    using stat_path_last [of p] by auto
  moreover have "stat_path p = ''/proc/2/stat'' \<longleftrightarrow> p = 2" "stat_path p = ''/proc/3/stat'' \<longleftrightarrow> p = 3"
    "stat_path p = ''/proc/4/stat'' \<longleftrightarrow> p = 4"
    using stat_path_inj [of p] by (simp_all flip: sample_paths)
  ultimately show ?thesis by (simp add: sample_files_def)
qed

lemma sample_stat_shows:
  assumes "map_of sample_files (stat_path p) = Some (sample_stat p parent)" "p \<noteq> 0"
  shows "stat_shows sample_native () (str_of ''b'') p (sample_proc p parent)"
proof -
  have "fs_read (nt_fs sample_native) (stat_path p) () = (Inr (sample_stat p parent), ())"
    using assms(1) by (simp add: sample_native_def)
  moreover have "stat_field (str_of ''S'')" by (simp add: stat_field_def word_ok_def ascii_def str_of_def is_ws_def)
  moreover have "str_of ''S'' \<noteq> str_of ''X''" "str_of ''S'' \<noteq> str_of ''x''" "str_of ''S'' \<noteq> str_of ''Z''"
    by (simp_all add: str_of_def)
  ultimately show ?thesis using assms(2) unfolding stat_shows_def sample_stat_def
    by (intro exI [of _ "[115]"] exI [of _ "str_of ''S''"] exI [of _ "replicate 16 (show_nat 0)"] exI [of _ "[]"]
        exI [of _ "ucast p"]) (simp add: sample_proc_def)
qed

lemma sample_tasks_show:
  assumes "nt_read_dir sample_native (task_path p) () = (Inr [Inr d], ())"
    and "map_of sample_files (d @ ''/children'') = Some (bytes_of (children_text ps))" "d \<noteq> []" "last d \<noteq> CHR ''/''"
    and "set ps = {q. \<exists>r. map_of sample_procs q = Some r \<and> ppid r = p}"
  shows "tasks_show sample_native () (map_of sample_procs) p"
proof -
  have "fs_read (nt_fs sample_native) (path_join d ''children'') () = (Inr (bytes_of (children_text ps)), ())"
    using assms(2-4) by (simp add: sample_native_def path_join_def)
  then show ?thesis
    using assms(1,5) unfolding tasks_show_def by (intro exI [of _ "[(d, ps)]"]) (simp add: MAX_PROCESSES_def)
qed

lemma sample_proc_shows: "proc_shows sample_native () (map_of sample_procs)"
  unfolding proc_shows_def
proof (intro conjI exI [of _ "str_of ''b''"] allI impI)
  let ?tab = "map_of sample_procs"
  have dom: "dom ?tab = {2, 3, 4}" by (auto simp: sample_procs_def split: if_splits)
  then show "finite (dom ?tab)" "card (dom ?tab) \<le> MAX_PROCESSES"
    using card_length [of "[2, 3, 4 :: u32]"] by (simp_all add: MAX_PROCESSES_def)
  show "read_to_string (nt_fs sample_native) ''/proc/sys/kernel/random/boot_id'' () = (Inr (str_of ''b''), ())"
    by (simp add: read_to_string_def sample_native_def sample_files_def from_utf8_bytes_of ascii_def str_of_def)
  have b: "trim_str (str_of ''b'') = str_of ''b''" by (simp add: trim_str_def str_of_def is_ws_def)
  then show "trim_str (str_of ''b'') \<noteq> []" by (simp add: str_of_def)
  fix p
  show "\<exists>e. fs_read (nt_fs sample_native) (stat_path p) () = (Inl e, ()) \<and> disappeared e" if "?tab p = None"
    using that by (auto simp: sample_native_def sample_files_stat sample_procs_def disappeared_def errno_defs split: if_splits)
  show "fst (nt_waitpid sample_native p w) = Inl ECHILD \<or> (\<exists>n. fst (nt_waitpid sample_native p w) = Inr n)" for w
    by (simp add: sample_native_def)
  fix r assume r: "?tab p = Some r"
  then consider "p = 2" "r = sample_proc 2 1" | "p = 3" "r = sample_proc 3 2" | "p = 4" "r = sample_proc 4 3"
    by (auto simp: sample_procs_def split: if_splits)
  then show "stat_shows sample_native () (trim_str (str_of ''b'')) p r"
    by cases (simp_all add: b sample_stat_shows sample_files_stat)
  have kids: "{q. \<exists>r. ?tab q = Some r \<and> ppid r = 2} = set [3]" "{q. \<exists>r. ?tab q = Some r \<and> ppid r = 3} = set [4]"
    "{q. \<exists>r. ?tab q = Some r \<and> ppid r = 4} = set []"
    by (auto simp: sample_procs_def sample_proc_def split: if_splits)
  from r consider "p = 2" | "p = 3" | "p = 4" by (auto simp: sample_procs_def split: if_splits)
  then show "tasks_show sample_native () ?tab p"
  proof cases
    case 1
    show ?thesis unfolding 1
      by (rule sample_tasks_show [where d = "''/proc/2/task/2''" and ps = "[3]"])
         (simp_all add: kids, simp_all add: sample_paths sample_native_def sample_dirs_def sample_files_def)
  next
    case 2
    show ?thesis unfolding 2
      by (rule sample_tasks_show [where d = "''/proc/3/task/3''" and ps = "[4]"])
         (simp_all add: kids, simp_all add: sample_paths sample_native_def sample_dirs_def sample_files_def)
  next
    case 3
    show ?thesis unfolding 3
      by (rule sample_tasks_show [where d = "''/proc/4/task/4''" and ps = "[]"])
         (simp_all add: kids, simp_all add: sample_paths sample_native_def sample_dirs_def sample_files_def)
  qed
qed


end
