(* ===== verification/Session.thy ===== *)
theory Session
  imports SuperviseTracked ChildSetup Native
begin

text \<open>
  A session from its first frame to its end, \<open>run_with_capabilities\<close> of
  \<open>native/forcola_shim/src/supervisor.rs\<close>: the optional HELLO exchange, the SPAWN request, the start
  of the child, the SPAWNED and TRACKED frames, the threads, and what happens when any of it fails.
  The input is a stream of \<open>Frame\<close>; JSON, the writer of frames shared with the threads, and the
  starting of a thread are operations of a parameter. A tracker carries the world it acts on: where
  the world goes on without it, its copy is replaced before its next use.
\<close>

section \<open>The system\<close>

text \<open>The threads: an output pump with its tag, its pipe and whether it is gated, the writer of child
  input with its kind of queue, the reader with what it has still to read, and the senders of the
  end of the child and of the timeout.\<close>

datatype shim_thread =
    OutputPump u8 pipe_id bool
  | InputWriter bool
  | StdinReader stream
  | Waiter u32
  | TrackedWaiter u32
  | TimeoutTimer u64

record siginfo =
  si_pid :: u32
  si_code :: int
  si_status :: int

definition CLD_EXITED :: int where "CLD_EXITED = 1"
definition CLD_KILLED :: int where "CLD_KILLED = 2"
definition CLD_DUMPED :: int where "CLD_DUMPED = 3"

record 'w session_os =
  sn_track :: "'w track_os"
  sn_spawn :: "'w spawn_os"
  sn_native :: "'w native_os"
  sn_hello :: "bytes \<Rightarrow> string + hello_request"
  sn_request :: "bytes \<Rightarrow> string + spawn_request"
  sn_capabilities :: "capabilities \<Rightarrow> io_error + bytes"
  sn_identity :: "process_identity \<Rightarrow> io_error + bytes"
  sn_report :: "error_report \<Rightarrow> bytes option"
  sn_write :: "u8 \<Rightarrow> bytes \<Rightarrow> 'w \<Rightarrow> (io_error + unit) \<times> 'w"
  sn_waitid :: "u32 \<Rightarrow> bool \<Rightarrow> 'w \<Rightarrow> (int + siginfo) \<times> 'w"
  sn_wait :: "u32 \<Rightarrow> 'w \<Rightarrow> (io_error + exit_status) \<times> 'w"
  sn_kill_process :: "u32 \<Rightarrow> int \<Rightarrow> 'w \<Rightarrow> (int + unit) \<times> 'w"
  sn_clone_pty :: "nat \<Rightarrow> 'w \<Rightarrow> (io_error + nat) \<times> 'w"
  sn_start :: "shim_thread \<Rightarrow> 'w \<Rightarrow> 'w"

abbreviation sn_proc :: "'w session_os \<Rightarrow> 'w proc_os" where
  "sn_proc os \<equiv> su_proc (tk_sup (sn_track os))"

abbreviation sn_source :: "'w session_os \<Rightarrow> 'w source" where
  "sn_source os \<equiv> tk_source (sn_track os)"

abbreviation sn_macos :: "'w session_os \<Rightarrow> bool" where
  "sn_macos os \<equiv> tk_on_macos (sn_track os)"

abbreviation sn_display :: "'w session_os \<Rightarrow> io_error \<Rightarrow> string" where
  "sn_display os \<equiv> so_display (sn_spawn os)"

definition read_identity :: "'w session_os \<Rightarrow> u32 \<Rightarrow> 'w \<Rightarrow> (io_error + process_identity) \<times> 'w" where
  "read_identity os = identity_read (read_process_linux (nt_fs (sn_native os)))"

section \<open>ERROR frames\<close>

definition write_error :: "'w session_os \<Rightarrow> string \<Rightarrow> 'w \<Rightarrow> 'w" where
  "write_error os reason w =
     (case sn_report os \<lparr>er_reason = reason, er_spawn_error = None\<rparr> of
        Some bytes \<Rightarrow> snd (sn_write os TAG_ERROR bytes w)
      | None \<Rightarrow> w)"

definition write_spawn_error :: "'w session_os \<Rightarrow> spawn_failure \<Rightarrow> bool \<Rightarrow> 'w \<Rightarrow> 'w" where
  "write_spawn_error os failure structured w =
     (case sn_report os \<lparr>er_reason = ''spawn failed: '' @ sf_message failure,
             er_spawn_error = (if structured then Some (failure_report failure) else None)\<rparr> of
        Some bytes \<Rightarrow> snd (sn_write os TAG_ERROR bytes w)
      | None \<Rightarrow> w)"

section \<open>Features\<close>

definition BASE_FEATURES :: "string list" where
  "BASE_FEATURES = [''bounded_run_v1'', ''env_unset_v1'', ''structured_spawn_errors_v1'']"

text \<open>The static \<open>OnceLock\<close> is \<open>None\<close> until it is initialised.\<close>

definition supported_features_with_probe ::
  "'w native_os \<Rightarrow> bool option \<Rightarrow> ('w \<Rightarrow> (io_error + unit) \<times> 'w) \<Rightarrow> 'w \<Rightarrow> string list \<times> bool option \<times> 'w" where
  "supported_features_with_probe native once probe w =
     (let (ok, w) = (case once of Some b \<Rightarrow> (b, w) | None \<Rightarrow> (let (r, w) = probe w in (\<not> isl r, w))) in
      if ok then
        (let (available, w) = tracking_available native w in
         (BASE_FEATURES @ [''spawn_identity_v1''] @ (if available then [''track_descendants_v1''] else []), Some ok, w))
      else (BASE_FEATURES, Some ok, w))"

text \<open>A session asks once, in a process of its own.\<close>

definition supported_features :: "'w session_os \<Rightarrow> 'w \<Rightarrow> string list \<times> 'w" where
  "supported_features os w =
     (let (fs, once, w) = supported_features_with_probe (sn_native os) None
        (\<lambda>w. case read_identity os (nt_pid (sn_native os)) w of (r, w) \<Rightarrow> (map_sum id (\<lambda>_. ()) r, w)) w
      in (fs, w))"

record selected_features =
  sel_spawn_identity :: bool
  sel_structured_spawn_errors :: bool
  sel_track_descendants :: bool

definition default_features :: selected_features where
  "default_features = \<lparr>sel_spawn_identity = False, sel_structured_spawn_errors = False, sel_track_descendants = False\<rparr>"

definition select_features ::
  "(bytes \<Rightarrow> string + hello_request) \<Rightarrow> bytes \<Rightarrow> string list \<Rightarrow> string + selected_features" where
  "select_features from_slice bs supported =
     (case (if bs = [] then Inr \<lparr>features = []\<rparr>
            else map_sum (\<lambda>e. ''invalid HELLO payload: '' @ e) id (from_slice bs)) of
        Inl e \<Rightarrow> Inl e
      | Inr request \<Rightarrow>
          (case find (\<lambda>f. f \<notin> set supported) (features request) of
             Some f \<Rightarrow> Inl (''unsupported feature: '' @ f)
           | None \<Rightarrow> Inr
               \<lparr>sel_spawn_identity = (''spawn_identity_v1'' \<in> set (features request)),
                sel_structured_spawn_errors = (''structured_spawn_errors_v1'' \<in> set (features request)),
                sel_track_descendants = (''track_descendants_v1'' \<in> set (features request))\<rparr>))"

section \<open>Up to the request\<close>

text \<open>A step of \<open>run_with_capabilities\<close> returns from it or goes on.\<close>

datatype 'a step_result = Return "io_error + unit" | Go 'a

definition negotiate ::
  "'w session_os \<Rightarrow> ('w \<Rightarrow> string list \<times> 'w) \<Rightarrow> stream \<Rightarrow> 'w \<Rightarrow>
   (selected_features \<times> frame option) step_result \<times> stream \<times> 'w" where
  "negotiate os capabilities stdin w =
     (case read_frame stdin of
        (Inl e, stdin) \<Rightarrow> (Return (Inl e), stdin, w)
      | (Inr None, stdin) \<Rightarrow> (Go (default_features, None), stdin, w)
      | (Inr (Some f), stdin) \<Rightarrow>
          if tag f \<noteq> TAG_HELLO then (Go (default_features, Some f), stdin, w)
          else case capabilities w of (fs, w) \<Rightarrow>
            (case select_features (sn_hello os) (payload f) fs of
               Inl reason \<Rightarrow> (Return (Inr ()), stdin, write_error os reason w)
             | Inr selected \<Rightarrow>
                 (case sn_capabilities os \<lparr>cap_protocol = 1, cap_features = fs\<rparr> of
                    Inl e \<Rightarrow> (Return (Inl e), stdin, w)
                  | Inr bytes \<Rightarrow>
                      (case sn_write os TAG_CAPABILITIES bytes w of
                         (Inl e, w) \<Rightarrow> (Return (Inl e), stdin, w)
                       | (Inr _, w) \<Rightarrow>
                           (case read_frame stdin of
                              (Inl e, stdin) \<Rightarrow> (Return (Inl e), stdin, w)
                            | (Inr next, stdin) \<Rightarrow> (Go (selected, next), stdin, w))))))"

definition interrupt_ok :: "spawn_request \<Rightarrow> bool" where
  "interrupt_ok request =
     (case (rq_interrupt_signal request, interrupt_grace_ms request) of
        (None, None) \<Rightarrow> True
      | (Some _, Some g) \<Rightarrow> 1 \<le> g \<and> g \<le> 4294967295
      | _ \<Rightarrow> False)"

definition accept_request :: "'w session_os \<Rightarrow> frame option \<Rightarrow> 'w \<Rightarrow> spawn_request step_result \<times> 'w" where
  "accept_request os first w =
     (case first of
        None \<Rightarrow> (Return (Inr ()), w)
      | Some f \<Rightarrow>
          if tag f \<noteq> TAG_SPAWN then (Return (Inr ()), write_error os ''expected SPAWN as the first frame'' w)
          else case sn_request os (payload f) of
            Inl e \<Rightarrow> (Return (Inr ()), write_error os (''invalid SPAWN payload: '' @ e) w)
          | Inr request \<Rightarrow>
              if \<not> interrupt_ok request then
                (Return (Inr ()), write_error os ''interrupt_signal requires a positive interrupt_grace_ms (u32)'' w)
              else (Go request, w))"

definition prepare_tracking ::
  "'w session_os \<Rightarrow> selected_features \<Rightarrow> 'w \<Rightarrow> process_identity option step_result \<times> 'w" where
  "prepare_tracking os selected w =
     (if sel_track_descendants selected then
        (case tracking_prepare (sn_native os) w of
           (Inr sh, w) \<Rightarrow> (Go (Some sh), w)
         | (Inl e, w) \<Rightarrow> (Return (Inr ()), write_error os (''descendant tracking unavailable: '' @ sn_display os e) w))
      else (Go None, w))"

section \<open>The end of the child\<close>

text \<open>\<open>waitid\<close> with \<open>WNOWAIT\<close>, again after an interruption.\<close>

partial_function (option) peek_child_exit ::
  "'w session_os \<Rightarrow> u32 \<Rightarrow> bool \<Rightarrow> 'w \<Rightarrow> ((io_error + child_outcome option) \<times> 'w) option" where
  "peek_child_exit os child nonblocking w =
     (case sn_waitid os child nonblocking w of
        (Inl e, w) \<Rightarrow>
          if kind (Os e) = Interrupted then peek_child_exit os child nonblocking w else Some (Inl (Os e), w)
      | (Inr info, w) \<Rightarrow>
          Some (Inr (if si_pid info = 0 then None
            else Some \<lparr>oc_status = (if si_code info = CLD_EXITED then Some (si_status info) else None),
                       oc_signal = (if si_code info = CLD_KILLED \<or> si_code info = CLD_DUMPED
                                    then Some (si_status info) else None)\<rparr>), w))"

declare peek_child_exit.simps [code]

text \<open>What the three senders report.\<close>

definition waiter_event :: "'w session_os \<Rightarrow> u32 \<Rightarrow> 'w \<Rightarrow> event \<times> 'w" where
  "waiter_event os child w =
     (case sn_wait os child w of
        (Inr status, w) \<Rightarrow> (ChildExited \<lparr>oc_status = es_code status, oc_signal = es_signal status\<rparr>, w)
      | (Inl e, w) \<Rightarrow> (ChildExited \<lparr>oc_status = None, oc_signal = None\<rparr>, w))"

definition tracked_waiter_event :: "'w session_os \<Rightarrow> u32 \<Rightarrow> 'w \<Rightarrow> (event \<times> 'w) option" where
  "tracked_waiter_event os child w =
     peek_child_exit os child False w \<bind> (\<lambda>(r, w).
     Some (case r of Inr (Some outcome) \<Rightarrow> ChildExited outcome | _ \<Rightarrow> ChildWaitFailed, w))"

definition timeout_event :: "'w session_os \<Rightarrow> u64 \<Rightarrow> 'w \<Rightarrow> event \<times> 'w" where
  "timeout_event os timeout w = (TimedOutEvent, po_sleep (sn_proc os) (unat timeout) w)"

section \<open>Giving up a started child\<close>

definition reap_and_finish :: "'w session_os \<Rightarrow> u32 \<Rightarrow> cgroup option \<Rightarrow> nat \<Rightarrow> 'w \<Rightarrow> 'w option" where
  "reap_and_finish os child cg grace w =
     teardown_cgroup (sn_proc os) cg grace (snd (sn_wait os child w)) \<bind> (\<lambda>(b, w). Some w)"

definition abort_spawn :: "'w session_os \<Rightarrow> u32 \<Rightarrow> cgroup option \<Rightarrow> nat \<Rightarrow> 'w \<Rightarrow> 'w option" where
  "abort_spawn os child cg grace w =
     reap_and_finish os child cg grace
       (kill_backstop (sn_proc os) cg (snd (po_kill_group (sn_proc os) child SIGKILL w)))"

definition tr_on :: "('w \<Rightarrow> 'w) \<Rightarrow> 'w tracker \<Rightarrow> 'w tracker" where
  "tr_on f tr = tr\<lparr>world := f (world tr)\<rparr>"

definition abort_pass :: "'w session_os \<Rightarrow> 'w tracker \<Rightarrow> bool \<times> 'w tracker" where
  "abort_pass os tr =
     (let tr = scan (sn_source os) tr; (now, w) = po_now (sn_proc os) (world tr);
          (pr, tr) = advance (sn_source os) (sn_macos os) now (tr\<lparr>world := w\<rparr>)
      in (done_now pr, tr))"

partial_function (option) abort_loop :: "'w session_os \<Rightarrow> u32 \<Rightarrow> 'w tracker \<Rightarrow> 'w tracker option" where
  "abort_loop os child tr =
     peek_child_exit os child True (world tr) \<bind> (\<lambda>(r, w).
     let exited = (case r of Inr (Some outcome) \<Rightarrow> True | _ \<Rightarrow> False);
         (finished, tr) = abort_pass os (tr\<lparr>world := w\<rparr>) in
     if finished then
       Some (if exited then tr else tr_on (\<lambda>w. snd (sn_kill_process os child SIGKILL w)) tr)
     else abort_loop os child (tr_on (po_sleep (sn_proc os) SAMPLE_INTERVAL) tr))"

declare abort_loop.simps [code]

definition abort_start :: "'w session_os \<Rightarrow> u32 \<Rightarrow> nat \<Rightarrow> nat option \<Rightarrow> 'w tracker \<Rightarrow> 'w tracker" where
  "abort_start os child grace interrupt tr =
     (let known = root_known tr; tr = scan (sn_source os) tr;
          tr = (if known then tr else tr_on (\<lambda>w. snd (po_kill_group (sn_proc os) child SIGKILL w)) tr);
          (now, w) = po_now (sn_proc os) (world tr)
      in begin_cleanup now interrupt grace (tr\<lparr>world := w\<rparr>))"

definition abort_startup ::
  "'w session_os \<Rightarrow> u32 \<Rightarrow> cgroup option \<Rightarrow> nat \<Rightarrow> nat option \<Rightarrow> 'w tracker option \<Rightarrow> 'w \<Rightarrow> 'w option" where
  "abort_startup os child cg grace interrupt tracker w =
     (case tracker of
        None \<Rightarrow> abort_spawn os child cg grace w
      | Some tr \<Rightarrow>
          abort_loop os child (abort_start os child grace interrupt (tr\<lparr>world := w\<rparr>)) \<bind> (\<lambda>tr.
          reap_and_finish os child cg grace (world (snd (finish_scan (sn_source os) (sn_macos os) tr)))))"

section \<open>Starting a session\<close>

definition announce ::
  "'w session_os \<Rightarrow> selected_features \<Rightarrow> process_identity \<Rightarrow> 'w tracker option \<Rightarrow> 'w \<Rightarrow>
   (io_error + unit) \<times> 'w tracker option \<times> 'w" where
  "announce os selected i tracker w =
     (case sn_identity os i of
        Inl e \<Rightarrow> (Inl e, tracker, w)
      | Inr bytes \<Rightarrow>
          (case (if sel_spawn_identity selected then sn_write os TAG_SPAWNED bytes w else (Inr (), w)) of
             (Inl e, w) \<Rightarrow> (Inl e, tracker, w)
           | (Inr _, w) \<Rightarrow>
               (case tracker of
                  None \<Rightarrow> (Inr (), None, w)
                | Some tr \<Rightarrow>
                    (case sn_write os TAG_TRACKED bytes w of
                       (Inl e, w) \<Rightarrow> (Inl e, Some tr, w)
                     | (Inr _, w) \<Rightarrow> (Inr (), Some (snd (take_new_groups tr)), w)))))"

record started =
  st_child :: u32
  st_master :: "nat option"
  st_cgroup :: "cgroup option"

abbreviation grace_of :: "spawn_request \<Rightarrow> nat" where
  "grace_of request \<equiv> unat (kill_grace_ms request)"

abbreviation interrupt_grace_of :: "spawn_request \<Rightarrow> nat option" where
  "interrupt_grace_of request \<equiv> map_option unat (interrupt_grace_ms request)"

definition give_up :: "'w session_os \<Rightarrow> spawn_request \<Rightarrow> started \<Rightarrow> 'w tracker option \<Rightarrow> 'w \<Rightarrow> 'w option" where
  "give_up os request ch tracker w =
     abort_startup os (st_child ch) (st_cgroup ch) (grace_of request) (interrupt_grace_of request) tracker w"

definition identify_child ::
  "'w session_os \<Rightarrow> selected_features \<Rightarrow> spawn_request \<Rightarrow> process_identity option \<Rightarrow> started \<Rightarrow> 'w \<Rightarrow>
   ('w tracker option step_result \<times> 'w) option" where
  "identify_child os selected request prepared ch w =
     (if sel_spawn_identity selected \<or> sel_track_descendants selected then
        (case read_identity os (st_child ch) w of
           (Inl e, w) \<Rightarrow>
             give_up os request ch
               (map_option (\<lambda>sh. tracker_empty w (\<not> sn_macos os) sh (st_child ch)) prepared) w \<bind> (\<lambda>w.
             Some (Return (Inr ()), write_error os (''spawn identity failed: '' @ sn_display os e) w))
         | (Inr i, w) \<Rightarrow>
             (case announce os selected i (map_option (\<lambda>sh. with_source w (\<not> sn_macos os) sh i) prepared) w of
                (Inl e, tracker, w) \<Rightarrow> give_up os request ch tracker w \<bind> (\<lambda>w. Some (Return (Inl e), w))
              | (Inr _, tracker, w) \<Rightarrow> Some (Go tracker, w)))
      else Some (Go None, w))"

text \<open>The pumps: one on a pty, whose master is duplicated for the writer, two on pipes. On a failed
  duplication only a tracked child is cleaned up.\<close>

definition start_pumps ::
  "'w session_os \<Rightarrow> spawn_request \<Rightarrow> started \<Rightarrow> 'w tracker option \<Rightarrow> 'w \<Rightarrow> (nat step_result \<times> 'w) option" where
  "start_pumps os request ch tracker w =
     (let gated = (window_bytes request \<noteq> None); stderr_gated = (stderr_window_bytes request \<noteq> None) in
      case st_master ch of
        Some master \<Rightarrow>
          (case sn_clone_pty os master w of
             (Inl e, w) \<Rightarrow>
               (if tracker \<noteq> None then give_up os request ch tracker w else Some w) \<bind> (\<lambda>w. Some (Return (Inl e), w))
           | (Inr write_half, w) \<Rightarrow> Some (Go 1, sn_start os (OutputPump TAG_STDOUT StdoutPipe gated) w))
      | None \<Rightarrow>
          Some (Go 2, sn_start os (OutputPump (if merge_stderr request then TAG_STDOUT else TAG_STDERR) StderrPipe stderr_gated)
            (sn_start os (OutputPump TAG_STDOUT StdoutPipe gated) w)))"

definition start_threads ::
  "'w session_os \<Rightarrow> spawn_request \<Rightarrow> u32 \<Rightarrow> bool \<Rightarrow> stream \<Rightarrow> 'w \<Rightarrow> 'w" where
  "start_threads os request child tracked stdin w =
     (let w = sn_start os (StdinReader stdin) (sn_start os (InputWriter tracked) w);
          w = sn_start os (if tracked then TrackedWaiter child else Waiter child) w in
      case timeout_ms request of Some t \<Rightarrow> sn_start os (TimeoutTimer t) w | None \<Rightarrow> w)"

definition session_of :: "bool \<Rightarrow> spawn_request \<Rightarrow> started \<Rightarrow> nat \<Rightarrow> session" where
  "session_of peer request ch pumps =
     \<lparr>se_group = st_child ch, se_kill_grace = grace_of request, se_pumps = pumps, se_cgroup = st_cgroup ch,
      se_credit = (window_bytes request \<noteq> None), se_stderr_credit = (stderr_window_bytes request \<noteq> None),
      se_strict_output = strict_output request, se_interrupt_grace = interrupt_grace_of request, se_peer = peer\<rparr>"

definition start_session ::
  "'w session_os \<Rightarrow> bool \<Rightarrow> selected_features \<Rightarrow> spawn_request \<Rightarrow> process_identity option \<Rightarrow> started \<Rightarrow> stream \<Rightarrow> 'w \<Rightarrow>
   ((session \<times> 'w tracker option) step_result \<times> 'w) option" where
  "start_session os peer selected request prepared ch stdin w =
     identify_child os selected request prepared ch w \<bind> (\<lambda>(r, w).
     case r of
       Return x \<Rightarrow> Some (Return x, w)
     | Go tracker \<Rightarrow>
         start_pumps os request ch tracker w \<bind> (\<lambda>(r, w).
         case r of
           Return x \<Rightarrow> Some (Return x, w)
         | Go pumps \<Rightarrow>
             Some (Go (session_of peer request ch pumps, tracker),
               start_threads os request (st_child ch) (tracker \<noteq> None) stdin w)))"

text \<open>Everything up to the child: what was selected and asked for, and the child.\<close>

definition open_session ::
  "'w session_os \<Rightarrow> ('w \<Rightarrow> string list \<times> 'w) \<Rightarrow> stream \<Rightarrow> 'w \<Rightarrow>
   (selected_features \<times> spawn_request \<times> process_identity option \<times> started) step_result \<times> stream \<times> 'w" where
  "open_session os capabilities stdin w =
     (case negotiate os capabilities stdin w of
        (Return x, stdin, w) \<Rightarrow> (Return x, stdin, w)
      | (Go (selected, first), stdin, w) \<Rightarrow>
          (case accept_request os first w of
             (Return x, w) \<Rightarrow> (Return x, stdin, w)
           | (Go request, w) \<Rightarrow>
               (case prepare_tracking os selected w of
                  (Return x, w) \<Rightarrow> (Return x, stdin, w)
                | (Go prepared, w) \<Rightarrow>
                    (case spawn_child (sn_spawn os) request (sel_structured_spawn_errors selected) w of
                       (Inl f, w) \<Rightarrow>
                         (Return (Inr ()), stdin, write_spawn_error os f (sel_structured_spawn_errors selected) w)
                     | (Inr (child, master, cg), w) \<Rightarrow>
                         (Go (selected, request, prepared, \<lparr>st_child = child, st_master = master, st_cgroup = cg\<rparr>),
                          stdin, w)))))"

text \<open>The session with its end: the supervision, the linger for late credit, and the drop of the
  cgroup. The receiver of the events is a script, as in \<open>supervise\<close>.\<close>

definition linger :: "'w session_os \<Rightarrow> session \<Rightarrow> bool \<Rightarrow> events_rx \<Rightarrow> 'w \<Rightarrow> 'w" where
  "linger os se beam_gone rx w =
     (if (se_credit se \<or> se_stderr_credit se) \<and> \<not> beam_gone
      then snd (drain_inbound_until_closed (tk_sup (sn_track os)) se rx w) else w)"

definition run_with_capabilities ::
  "'w session_os \<Rightarrow> ('w \<Rightarrow> string list \<times> 'w) \<Rightarrow> bool \<Rightarrow> stream \<Rightarrow> events_rx \<Rightarrow> 'w \<Rightarrow>
   ((io_error + unit) \<times> 'w) option" where
  "run_with_capabilities os capabilities peer stdin rx w =
     (case open_session os capabilities stdin w of
        (Return x, stdin, w) \<Rightarrow> Some (x, w)
      | (Go (selected, request, prepared, ch), stdin, w) \<Rightarrow>
          start_session os peer selected request prepared ch stdin w \<bind> (\<lambda>(r, w).
          (case r of
             Return x \<Rightarrow> Some (x, w)
           | Go (se, tracker) \<Rightarrow>
               supervise_child (sn_track os) se (st_child ch) rx tracker w \<bind> (\<lambda>(beam_gone, rx, w).
               Some (Inr (), linger os se beam_gone rx w))) \<bind> (\<lambda>(x, w).
          Some (x, drop_cgroup (so_fs (sn_spawn os)) (st_cgroup ch) w))))"

definition run :: "'w session_os \<Rightarrow> bool \<Rightarrow> stream \<Rightarrow> events_rx \<Rightarrow> 'w \<Rightarrow> ((io_error + unit) \<times> 'w) option" where
  "run os protocol_fd stdin rx w = run_with_capabilities os (supported_features os) protocol_fd stdin rx w"

end
