(* ===== verification/Startup.thy ===== *)
theory Startup
  imports Session
begin

text \<open>
  What a session does before it supervises: that nothing runs unless the handshake, the request
  and tracking were accepted, that the frames that introduce the child precede its output, and
  that a child whose start fails is stopped and reaped. The statements are about the log of a
  system that records the frames written, the start of the child and of the threads, the signals
  to the child, the waits for it, and the EXIT report.
\<close>

section \<open>A system with a log\<close>

datatype startup_event =
    Wrote u8 bytes
  | Running "string list"
  | Signalled u32 int
  | Killed u32 int
  | SawExit u32
  | Waited u32
  | Started shim_thread
  | Reported exit_report

definition noting :: "('r \<Rightarrow> 'ev list) \<Rightarrow> ('w \<Rightarrow> 'r \<times> 'w) \<Rightarrow> 'w \<times> 'ev list \<Rightarrow> 'r \<times> 'w \<times> 'ev list" where
  "noting ev f = (\<lambda>(w, l). case f w of (r, w) \<Rightarrow> (r, (w, l @ ev r)))"

definition lift_native :: "'w native_os \<Rightarrow> ('w \<times> 'x) native_os" where
  "lift_native os =
     \<lparr>nt_fs = lift_fs (nt_fs os), nt_read_dir = (\<lambda>p. on_fst (nt_read_dir os p)), nt_kill = (\<lambda>t sg. on_fst (nt_kill os t sg)),
      nt_waitpid = (\<lambda>p. on_fst (nt_waitpid os p)), nt_get_subreaper = on_fst (nt_get_subreaper os),
      nt_set_subreaper = (\<lambda>e. on_fst (nt_set_subreaper os e)), nt_now = on_fst (nt_now os), nt_pid = nt_pid os\<rparr>"

definition lift_spawn :: "'w spawn_os \<Rightarrow> ('w \<times> 'x) spawn_os" where
  "lift_spawn os =
     \<lparr>so_display = so_display os, so_accounts = so_accounts os, so_fs = lift_fs (so_fs os), so_pid = so_pid os,
      so_sequence = so_sequence os, so_pty = (\<lambda>c. on_fst (so_pty os c)), so_channel = on_fst (so_channel os),
      so_fork = on_fst (so_fork os), so_child = (\<lambda>c. on_fst (so_child os c)), so_exec = (\<lambda>a. on_fst (so_exec os a)),
      so_report_stream = so_report_stream os\<rparr>"

text \<open>A tracked system over the given calls on processes.\<close>

definition lift_track :: "('w \<times> 'x) proc_os \<Rightarrow> 'w track_os \<Rightarrow> ('w \<times> 'x) track_os" where
  "lift_track proc os =
     \<lparr>tk_sup = \<lparr>su_proc = proc,
        su_close_input = (\<lambda>(w, x). (su_close_input (tk_sup os) w, x)),
        su_credit = (\<lambda>p op (w, x). (su_credit (tk_sup os) p op w, x)),
        su_pump_done = (\<lambda>d. on_fst (su_pump_done (tk_sup os) d)), su_peer = on_fst (su_peer (tk_sup os)),
        su_write_exit = (\<lambda>rep (w, x). (su_write_exit (tk_sup os) rep w, x))\<rparr>,
      tk_source = lift_source (tk_source os), tk_on_macos = tk_on_macos os, tk_scope = tk_scope os,
      tk_encode = tk_encode os, tk_try_send = (\<lambda>f. on_fst (tk_try_send os f)),
      tk_kill_child = (\<lambda>(w, x). (tk_kill_child os w, x)), tk_delivered = on_fst (tk_delivered os)\<rparr>"

definition log_spawn :: "'w spawn_os \<Rightarrow> ('w \<times> startup_event list) spawn_os" where
  "log_spawn os = (lift_spawn os)\<lparr>so_exec := (\<lambda>a. noting (\<lambda>r. if r = None then [Running a] else []) (so_exec os a))\<rparr>"

definition log_track :: "'w track_os \<Rightarrow> ('w \<times> startup_event list) track_os" where
  "log_track os =
     (let lifted = lift_track ((lift_proc (su_proc (tk_sup os)))
        \<lparr>po_kill_group := (\<lambda>g sg. noting (\<lambda>r. [Signalled g sg]) (po_kill_group (su_proc (tk_sup os)) g sg))\<rparr>) os in
      lifted\<lparr>tk_sup := (tk_sup lifted)\<lparr>su_write_exit :=
        (\<lambda>rep (w, l). (su_write_exit (tk_sup os) rep w, l @ [Reported rep]))\<rparr>\<rparr>)"

definition recorded_session :: "'w session_os \<Rightarrow> ('w \<times> startup_event list) session_os" where
  "recorded_session os =
     \<lparr>sn_track = log_track (sn_track os), sn_spawn = log_spawn (sn_spawn os), sn_native = lift_native (sn_native os),
      sn_hello = sn_hello os, sn_request = sn_request os, sn_capabilities = sn_capabilities os,
      sn_identity = sn_identity os, sn_report = sn_report os,
      sn_write = (\<lambda>t p. noting (\<lambda>r. [Wrote t p]) (sn_write os t p)),
      sn_waitid = (\<lambda>c nb. noting (\<lambda>r. case r of Inr i \<Rightarrow> if si_pid i = 0 then [] else [SawExit c] | Inl e \<Rightarrow> [])
        (sn_waitid os c nb)),
      sn_wait = (\<lambda>c. noting (\<lambda>r. [Waited c]) (sn_wait os c)),
      sn_kill_process = (\<lambda>c sg. noting (\<lambda>r. [Killed c sg]) (sn_kill_process os c sg)),
      sn_clone_pty = (\<lambda>m. on_fst (sn_clone_pty os m)),
      sn_start = (\<lambda>t (w, l). (sn_start os t w, l @ [Started t]))\<rparr>"

lemmas recorded_defs = recorded_session_def log_track_def lift_track_def log_spawn_def lift_spawn_def lift_native_def lift_proc_def lift_fs_def lift_source_def

lemma noting_log [simp]: "snd (snd (noting ev f s)) = snd s @ ev (fst (noting ev f s))"
  by (simp add: noting_def case_prod_beta)

lemma recorded_parts [simp]:
  "sn_hello (recorded_session os) = sn_hello os" "sn_request (recorded_session os) = sn_request os"
  "sn_capabilities (recorded_session os) = sn_capabilities os" "sn_identity (recorded_session os) = sn_identity os"
  "sn_report (recorded_session os) = sn_report os" "sn_display (recorded_session os) = sn_display os"
  "sn_macos (recorded_session os) = sn_macos os"
  by (simp_all add: recorded_defs)

interpretation startup_quiet: quiet_ops "sn_proc (recorded_session os)" "\<lambda>s. snd s = x" for os :: "'w session_os" and x
  by unfold_locales (auto simp: recorded_defs Let_def split: prod.splits)

interpretation startup_source: source_world "sn_source (recorded_session os)" "\<lambda>s. snd s = x" for os :: "'w session_os" and x
  by unfold_locales (auto simp: recorded_defs Let_def split: prod.splits)

lemma recorded_exec: "exec_view (sn_spawn (recorded_session os)) snd (\<lambda>a l. l @ [Running a])"
  by (auto simp: exec_view_def keeps_def recorded_defs noting_def Let_def split: prod.splits)

lemma recorded_fs: "fs_view (so_fs (sn_spawn (recorded_session os))) snd"
  by (auto simp: fs_view_def keeps_def recorded_defs Let_def split: prod.splits)

lemma spawn_child_log:
  "spawn_child (sn_spawn (recorded_session os)) request structured s = (r, s') \<Longrightarrow>
   snd s' = (case r of Inl _ \<Rightarrow> snd s | Inr _ \<Rightarrow> snd s @ [Running (argv request)])"
  using spawn_child_view [OF recorded_exec recorded_fs] by (fastforce simp: stepped_def)

lemma write_log [simp]: "snd (snd (sn_write (recorded_session os) t p s)) = snd s @ [Wrote t p]"
  by (simp add: recorded_session_def)

lemma write_log': "sn_write (recorded_session os) t p s = (r, s') \<Longrightarrow> snd s' = snd s @ [Wrote t p]"
  by (metis write_log snd_conv)

definition error_frames :: "'w session_os \<Rightarrow> error_report \<Rightarrow> startup_event list" where
  "error_frames os rep = (case sn_report os rep of Some b \<Rightarrow> [Wrote TAG_ERROR b] | None \<Rightarrow> [])"

lemma write_error_log:
  "snd (write_error (recorded_session os) reason s) = snd s @ error_frames os \<lparr>er_reason = reason, er_spawn_error = None\<rparr>"
  by (simp add: write_error_def error_frames_def split: option.splits)

lemma write_spawn_error_log:
  "\<exists>rep. snd (write_spawn_error (recorded_session os) f structured s) = snd s @ error_frames os rep"
  unfolding write_spawn_error_def error_frames_def
  by (rule exI [of _ "\<lparr>er_reason = ''spawn failed: '' @ sf_message f,
        er_spawn_error = (if structured then Some (failure_report f) else None)\<rparr>"])
     (simp split: option.splits)

section \<open>The probes leave no trace\<close>

definition native_view :: "'w native_os \<Rightarrow> ('w \<Rightarrow> 'd) \<Rightarrow> bool" where
  "native_view os view \<longleftrightarrow> fs_view (nt_fs os) view \<and> (\<forall>p. keeps view (nt_read_dir os p))
     \<and> keeps view (nt_get_subreaper os) \<and> (\<forall>e. keeps view (nt_set_subreaper os e))"

lemma recorded_native: "native_view (sn_native (recorded_session os)) snd"
  by (auto simp: native_view_def fs_view_def keeps_def recorded_defs Let_def split: prod.splits)

lemma read_process_view:
  assumes "fs_view fs view" "read_process_linux fs p w = (r, w')"
  shows "view w' = view w"
proof -
  have k: "keeps view (fs_read fs p)" for p using assms(1) by (simp add: fs_view_def)
  obtain x w1 where x: "fs_read fs (''/proc/'' @ fmt_nat (unat p) @ ''/stat'') w = (x, w1)" by force
  obtain y w2 where y: "fs_read fs ''/proc/sys/kernel/random/boot_id'' w1 = (y, w2)" by force
  have "view w1 = view w" "view w2 = view w1" using keepsD [OF k x] keepsD [OF k y] by simp_all
  with x y assms(2) show ?thesis
    by (auto simp: read_process_linux_def read_to_string_def Let_def split: sum.splits option.splits if_splits)
qed

lemma identity_read_view:
  "fs_view fs view \<Longrightarrow> identity_read (read_process_linux fs) p w = (r, w') \<Longrightarrow> view w' = view w"
  by (auto simp: identity_read_def dest: read_process_view split: prod.splits sum.splits)

lemma task_children_view:
  assumes "fs_view (nt_fs os) view"
  shows "task_children os i tasks cs w = (r, w') \<Longrightarrow> view w' = view w"
proof (induction tasks arbitrary: i cs w)
  case (Cons task tasks)
  have k: "keeps view (fs_read (nt_fs os) p)" "keeps view (fs_exists (nt_fs os) p)" for p
    using assms by (simp_all add: fs_view_def)
  obtain x w1 where x: "fs_read (nt_fs os) (path_join (projr task) ''children'') w = (x, w1)" by force
  obtain y w2 where y: "fs_exists (nt_fs os) (projr task) w1 = (y, w2)" by force
  have "view w1 = view w" "view w2 = view w1" using keepsD [OF k(1) x] keepsD [OF k(2) y] by simp_all
  with x y Cons show ?case
    by (cases task; cases x) (fastforce split: if_splits option.splits sum.splits)+
qed simp

lemma native_children_view:
  assumes "native_view os view" "native_children os p w = (r, w')"
  shows "view w' = view w"
proof -
  obtain x w1 where x: "nt_read_dir os (''/proc/'' @ fmt_nat (unat p) @ ''/task'') w = (x, w1)" by force
  have "keeps view (nt_read_dir os (''/proc/'' @ fmt_nat (unat p) @ ''/task''))" using assms(1) by (simp add: native_view_def)
  from keepsD [OF this x] have w1: "view w1 = view w" .
  show ?thesis
  proof (cases x)
    case (Inr tasks)
    with assms(2) x have "task_children os 0 tasks [] w1 = (r, w')" by (simp add: native_children_def)
    with task_children_view [of os view] assms(1) w1 show ?thesis by (simp add: native_view_def)
  qed (use assms(2) x w1 in \<open>auto simp: native_children_def split: if_splits\<close>)
qed

lemma tracking_available_view:
  assumes "native_view os view" "tracking_available os w = (r, w')"
  shows "view w' = view w"
proof -
  note k = assms(1) [unfolded native_view_def]
  have fs: "fs_view (nt_fs os) view" using k by simp
  obtain a w1 where a: "tracking_probe os w = (a, w1)" by force
  have 1: "view w1 = view w" using a k by (auto simp: tracking_probe_def split: prod.splits sum.splits) (metis keepsD)+
  obtain b w2 where b: "identity_read (read_process_linux (nt_fs os)) (nt_pid os) w1 = (b, w2)" by force
  have 2: "view w2 = view w1" by (rule identity_read_view [OF fs b])
  obtain c w3 where c: "native_children os (nt_pid os) w2 = (c, w3)" by force
  have 3: "view w3 = view w2"
    by (rule native_children_view [OF assms(1) c])
  from assms(2) a b c 1 2 3 show ?thesis by (cases a; cases b; cases c) (auto simp: tracking_available_def)
qed

lemma tracking_prepare_view:
  assumes "native_view os view" "tracking_prepare os w = (r, w')"
  shows "view w' = view w"
proof -
  note k = assms(1) [unfolded native_view_def]
  have fs: "fs_view (nt_fs os) view" using k by simp
  show ?thesis using assms(2) k identity_read_view [OF fs]
    by (auto simp: tracking_prepare_def platform_prepare_def dest: keepsD split: prod.splits sum.splits)
qed

lemma read_identity_log: "read_identity (recorded_session os) p s = (r, s') \<Longrightarrow> snd s' = snd s"
  using recorded_native [of os] by (auto simp: read_identity_def native_view_def intro: identity_read_view)

lemma supported_features_log: "supported_features (recorded_session os) s = (fs, s') \<Longrightarrow> snd s' = snd s"
  by (auto simp: supported_features_def supported_features_with_probe_def Let_def split: prod.splits if_splits
      dest!: read_identity_log tracking_available_view [OF recorded_native])

section \<open>What a session is opened by\<close>

text \<open>The features a selection stands for were all asked for and advertised.\<close>

definition advertised :: "string list \<Rightarrow> selected_features \<Rightarrow> bool" where
  "advertised fs selected \<longleftrightarrow> (sel_spawn_identity selected \<longrightarrow> ''spawn_identity_v1'' \<in> set fs)
     \<and> (sel_structured_spawn_errors selected \<longrightarrow> ''structured_spawn_errors_v1'' \<in> set fs)
     \<and> (sel_track_descendants selected \<longrightarrow> ''track_descendants_v1'' \<in> set fs)"

lemma select_features_advertised: "select_features parse bs fs = Inr selected \<Longrightarrow> advertised fs selected"
  by (auto simp: select_features_def advertised_def find_None_iff split: sum.splits option.splits if_splits)

text \<open>The exchange before the request: none, or a HELLO whose every feature is advertised in the answer.\<close>

definition handshake :: "'w session_os \<Rightarrow> stream \<Rightarrow> selected_features \<Rightarrow> frame option \<Rightarrow> stream \<Rightarrow> startup_event list \<Rightarrow> bool" where
  "handshake os stdin selected first rest evs \<longleftrightarrow>
     read_frame stdin = (Inr first, rest) \<and> selected = default_features \<and> evs = []
       \<and> (\<forall>f. first = Some f \<longrightarrow> tag f \<noteq> TAG_HELLO)
     \<or> (\<exists>hello mid fs b. read_frame stdin = (Inr (Some hello), mid) \<and> tag hello = TAG_HELLO
          \<and> select_features (sn_hello os) (payload hello) fs = Inr selected \<and> advertised fs selected
          \<and> sn_capabilities os \<lparr>cap_protocol = 1, cap_features = fs\<rparr> = Inr b
          \<and> evs = [Wrote TAG_CAPABILITIES b] \<and> read_frame mid = (Inr first, rest))"

lemma negotiate_log:
  assumes "negotiate (recorded_session os) capabilities stdin s = (v, stdin', s')"
    and caps: "\<And>s fs s'. capabilities s = (fs, s') \<Longrightarrow> snd s' = snd s"
  shows "case v of
      Go (selected, first) \<Rightarrow> \<exists>evs. handshake os stdin selected first stdin' evs \<and> snd s' = snd s @ evs
    | Return x \<Rightarrow> (x = Inr () \<and> (\<exists>reason. snd s' = snd s @ error_frames os \<lparr>er_reason = reason, er_spawn_error = None\<rparr>))
        \<or> (isl x \<and> (snd s' = snd s \<or> (\<exists>b. snd s' = snd s @ [Wrote TAG_CAPABILITIES b])))"
proof -
  obtain r mid where r: "read_frame stdin = (r, mid)" by force
  consider (bad) e where "r = Inl e" | (plain) first where "r = Inr first" "\<forall>f. first = Some f \<longrightarrow> tag f \<noteq> TAG_HELLO"
    | (hello) f where "r = Inr (Some f)" "tag f = TAG_HELLO"
    by (metis obj_sumE not_None_eq)
  then show ?thesis
  proof cases
    case bad
    with assms(1) r show ?thesis by (auto simp: negotiate_def)
  next
    case plain
    with assms(1) r have "v = Go (default_features, first)" "stdin' = mid" "s' = s"
      by (cases first; simp add: negotiate_def)+
    with plain r show ?thesis by (simp add: handshake_def)
  next
    case hello
    obtain fs s1 where fs: "capabilities s = (fs, s1)" by (metis prod.collapse)
    have s1: "snd s1 = snd s" by (rule caps [OF fs])
    show ?thesis
    proof (cases "select_features (sn_hello os) (payload f) fs")
      case (Inl reason)
      with assms(1) r hello fs s1 show ?thesis by (auto simp: negotiate_def write_error_log)
    next
      case selected: (Inr selected)
      show ?thesis
      proof (cases "sn_capabilities os \<lparr>cap_protocol = 1, cap_features = fs\<rparr>")
        case (Inl e)
        with assms(1) r hello fs s1 selected show ?thesis by (auto simp: negotiate_def)
      next
        case b: (Inr b)
        obtain x s2 where x: "sn_write (recorded_session os) TAG_CAPABILITIES b s1 = (x, s2)" by (metis prod.collapse)
        from write_log' [OF x] s1 have s2: "snd s2 = snd s @ [Wrote TAG_CAPABILITIES b]" by simp
        obtain n rest where n: "read_frame mid = (n, rest)" by force
        from assms(1) r hello fs selected b x n s2 select_features_advertised [OF selected] show ?thesis
          by (cases x; cases n) (auto simp: negotiate_def handshake_def)
      qed
    qed
  qed
qed

lemma accept_request_log:
  assumes "accept_request (recorded_session os) first s = (v, s')"
  shows "case v of
      Go request \<Rightarrow> s' = s \<and> interrupt_ok request
        \<and> (\<exists>f. first = Some f \<and> tag f = TAG_SPAWN \<and> sn_request os (payload f) = Inr request)
    | Return x \<Rightarrow> x = Inr () \<and> (s' = s \<or> (\<exists>rep. snd s' = snd s @ error_frames os rep))"
  using assms by (fastforce simp: accept_request_def write_error_log split: option.splits sum.splits if_splits)

lemma prepare_tracking_log:
  assumes "prepare_tracking (recorded_session os) selected s = (v, s')"
  shows "case v of
      Go prepared \<Rightarrow> snd s' = snd s \<and> (prepared \<noteq> None \<longleftrightarrow> sel_track_descendants selected)
    | Return x \<Rightarrow> x = Inr () \<and> (\<exists>rep. snd s' = snd s @ error_frames os rep)"
proof -
  obtain x s1 where x: "tracking_prepare (sn_native (recorded_session os)) s = (x, s1)" by (metis prod.collapse)
  with tracking_prepare_view [OF recorded_native x] assms show ?thesis
    by (cases x) (auto simp: prepare_tracking_def write_error_log split: if_splits)
qed

text \<open>One ERROR frame at most, and nothing else.\<close>

definition at_most_error :: "startup_event list \<Rightarrow> bool" where
  "at_most_error evs \<longleftrightarrow> evs = [] \<or> (\<exists>b. evs = [Wrote TAG_ERROR b])"

lemma at_most_error: "at_most_error []" "at_most_error (error_frames os rep)"
  by (auto simp: at_most_error_def error_frames_def split: option.splits)

lemma open_session_log:
  assumes "open_session (recorded_session os) (supported_features (recorded_session os)) stdin s = (v, stdin', s')"
  shows "case v of
      Go (selected, request, prepared, ch) \<Rightarrow>
        \<exists>f evs. handshake os stdin selected (Some f) stdin' evs \<and> tag f = TAG_SPAWN
          \<and> sn_request os (payload f) = Inr request \<and> interrupt_ok request
          \<and> (prepared \<noteq> None \<longleftrightarrow> sel_track_descendants selected)
          \<and> snd s' = snd s @ evs @ [Running (argv request)]
    | Return x \<Rightarrow> \<exists>evs es. snd s' = snd s @ evs @ es \<and> at_most_error es \<and> (isl x \<longrightarrow> es = [])
          \<and> (evs = [] \<or> (\<exists>b. evs = [Wrote TAG_CAPABILITIES b]))"
proof -
  let ?os = "recorded_session os"
  obtain v1 in1 s1 where n: "negotiate ?os (supported_features ?os) stdin s = (v1, in1, s1)" by (metis prod.collapse)
  have N: "case v1 of
      Go (selected, first) \<Rightarrow> \<exists>evs. handshake os stdin selected first in1 evs \<and> snd s1 = snd s @ evs
    | Return x \<Rightarrow> (x = Inr () \<and> (\<exists>reason. snd s1 = snd s @ error_frames os \<lparr>er_reason = reason, er_spawn_error = None\<rparr>))
        \<or> (isl x \<and> (snd s1 = snd s \<or> (\<exists>b. snd s1 = snd s @ [Wrote TAG_CAPABILITIES b])))"
    using n by (rule negotiate_log) (rule supported_features_log)
  show ?thesis
  proof (cases v1)
    case (Return x)
    with assms n have v: "v = Return x" "s' = s1" by (simp_all add: open_session_def)
    from N Return consider reason where "x = Inr ()" "snd s1 = snd s @ error_frames os \<lparr>er_reason = reason, er_spawn_error = None\<rparr>"
      | "isl x" "snd s1 = snd s" | b where "isl x" "snd s1 = snd s @ [Wrote TAG_CAPABILITIES b]" by auto
    then show ?thesis
    proof cases
      case 1
      with v at_most_error(2) show ?thesis by simp (rule exI [of _ "[]"], simp)
    qed (use v in \<open>simp_all add: at_most_error(1)\<close>)
  next
    case (Go sf)
    then obtain selected first where sf: "v1 = Go (selected, first)" by (cases sf) auto
    with N obtain evs where evs: "handshake os stdin selected first in1 evs" "snd s1 = snd s @ evs" by auto
    then have hs: "evs = [] \<or> (\<exists>b. evs = [Wrote TAG_CAPABILITIES b])" by (auto simp: handshake_def)
    have stop: ?thesis if "v = Return (Inr ())" "s' = s1 \<or> (\<exists>rep. snd s' = snd s1 @ error_frames os rep)"
    proof -
      from that(2) obtain es where "snd s' = snd s @ evs @ es" "at_most_error es"
        using evs(2) at_most_error by fastforce
      with that(1) hs show ?thesis by auto
    qed
    obtain v2 s2 where a: "accept_request ?os first s1 = (v2, s2)" by (metis prod.collapse)
    note A = accept_request_log [OF a]
    show ?thesis
    proof (cases v2)
      case (Return x)
      with assms n sf a A have "v = Return (Inr ())" "s' = s2" by (simp_all add: open_session_def)
      with A Return show ?thesis by (intro stop) auto
    next
      case (Go request)
      with A obtain f where f: "s2 = s1" "interrupt_ok request" "first = Some f" "tag f = TAG_SPAWN"
        "sn_request os (payload f) = Inr request" by auto
      obtain v3 s3 where p: "prepare_tracking ?os selected s2 = (v3, s3)" by (metis prod.collapse)
      note P = prepare_tracking_log [OF p]
      show ?thesis
      proof (cases v3)
        case (Return x)
        with assms n sf a Go p P have "v = Return (Inr ())" "s' = s3" by (simp_all add: open_session_def)
        with P Return f show ?thesis by (intro stop) auto
      next
        case prepared: (Go prepared)
        obtain c s4 where c: "spawn_child (sn_spawn ?os) request (sel_structured_spawn_errors selected) s3 = (c, s4)"
          by (metis prod.collapse)
        note C = spawn_child_log [OF c]
        show ?thesis
        proof (cases c)
          case (Inl failure)
          with assms n sf a Go p prepared c have v: "v = Return (Inr ())"
            "s' = write_spawn_error ?os failure (sel_structured_spawn_errors selected) s4" by (simp_all add: open_session_def)
          obtain rep where "snd s' = snd s4 @ error_frames os rep" using write_spawn_error_log v(2) by metis
          with v C Inl P prepared f show ?thesis by (intro stop) auto
        next
          case (Inr ch)
          obtain child master cg where ch: "ch = (child, master, cg)" by (metis prod.collapse)
          with assms n sf a Go p prepared c Inr have
            "v = Go (selected, request, prepared, \<lparr>st_child = child, st_master = master, st_cgroup = cg\<rparr>)" "stdin' = in1" "s' = s4"
            by (simp_all add: open_session_def)
          with C Inr P prepared f evs show ?thesis by auto
        qed
      qed
    qed
  qed
qed

section \<open>A child that is given up\<close>

definition put_down :: "u32 \<Rightarrow> startup_event list \<Rightarrow> bool" where
  "put_down c evs \<longleftrightarrow> (\<exists>ks. evs = ks @ [Waited c] \<and> ks \<noteq> [] \<and> set ks \<subseteq> {Signalled c SIGKILL, SawExit c, Killed c SIGKILL})"

lemma recorded_calls [simp]:
  "snd (snd (sn_wait (recorded_session os) c s)) = snd s @ [Waited c]"
  "snd (snd (sn_kill_process (recorded_session os) c sg s)) = snd s @ [Killed c sg]"
  "snd (snd (po_kill_group (sn_proc (recorded_session os)) c sg s)) = snd s @ [Signalled c sg]"
  "snd (sn_start (recorded_session os) t s) = snd s @ [Started t]"
  "snd (snd (sn_clone_pty (recorded_session os) m s)) = snd s"
  "snd (snd (po_now (sn_proc (recorded_session os)) s)) = snd s"
  "snd (po_sleep (sn_proc (recorded_session os)) d s) = snd s"
  by (simp_all add: recorded_session_def log_track_def lift_track_def lift_proc_def Let_def case_prod_beta)

lemma recorded_waitid:
  "sn_waitid (recorded_session os) c nb s = (r, s') \<Longrightarrow>
   snd s' = snd s @ (case r of Inr i \<Rightarrow> if si_pid i = 0 then [] else [SawExit c] | Inl e \<Rightarrow> [])"
  by (auto simp: recorded_session_def noting_def split: prod.splits)

lemma peek_log':
  "peek_child_exit os' c nb s = Some y \<Longrightarrow> os' = recorded_session os \<Longrightarrow>
   snd (snd y) = snd s @ (case fst y of Inr (Some oc) \<Rightarrow> [SawExit c] | _ \<Rightarrow> [])"
proof (induction rule: peek_child_exit.raw_induct [rotated 1, consumes 1, case_names step])
  case (step again os' c nb s y)
  obtain r s1 where r: "sn_waitid (recorded_session os) c nb s = (r, s1)" by (metis prod.collapse)
  note log = recorded_waitid [OF r]
  show ?case
  proof (cases r)
    case (Inr i)
    with step(2) [unfolded step(3)] r log show ?thesis by auto
  next
    case (Inl e)
    show ?thesis
    proof (cases "kind (Os e) = Interrupted")
      case True
      with step(2) [unfolded step(3)] r Inl have "again (recorded_session os) c nb s1 = Some y" by simp
      from step(1) [OF this refl] log Inl show ?thesis by simp
    next
      case False
      with step(2) [unfolded step(3)] r log Inl show ?thesis by auto
    qed
  qed
qed

lemma peek_log:
  "peek_child_exit (recorded_session os) c nb s = Some (r, s') \<Longrightarrow>
   snd s' = snd s @ (case r of Inr (Some oc) \<Rightarrow> [SawExit c] | _ \<Rightarrow> [])"
  using peek_log' [OF _ refl] by fastforce

lemma tracker_calls_log:
  "snd (world (scan (sn_source (recorded_session os)) tr)) = snd (world tr)"
  "snd (world (snd (advance (sn_source (recorded_session os)) m now tr))) = snd (world tr)"
  "snd (world (snd (finish_scan (sn_source (recorded_session os)) m tr))) = snd (world tr)"
  by (rule startup_source.tracked.scan_inv, simp)
     (rule startup_source.tracked.advance_inv startup_source.tracked.finish_scan_inv, simp_all)+

lemma abort_pass_log: "snd (world (snd (abort_pass (recorded_session os) tr))) = snd (world tr)"
  by (simp add: abort_pass_def Let_def case_prod_beta tracker_calls_log)

lemma abort_loop_log':
  "abort_loop os' c tr = Some tr' \<Longrightarrow> os' = recorded_session os \<Longrightarrow>
   \<exists>ks. snd (world tr') = snd (world tr) @ ks \<and> ks \<noteq> [] \<and> set ks \<subseteq> {SawExit c, Killed c SIGKILL}"
proof (induction rule: abort_loop.raw_induct [rotated 1, consumes 1, case_names step])
  case (step again os' c tr tr')
  note run = step(2) [unfolded step(3)]
  from run obtain r s1 where peek: "peek_child_exit (recorded_session os) c True (world tr) = Some (r, s1)"
    by (auto split: bind_splits)
  define saw where "saw = (case r of Inr (Some oc) \<Rightarrow> [SawExit c] | _ \<Rightarrow> [])"
  have 1: "snd s1 = snd (world tr) @ saw" using peek_log [OF peek] by (simp add: saw_def)
  obtain fin t2 where pass: "abort_pass (recorded_session os) (tr\<lparr>world := s1\<rparr>) = (fin, t2)" by (metis prod.collapse)
  have 2: "snd (world t2) = snd (world tr) @ saw"
    using abort_pass_log [of os "tr\<lparr>world := s1\<rparr>"] pass 1 by simp
  show ?case
  proof (cases fin)
    case True
    with run peek pass have "tr' = (if saw \<noteq> [] then t2 else tr_on (\<lambda>w. snd (sn_kill_process (recorded_session os) c SIGKILL w)) t2)"
      by (auto simp: saw_def split: sum.splits option.splits)
    then have "snd (world tr') = snd (world tr) @ (if saw \<noteq> [] then saw else [Killed c SIGKILL])"
      using 2 by (simp add: tr_on_def)
    then show ?thesis
      by (intro exI [of _ "if saw \<noteq> [] then saw else [Killed c SIGKILL]"])
         (auto simp: saw_def split: sum.splits option.splits)
  next
    case False
    with run peek pass have "again (recorded_session os) c (tr_on (po_sleep (sn_proc (recorded_session os)) SAMPLE_INTERVAL) t2) = Some tr'"
      by simp
    from step(1) [OF this refl] obtain ks where
      "snd (world tr') = snd (world t2) @ ks" "ks \<noteq> []" "set ks \<subseteq> {SawExit c, Killed c SIGKILL}"
      by (auto simp: tr_on_def)
    with 2 show ?thesis by (intro exI [of _ "saw @ ks"]) (auto simp: saw_def split: sum.splits option.splits)
  qed
qed

lemma reap_log:
  assumes "reap_and_finish (recorded_session os) c cg grace s = Some s'"
  shows "snd s' = snd s @ [Waited c]"
proof -
  from assms obtain b where
    t: "teardown_cgroup (sn_proc (recorded_session os)) cg grace (snd (sn_wait (recorded_session os) c s)) = Some (b, s')"
    by (auto simp: reap_and_finish_def split: bind_splits)
  show ?thesis using t
    by (cases cg) (auto simp: teardown_cgroup_def dest!: startup_quiet.finish_cgroup_inv [OF _ refl])
qed

lemma abort_start_log:
  "snd (world (abort_start (recorded_session os) c grace interrupt tr)) =
     snd (world tr) @ (if root_known tr then [] else [Signalled c SIGKILL])"
proof -
  have keep: "world (begin_cleanup n i t tr) = world tr" for n i t and tr :: "'b tracker"
    by (simp add: begin_cleanup_def Let_def)
  show ?thesis by (simp add: abort_start_def Let_def case_prod_beta keep tr_on_def tracker_calls_log)
qed

lemma abort_startup_log:
  assumes "abort_startup (recorded_session os) c cg grace interrupt tracker s = Some s'"
  shows "\<exists>evs. snd s' = snd s @ evs \<and> put_down c evs"
proof (cases tracker)
  case None
  let ?w = "snd (po_kill_group (sn_proc (recorded_session os)) c SIGKILL s)"
  have "snd (kill_backstop (sn_proc (recorded_session os)) cg ?w) = snd ?w"
    by (rule startup_quiet.backstop_inv) (rule refl)
  then have "snd s' = snd s @ [Signalled c SIGKILL] @ [Waited c]"
    using None assms by (auto simp: abort_startup_def abort_spawn_def dest!: reap_log)
  moreover have "put_down c ([Signalled c SIGKILL] @ [Waited c])"
    unfolding put_down_def by (intro exI [of _ "[Signalled c SIGKILL]"]) simp
  ultimately show ?thesis by blast
next
  case (Some tr)
  let ?os = "recorded_session os"
  let ?t0 = "abort_start ?os c grace interrupt (tr\<lparr>world := s\<rparr>)"
  from assms Some obtain t1 where loop: "abort_loop ?os c ?t0 = Some t1"
    and reap: "reap_and_finish ?os c cg grace (world (snd (finish_scan (sn_source ?os) (sn_macos ?os) t1))) = Some s'"
    by (auto simp: abort_startup_def split: bind_splits)
  from abort_loop_log' [OF loop refl] obtain ks where
    ks: "snd (world t1) = snd (world ?t0) @ ks" "ks \<noteq> []" "set ks \<subseteq> {SawExit c, Killed c SIGKILL}" by blast
  define k0 where "k0 = (if root_known (tr\<lparr>world := s\<rparr>) then [] else [Signalled c SIGKILL])"
  have "snd s' = snd s @ (k0 @ ks) @ [Waited c]"
    using reap_log [OF reap] ks(1) by (simp add: tracker_calls_log abort_start_log k0_def)
  moreover have "put_down c ((k0 @ ks) @ [Waited c])"
    unfolding put_down_def using ks by (intro exI [of _ "k0 @ ks"]) (auto simp: k0_def)
  ultimately show ?thesis by blast
qed

section \<open>The frames that introduce a child\<close>

definition introduced :: "selected_features \<Rightarrow> bytes \<Rightarrow> startup_event list" where
  "introduced selected b =
     (if sel_spawn_identity selected then [Wrote TAG_SPAWNED b] else [])
     @ (if sel_track_descendants selected then [Wrote TAG_TRACKED b] else [])"

definition introductions :: "startup_event list \<Rightarrow> bool" where
  "introductions evs \<longleftrightarrow> (\<forall>ev\<in>set evs. \<exists>b. ev = Wrote TAG_SPAWNED b \<or> ev = Wrote TAG_TRACKED b)"

lemma introductions_simps [simp]:
  "introductions []" "introductions (introduced selected b)" "introductions [Wrote TAG_SPAWNED b]"
  "introductions [Wrote TAG_TRACKED b]" "introductions [Wrote TAG_SPAWNED b, Wrote TAG_TRACKED b]"
  by (auto simp: introductions_def introduced_def)

lemma announce_log:
  assumes "announce (recorded_session os) selected i tracker s = (r, tracker', s')"
    and "tracker \<noteq> None \<longleftrightarrow> sel_track_descendants selected"
  shows "(tracker' \<noteq> None \<longleftrightarrow> tracker \<noteq> None) \<and> (\<exists>evs. snd s' = snd s @ evs \<and> introductions evs
    \<and> (\<forall>u. r = Inr u \<longrightarrow> (\<exists>b. sn_identity os i = Inr b \<and> evs = introduced selected b)))"
proof (cases "sn_identity os i")
  case (Inl e)
  with assms(1) show ?thesis by (auto simp: announce_def)
next
  case (Inr b)
  let ?os = "recorded_session os"
  obtain x s1 where x: "(if sel_spawn_identity selected then sn_write ?os TAG_SPAWNED b s else (Inr (), s)) = (x, s1)"
    by (metis prod.collapse)
  define e1 where "e1 = (if sel_spawn_identity selected then [Wrote TAG_SPAWNED b] else [])"
  have 1: "snd s1 = snd s @ e1" using x by (auto simp: e1_def split: if_splits dest: write_log')
  obtain y s2 where y: "sn_write ?os TAG_TRACKED b s1 = (y, s2)" by (metis prod.collapse)
  note 2 = write_log' [OF y]
  consider (first) e where "x = Inl e" | (untracked) "x = Inr ()" "tracker = None"
    | (tracked) tr where "x = Inr ()" "tracker = Some tr"
    by (cases x; cases tracker) auto
  then show ?thesis
  proof cases
    case first
    with assms(1) Inr x 1 show ?thesis by (auto simp: announce_def e1_def)
  next
    case untracked
    with assms Inr x 1 show ?thesis by (auto simp: announce_def e1_def introduced_def)
  next
    case (tracked tr)
    with assms Inr x y 1 2 show ?thesis
      by (cases y) (auto simp: announce_def e1_def introduced_def)
  qed
qed

lemma identify_child_log:
  assumes "identify_child (recorded_session os) selected request prepared ch s = Some (v, s')"
    and prepared: "prepared \<noteq> None \<longleftrightarrow> sel_track_descendants selected"
  shows "case v of
      Go tracker \<Rightarrow> (tracker \<noteq> None \<longleftrightarrow> sel_track_descendants selected)
        \<and> (\<exists>b. snd s' = snd s @ introduced selected b \<and> (introduced selected b = []
             \<or> (\<exists>i s1. read_identity (recorded_session os) (st_child ch) s = (Inr i, s1) \<and> sn_identity os i = Inr b)))
    | Return x \<Rightarrow> \<exists>evs ks es. snd s' = snd s @ evs @ ks @ es \<and> introductions evs \<and> put_down (st_child ch) ks
        \<and> at_most_error es \<and> (x = Inr () \<longrightarrow> evs = []) \<and> (isl x \<longrightarrow> es = [])"
proof (cases "sel_spawn_identity selected \<or> sel_track_descendants selected")
  case False
  with assms show ?thesis by (auto simp: identify_child_def introduced_def)
next
  case True
  let ?os = "recorded_session os" and ?child = "st_child ch"
  obtain r s1 where r: "read_identity ?os ?child s = (r, s1)" by (metis prod.collapse)
  note 1 = read_identity_log [OF r]
  show ?thesis
  proof (cases r)
    case (Inl e)
    with assms(1) True r obtain s2 where
      up: "give_up ?os request ch (map_option (\<lambda>sh. tracker_empty s1 (\<not> sn_macos os) sh ?child) prepared) s1 = Some s2"
      and v: "v = Return (Inr ())" "s' = write_error ?os (''spawn identity failed: '' @ sn_display os e) s2"
      by (auto simp: identify_child_def split: bind_splits)
    from abort_startup_log [OF up [unfolded give_up_def]] obtain ks where
      "snd s2 = snd s @ ks" "put_down ?child ks" using 1 by auto
    then have "snd s' = snd s @ [] @ ks @ error_frames os \<lparr>er_reason = ''spawn identity failed: '' @ sn_display os e, er_spawn_error = None\<rparr>"
      using v(2) by (simp add: write_error_log)
    then have "\<exists>evs ks es. snd s' = snd s @ evs @ ks @ es \<and> introductions evs \<and> put_down ?child ks
        \<and> at_most_error es \<and> evs = []"
      using \<open>put_down ?child ks\<close> at_most_error(2) introductions_simps(1) by blast
    with v(1) show ?thesis by simp
  next
    case (Inr i)
    let ?tr = "map_option (\<lambda>sh. with_source s1 (\<not> sn_macos os) sh i) prepared"
    obtain a tracker s2 where a: "announce ?os selected i ?tr s1 = (a, tracker, s2)" by (metis prod.collapse)
    have "?tr \<noteq> None \<longleftrightarrow> sel_track_descendants selected" using prepared by simp
    from announce_log [OF a this] obtain evs where evs: "tracker \<noteq> None \<longleftrightarrow> sel_track_descendants selected"
      "snd s2 = snd s @ evs" "introductions evs"
      "\<And>u. a = Inr u \<Longrightarrow> \<exists>b. sn_identity os i = Inr b \<and> evs = introduced selected b"
      using prepared 1 by auto
    show ?thesis
    proof (cases a)
      case failed: (Inl e)
      with assms(1) True r Inr a obtain s3 where up: "give_up ?os request ch tracker s2 = Some s3"
        and v: "v = Return (Inl e)" "s' = s3" by (auto simp: identify_child_def split: bind_splits)
      from abort_startup_log [OF up [unfolded give_up_def]] obtain ks where
        "snd s3 = snd s2 @ ks" "put_down ?child ks" by auto
      with v evs(2,3) at_most_error(1) show ?thesis by auto
    next
      case (Inr u)
      with assms(1) True r \<open>r = Inr i\<close> a have "v = Go tracker" "s' = s2" by (auto simp: identify_child_def)
      with evs(1,2) evs(4) [OF Inr] r \<open>r = Inr i\<close> show ?thesis by auto
    qed
  qed
qed

section \<open>The threads\<close>

definition session_pumps :: "spawn_request \<Rightarrow> started \<Rightarrow> shim_thread list" where
  "session_pumps request ch =
     OutputPump TAG_STDOUT StdoutPipe (window_bytes request \<noteq> None)
     # (if st_master ch = None then
          [OutputPump (if merge_stderr request then TAG_STDOUT else TAG_STDERR) StderrPipe (stderr_window_bytes request \<noteq> None)]
        else [])"

definition session_threads :: "spawn_request \<Rightarrow> started \<Rightarrow> bool \<Rightarrow> stream \<Rightarrow> shim_thread list" where
  "session_threads request ch tracked stdin =
     session_pumps request ch @ [InputWriter tracked, StdinReader stdin,
       if tracked then TrackedWaiter (st_child ch) else Waiter (st_child ch)]
     @ (case timeout_ms request of Some t \<Rightarrow> [TimeoutTimer t] | None \<Rightarrow> [])"

lemma start_pumps_log:
  assumes "start_pumps (recorded_session os) request ch tracker s = Some (v, s')"
  shows "case v of
      Go n \<Rightarrow> n = length (session_pumps request ch) \<and> snd s' = snd s @ map Started (session_pumps request ch)
    | Return x \<Rightarrow> isl x \<and> st_master ch \<noteq> None
        \<and> (\<exists>ks. snd s' = snd s @ ks \<and> (if tracker \<noteq> None then put_down (st_child ch) ks else ks = []))"
proof (cases "st_master ch")
  case None
  with assms show ?thesis by (auto simp: start_pumps_def session_pumps_def Let_def)
next
  case (Some m)
  let ?os = "recorded_session os"
  obtain r s1 where r: "sn_clone_pty ?os m s = (r, s1)" by (metis prod.collapse)
  then have 1: "snd s1 = snd s" using recorded_calls(5) [of os m s] by simp
  show ?thesis
  proof (cases r)
    case (Inl e)
    with assms Some r obtain s2 where
      up: "(if tracker \<noteq> None then give_up ?os request ch tracker s1 else Some s1) = Some s2"
      and v: "v = Return (Inl e)" "s' = s2"
      by (auto simp: start_pumps_def Let_def split: bind_splits)
    have "\<exists>ks. snd s2 = snd s1 @ ks \<and> (if tracker \<noteq> None then put_down (st_child ch) ks else ks = [])"
      using up by (cases tracker) (auto simp: give_up_def dest!: abort_startup_log)
    with v 1 Some show ?thesis by simp
  next
    case (Inr h)
    with assms Some r 1 show ?thesis by (auto simp: start_pumps_def session_pumps_def Let_def)
  qed
qed

lemma start_threads_log:
  "snd (start_threads (recorded_session os) request child tracked stdin s) =
     snd s @ map Started ([InputWriter tracked, StdinReader stdin, if tracked then TrackedWaiter child else Waiter child]
       @ (case timeout_ms request of Some t \<Rightarrow> [TimeoutTimer t] | None \<Rightarrow> []))"
  by (simp add: start_threads_def Let_def split: option.splits)

lemma start_session_log:
  assumes "start_session (recorded_session os) peer selected request prepared ch stdin s = Some (v, s')"
    and prepared: "prepared \<noteq> None \<longleftrightarrow> sel_track_descendants selected"
  shows "case v of
      Go (se, tracker) \<Rightarrow> (tracker \<noteq> None \<longleftrightarrow> sel_track_descendants selected)
        \<and> se = session_of peer request ch (length (session_pumps request ch))
        \<and> (\<exists>b. snd s' = snd s @ introduced selected b
                @ map Started (session_threads request ch (sel_track_descendants selected) stdin)
             \<and> (introduced selected b = []
                \<or> (\<exists>i s1. read_identity (recorded_session os) (st_child ch) s = (Inr i, s1) \<and> sn_identity os i = Inr b)))
    | Return x \<Rightarrow> \<exists>evs ks es. snd s' = snd s @ evs @ ks @ es \<and> introductions evs \<and> at_most_error es
        \<and> (x = Inr () \<longrightarrow> evs = []) \<and> (isl x \<longrightarrow> es = [])
        \<and> (put_down (st_child ch) ks \<or> ks = [] \<and> isl x \<and> \<not> sel_track_descendants selected \<and> st_master ch \<noteq> None)"
proof -
  let ?os = "recorded_session os"
  from assms(1) obtain v1 s1 where i: "identify_child ?os selected request prepared ch s = Some (v1, s1)"
    by (auto simp: start_session_def split: bind_splits)
  note I = identify_child_log [OF i prepared]
  show ?thesis
  proof (cases v1)
    case (Return x)
    with assms(1) i have "v = Return x" "s' = s1" by (simp_all add: start_session_def)
    with I Return show ?thesis by simp blast
  next
    case (Go tracker)
    with I obtain b where tracked: "tracker \<noteq> None \<longleftrightarrow> sel_track_descendants selected"
      and b: "snd s1 = snd s @ introduced selected b" "introduced selected b = []
        \<or> (\<exists>i s1. read_identity ?os (st_child ch) s = (Inr i, s1) \<and> sn_identity os i = Inr b)" by auto
    from assms(1) i Go obtain v2 s2 where p: "start_pumps ?os request ch tracker s1 = Some (v2, s2)"
      by (auto simp: start_session_def split: bind_splits)
    note P = start_pumps_log [OF p]
    show ?thesis
    proof (cases v2)
      case (Return x)
      with assms(1) i Go p have v: "v = Return x" "s' = s2" by (simp_all add: start_session_def)
      from P Return obtain ks where ks: "isl x" "st_master ch \<noteq> None" "snd s2 = snd s1 @ ks"
        "if tracker \<noteq> None then put_down (st_child ch) ks else ks = []" by auto
      have "snd s' = snd s @ introduced selected b @ ks @ []" using v(2) ks(3) b(1) by simp
      moreover have "put_down (st_child ch) ks \<or> ks = [] \<and> isl x \<and> \<not> sel_track_descendants selected \<and> st_master ch \<noteq> None"
        using ks tracked by (simp split: if_splits)
      moreover have "x \<noteq> Inr ()" using ks(1) by auto
      ultimately show ?thesis
        using v(1) introductions_simps(2) at_most_error(1) unfolding v(1) step_result.case by blast
    next
      case pumps: (Go n)
      with assms(1) i Go p have "v = Go (session_of peer request ch n, tracker)"
        "s' = start_threads ?os request (st_child ch) (tracker \<noteq> None) stdin s2" by (simp_all add: start_session_def)
      with P pumps b tracked show ?thesis by (auto simp: start_threads_log session_threads_def)
    qed
  qed
qed

section \<open>Properties\<close>

text \<open>Without tracking, a pty whose master cannot be duplicated ends the start as it is: no signal, no
  wait, although every other failure after the spawn goes through \<open>give_up\<close>.\<close>

lemma untracked_pty_is_left:
  assumes "st_master ch = Some m" "sn_clone_pty os m w = (Inl e, w')"
  shows "start_pumps os request ch None w = Some (Return (Inl e), w')"
  using assms by (simp add: start_pumps_def Let_def)

text \<open>C4: A session fails closed: nothing runs unless the input began with a SPAWN frame, or with a
  HELLO whose every feature was advertised in the CAPABILITIES answer and then a SPAWN frame, whose
  request is valid and, where tracking was selected, after tracking was prepared; then the child is
  all there is in the log but that answer. Refused, the shim starts nothing and signals nothing: it
  writes at most the answer and one ERROR frame, and none when it ends with an I/O error.\<close>

theorem opening_fails_closed:
  assumes "open_session (recorded_session os) (supported_features (recorded_session os)) stdin (w, []) = (v, rest, (w', l))"
  shows "case v of
      Go (selected, request, prepared, ch) \<Rightarrow>
        \<exists>f evs. handshake os stdin selected (Some f) rest evs \<and> tag f = TAG_SPAWN
          \<and> sn_request os (payload f) = Inr request \<and> interrupt_ok request
          \<and> (prepared \<noteq> None \<longleftrightarrow> sel_track_descendants selected)
          \<and> l = evs @ [Running (argv request)]
    | Return x \<Rightarrow> \<exists>evs es. l = evs @ es \<and> at_most_error es \<and> (isl x \<longrightarrow> es = [])
          \<and> (evs = [] \<or> (\<exists>b. evs = [Wrote TAG_CAPABILITIES b]))"
  using open_session_log [OF assms] unfolding snd_conv append_Nil .

text \<open>C8: The child is introduced before its output: a session that starts has written SPAWNED, if it
  was selected, and TRACKED, if tracking was, both with the identity read from the child, before
  any thread is started; then the pumps, the writer of input, the reader of the rest of the
  stream, the one waiter that fits the mode and the timer are started, each once.\<close>

theorem introduced_before_output:
  assumes "open_session (recorded_session os) (supported_features (recorded_session os)) stdin (w, [])
      = (Go (selected, request, prepared, ch), rest, s)"
    and "start_session (recorded_session os) peer selected request prepared ch rest s = Some (Go (se, tracker), (w', l))"
  shows "\<exists>evs b. (evs = [] \<or> (\<exists>c. evs = [Wrote TAG_CAPABILITIES c]))
    \<and> l = evs @ [Running (argv request)] @ introduced selected b
        @ map Started (session_threads request ch (sel_track_descendants selected) rest)
    \<and> (introduced selected b = []
       \<or> (\<exists>i s1. read_identity (recorded_session os) (st_child ch) s = (Inr i, s1) \<and> sn_identity os i = Inr b))
    \<and> (tracker \<noteq> None \<longleftrightarrow> sel_track_descendants selected)
    \<and> se = session_of peer request ch (length (session_pumps request ch))"
proof -
  from open_session_log [OF assms(1)] obtain f evs where
    o: "handshake os stdin selected (Some f) rest evs" "prepared \<noteq> None \<longleftrightarrow> sel_track_descendants selected"
      "snd s = evs @ [Running (argv request)]"
    by (simp only: step_result.case prod.case snd_conv append_Nil) blast
  have "evs = [] \<or> (\<exists>c. evs = [Wrote TAG_CAPABILITIES c])" using o(1) by (auto simp: handshake_def)
  moreover obtain b where "l = snd s @ introduced selected b @ map Started (session_threads request ch (sel_track_descendants selected) rest)"
    "introduced selected b = []
       \<or> (\<exists>i s1. read_identity (recorded_session os) (st_child ch) s = (Inr i, s1) \<and> sn_identity os i = Inr b)"
    "tracker \<noteq> None \<longleftrightarrow> sel_track_descendants selected" "se = session_of peer request ch (length (session_pumps request ch))"
    using start_session_log [OF assms(2) o(2)] by (simp only: step_result.case prod.case snd_conv) blast
  ultimately show ?thesis using o(3) by (intro exI [of _ evs] exI [of _ b]) (simp only: append_assoc simp_thms)
qed

text \<open>C7: A failed start leaves no child: when the identity cannot be read or a frame that introduces
  the child cannot be written, no thread is started, and the child is waited for after its group
  was sent SIGKILL, it was seen to have exited, or it was sent SIGKILL itself; an ERROR frame
  comes after that. The one exception is a pty whose master cannot be duplicated, without
  tracking: that child is left as it is.\<close>

theorem failed_start_reaps:
  assumes "open_session (recorded_session os) (supported_features (recorded_session os)) stdin (w, [])
      = (Go (selected, request, prepared, ch), rest, s)"
    and "start_session (recorded_session os) peer selected request prepared ch rest s = Some (Return x, (w', l))"
  shows "\<exists>evs ks es. l = snd s @ evs @ ks @ es \<and> introductions evs \<and> at_most_error es
    \<and> (x = Inr () \<longrightarrow> evs = []) \<and> (isl x \<longrightarrow> es = [])
    \<and> (put_down (st_child ch) ks \<or> ks = [] \<and> isl x \<and> \<not> sel_track_descendants selected \<and> st_master ch \<noteq> None)"
proof -
  from open_session_log [OF assms(1)] have "prepared \<noteq> None \<longleftrightarrow> sel_track_descendants selected"
    by (simp only: step_result.case prod.case) blast
  from start_session_log [OF assms(2) this] show ?thesis by simp
qed

section \<open>A small system\<close>

text \<open>The processes of \<open>sample_native\<close>, a fork that returns the given id, and JSON that always parses.\<close>

definition sample_track_unit :: "unit track_os" where
  "sample_track_unit =
     \<lparr>tk_sup = \<lparr>su_proc = \<lparr>po_now = (\<lambda>w. (0, w)), po_sleep = (\<lambda>d w. w), po_kill_group = (\<lambda>g sg w. (Inr (), w)),
          po_test_group = (\<lambda>g w. (Inl ESRCH, w)), po_try_wait = (\<lambda>c w. (Inr None, w)), po_fs = nt_fs sample_native\<rparr>,
        su_close_input = (\<lambda>w. w), su_credit = (\<lambda>p op w. w), su_pump_done = (\<lambda>d w. (PumpDone, w)),
        su_peer = (\<lambda>w. (False, w)), su_write_exit = (\<lambda>rep w. w)\<rparr>,
      tk_source = native_source sample_native, tk_on_macos = False, tk_scope = tracking_scope True,
      tk_encode = (\<lambda>i. Some []), tk_try_send = (\<lambda>f w. (SentOk, w)), tk_kill_child = (\<lambda>w. w),
      tk_delivered = (\<lambda>w. (True, w))\<rparr>"

definition sample_spawn_unit :: "u32 \<Rightarrow> unit spawn_os" where
  "sample_spawn_unit child =
     \<lparr>so_display = (\<lambda>e. ''error''), so_accounts = sample_db, so_fs = nt_fs sample_native, so_pid = 2, so_sequence = 0,
      so_pty = (\<lambda>c w. (Inr 5, w)), so_channel = (\<lambda>w. (Inr [], w)), so_fork = (\<lambda>w. (Inr child, w)),
      so_child = no_chdir, so_exec = (\<lambda>a w. (None, w)), so_report_stream = (\<lambda>b. [Chunk b])\<rparr>"

definition sample_start :: "u32 \<Rightarrow> string \<Rightarrow> unit session_os" where
  "sample_start child feature =
     \<lparr>sn_track = sample_track_unit, sn_spawn = sample_spawn_unit child, sn_native = sample_native,
      sn_hello = (\<lambda>b. Inr \<lparr>features = [feature]\<rparr>), sn_request = (\<lambda>b. Inr (default_request [''true''])),
      sn_capabilities = (\<lambda>c. Inr [1]), sn_identity = (\<lambda>i. Inr [2]), sn_report = (\<lambda>r. Some [3]),
      sn_write = (\<lambda>t p w. (Inr (), w)), sn_waitid = (\<lambda>c nb w. (Inl ECHILD, w)), sn_wait = (\<lambda>c w. (Inl (Os ECHILD), w)),
      sn_kill_process = (\<lambda>c sg w. (Inr (), w)), sn_clone_pty = (\<lambda>m w. (Inl (Os EMFILE), w)), sn_start = (\<lambda>t w. w)\<rparr>"

abbreviation sample_shim :: "u32 \<Rightarrow> string \<Rightarrow> (unit \<times> startup_event list) session_os" where
  "sample_shim child feature \<equiv> recorded_session (sample_start child feature)"

lemmas sample_start_defs = sample_start_def sample_spawn_unit_def sample_track_unit_def

text \<open>HELLO, then SPAWN.\<close>

definition sample_stdin :: stream where
  "sample_stdin = [Chunk [0, 0, 0, 2, 7, 1], Chunk [0, 0, 0, 2, 1, 1]]"

lemma sample_stdin:
  "read_frame sample_stdin = (Inr (Some \<lparr>tag = TAG_HELLO, payload = [1]\<rparr>), [Chunk [0, 0, 0, 2, 1, 1]])"
  "read_frame [Chunk [0, 0, 0, 2, 1, 1]] = (Inr (Some \<lparr>tag = TAG_SPAWN, payload = [1]\<rparr>), [])"
  by (simp_all add: sample_stdin_def read_frame_def Let_def read_exact_or_eof.simps read_exact.simps MAX_FRAME_LEN_def
      new_frame_def TAG_HELLO_def TAG_SPAWN_def)

lemma read_process_lifted:
  "read_process_linux (lift_fs fs) p (w, x) = (case read_process_linux fs p w of (r, w) \<Rightarrow> (r, (w, x)))"
  by (simp add: read_process_linux_def lift_fs_def read_to_string_def Let_def split: prod.splits sum.splits option.splits)

lemma sample_process:
  "read_process_linux (nt_fs sample_native) p () =
     (case map_of sample_procs p of Some r \<Rightarrow> Inr r | None \<Rightarrow> Inl (Os ENOENT), ())"
proof (cases "map_of sample_procs p")
  case None
  then have "fs_read (nt_fs sample_native) (stat_path p) () = (Inl (Os ENOENT), ())"
    by (auto simp: sample_native_def sample_files_stat sample_procs_def split: if_splits)
  with None show ?thesis by (simp add: read_process_linux_def stat_path_def)
next
  case (Some r)
  obtain b where b: "read_to_string (nt_fs sample_native) ''/proc/sys/kernel/random/boot_id'' () = (Inr b, ())"
    "trim_str b \<noteq> []" "stat_shows sample_native () (trim_str b) p r"
    using sample_proc_shows Some unfolding proc_shows_def by blast
  have "native_read sample_native p () = (Inr (Some r), ())"
    by (rule native_read_shows [OF b(3,2,1) refl])
  with Some show ?thesis
    by (auto simp: native_read_def split: prod.splits sum.splits if_splits)
qed

text \<open>With an unknown feature the session is refused, with one ERROR frame.\<close>

lemma sample_identity_read:
  "read_identity (sample_shim c feature) p ((), l) =
     (case map_of sample_procs p of Some r \<Rightarrow> Inr (identity r) | None \<Rightarrow> Inl (Os ENOENT), ((), l))"
  by (simp add: read_identity_def identity_read_def recorded_session_def lift_native_def sample_start_def
      read_process_lifted sample_process split: option.splits)

lemma sample_features:
  "\<exists>extra. set extra \<subseteq> {''track_descendants_v1''}
     \<and> supported_features (sample_shim c feature) ((), []) = (BASE_FEATURES @ [''spawn_identity_v1''] @ extra, ((), []))"
proof -
  have p: "nt_pid (sn_native (sample_shim c feature)) = 2" "map_of sample_procs 2 = Some (sample_proc 2 1)"
    by (simp_all add: recorded_session_def lift_native_def sample_start_def sample_native_def sample_procs_def)
  obtain fs s where fs: "supported_features (sample_shim c feature) ((), []) = (fs, s)" by (metis prod.collapse)
  have "s = ((), [])" using supported_features_log [OF fs] by (cases s) simp
  with fs p show ?thesis
    by (auto simp: supported_features_def supported_features_with_probe_def sample_identity_read Let_def
        split: prod.splits if_splits)
qed

lemma sample_open:
  "\<exists>s. open_session (sample_shim c ''spawn_identity_v1'') (supported_features (sample_shim c ''spawn_identity_v1'')) sample_stdin ((), [])
     = (Go (\<lparr>sel_spawn_identity = True, sel_structured_spawn_errors = False, sel_track_descendants = False\<rparr>,
          default_request [''true''], None, \<lparr>st_child = c, st_master = None, st_cgroup = None\<rparr>), [], s)"
proof -
  let ?os = "sample_shim c ''spawn_identity_v1''"
  obtain extra where fs: "supported_features ?os ((), []) = (BASE_FEATURES @ [''spawn_identity_v1''] @ extra, ((), []))"
    using sample_features by blast
  have n: "negotiate ?os (supported_features ?os) sample_stdin ((), []) =
      (Go (\<lparr>sel_spawn_identity = True, sel_structured_spawn_errors = False, sel_track_descendants = False\<rparr>,
          Some \<lparr>tag = TAG_SPAWN, payload = [1]\<rparr>), [], ((), [Wrote TAG_CAPABILITIES [1]]))"
    by (simp add: negotiate_def sample_stdin fs select_features_def) (simp add: recorded_session_def sample_start_def noting_def sample_stdin)
  have a: "accept_request ?os (Some \<lparr>tag = TAG_SPAWN, payload = [1]\<rparr>) s = (Go (default_request [''true'']), s)" for s
    by (simp add: accept_request_def sample_start_def interrupt_ok_def default_request_def)
  have "\<exists>s'. spawn_child (sn_spawn ?os) (default_request [''true'']) False ((), l) = (Inr (c, None, None), s')" for l
    by (simp add: spawn_child_def default_request_def resolve_def select_cgroup_def spawn_prepared_def finish_spawn_def
        command_spawn_def saw_nul_def has_nul_def build_command_def child_cwd_def window_size_def setup_apply_def setup_check_def checked_def
        recorded_session_def log_spawn_def lift_spawn_def sample_start_defs noting_def Let_def)
  with n a show ?thesis by (simp add: open_session_def prepare_tracking_def) (metis case_prod_conv sum.case(2))
qed

abbreviation sample_selected :: selected_features where
  "sample_selected \<equiv> \<lparr>sel_spawn_identity = True, sel_structured_spawn_errors = False, sel_track_descendants = False\<rparr>"

abbreviation sample_child :: "u32 \<Rightarrow> started" where
  "sample_child c \<equiv> \<lparr>st_child = c, st_master = None, st_cgroup = None\<rparr>"

theorem opening_fails_closed_witness:
  "\<exists>f evs s. open_session (sample_shim 3 ''spawn_identity_v1'') (supported_features (sample_shim 3 ''spawn_identity_v1''))
        sample_stdin ((), []) = (Go (sample_selected, default_request [''true''], None, sample_child 3), [], s)
    \<and> handshake (sample_start 3 ''spawn_identity_v1'') sample_stdin sample_selected (Some f) [] evs
    \<and> snd s = evs @ [Running [''true'']]"
proof -
  obtain w l where o: "open_session (sample_shim 3 ''spawn_identity_v1'') (supported_features (sample_shim 3 ''spawn_identity_v1''))
        sample_stdin ((), []) = (Go (sample_selected, default_request [''true''], None, sample_child 3), [], (w, l))"
    using sample_open [of 3] by (metis prod.collapse)
  have argv: "argv (default_request [''true'']) = [''true'']" by (simp add: default_request_def)
  from opening_fails_closed [OF o] show ?thesis
    unfolding step_result.case prod.case argv o by force
qed

lemma unit_state: "\<exists>b. s = ((), b)" for s :: "unit \<times> 'a"
  by (cases s) simp

lemma sample_started:
  "\<exists>x s'. start_session (sample_shim 3 ''spawn_identity_v1'') True sample_selected (default_request [''true'']) None
      (sample_child 3) [] ((), l) = Some (Go x, s')"
proof -
  let ?os = "sample_shim 3 ''spawn_identity_v1''"
  have i: "identify_child ?os sample_selected (default_request [''true'']) None (sample_child 3) ((), l)
      = Some (Go None, ((), l @ [Wrote TAG_SPAWNED [2]]))"
    by (simp add: identify_child_def sample_identity_read sample_procs_def announce_def)
       (simp add: recorded_session_def sample_start_def noting_def)
  show ?thesis by (simp add: start_session_def i start_pumps_def Let_def unit_state)
qed

theorem introduced_before_output_witness:
  "\<exists>s evs b tr se l.
     start_session (sample_shim 3 ''spawn_identity_v1'') True sample_selected (default_request [''true'']) None
        (sample_child 3) [] s = Some (Go (se, tr), ((), l))
   \<and> l = evs @ [Running [''true''], Wrote TAG_SPAWNED b] @ map Started (session_threads (default_request [''true'']) (sample_child 3) False [])"
proof -
  obtain s where o: "open_session (sample_shim 3 ''spawn_identity_v1'') (supported_features (sample_shim 3 ''spawn_identity_v1''))
        sample_stdin ((), []) = (Go (sample_selected, default_request [''true''], None, sample_child 3), [], s)"
    using sample_open [of 3] by blast
  obtain x s' where "start_session (sample_shim 3 ''spawn_identity_v1'') True sample_selected (default_request [''true'']) None
      (sample_child 3) [] s = Some (Go x, s')"
    using sample_started [of "snd s"] by (cases s) auto
  then obtain se tr l where st: "start_session (sample_shim 3 ''spawn_identity_v1'') True sample_selected (default_request [''true'']) None
      (sample_child 3) [] s = Some (Go (se, tr), ((), l))"
    by (cases x; cases s') auto
  have argv: "argv (default_request [''true'']) = [''true'']" by (simp add: default_request_def)
  from introduced_before_output [OF o st] obtain evs b where
    "l = evs @ [Running [''true'']] @ introduced sample_selected b
       @ map Started (session_threads (default_request [''true'']) (sample_child 3) False [])"
    by (auto simp: argv)
  moreover have "introduced sample_selected b = [Wrote TAG_SPAWNED b]" by (simp add: introduced_def)
  ultimately have "l = evs @ [Running [''true''], Wrote TAG_SPAWNED b]
      @ map Started (session_threads (default_request [''true'']) (sample_child 3) False [])" by simp
  with st show ?thesis by blast
qed

text \<open>A child that is gone before its identity is read.\<close>

lemma sample_refused:
  "\<exists>s'. start_session (sample_shim 9 ''spawn_identity_v1'') True sample_selected (default_request [''true'']) None
      (sample_child 9) [] ((), l) = Some (Return (Inr ()), s')"
proof -
  let ?os = "sample_shim 9 ''spawn_identity_v1''"
  have "map_of sample_procs 9 = None" by (simp add: sample_procs_def)
  then have "\<exists>s'. identify_child ?os sample_selected (default_request [''true'']) None (sample_child 9) ((), l)
      = Some (Return (Inr ()), s')"
    by (simp add: identify_child_def sample_identity_read give_up_def abort_startup_def abort_spawn_def reap_and_finish_def
        teardown_cgroup_def unit_state)
  then show ?thesis by (auto simp: start_session_def)
qed

theorem failed_start_reaps_witness:
  "\<exists>s ks es l.
     start_session (sample_shim 9 ''spawn_identity_v1'') True sample_selected (default_request [''true'']) None
        (sample_child 9) [] s = Some (Return (Inr ()), ((), l))
   \<and> l = snd s @ ks @ es \<and> put_down 9 ks \<and> at_most_error es"
proof -
  obtain s where o: "open_session (sample_shim 9 ''spawn_identity_v1'') (supported_features (sample_shim 9 ''spawn_identity_v1''))
        sample_stdin ((), []) = (Go (sample_selected, default_request [''true''], None, sample_child 9), [], s)"
    using sample_open [of 9] by blast
  obtain l where st: "start_session (sample_shim 9 ''spawn_identity_v1'') True sample_selected (default_request [''true'']) None
      (sample_child 9) [] s = Some (Return (Inr ()), ((), l))"
    using sample_refused [of "snd s"] by (cases s) auto
  from failed_start_reaps [OF o st] obtain ks es where "l = snd s @ ks @ es" "put_down 9 ks" "at_most_error es"
    by auto
  with st show ?thesis by blast
qed

end
