(* ===== verification/StartupReturns.thy ===== *)
theory StartupReturns
  imports Startup
begin

text \<open>
  The start of a session returns, whatever fails in it: the loop that gives up a tracked child ends
  with the deadline of its cleanup. The statement is about a system with a clock of its own, which
  sleeping advances; what it needs of the kernel is that \<open>waitid\<close> with \<open>WNOHANG\<close> is not interrupted.
\<close>

section \<open>A system with a clock\<close>

definition timed_session :: "'w session_os \<Rightarrow> ('w \<times> nat) session_os" where
  "timed_session os =
     \<lparr>sn_track = lift_track (timed_proc (sn_proc os)) (sn_track os), sn_spawn = lift_spawn (sn_spawn os),
      sn_native = lift_native (sn_native os), sn_hello = sn_hello os, sn_request = sn_request os,
      sn_capabilities = sn_capabilities os, sn_identity = sn_identity os, sn_report = sn_report os,
      sn_write = (\<lambda>t p. on_fst (sn_write os t p)), sn_waitid = (\<lambda>c nb. on_fst (sn_waitid os c nb)),
      sn_wait = (\<lambda>c. on_fst (sn_wait os c)), sn_kill_process = (\<lambda>c sg. on_fst (sn_kill_process os c sg)),
      sn_clone_pty = (\<lambda>m. on_fst (sn_clone_pty os m)), sn_start = (\<lambda>t (w, x). (sn_start os t w, x))\<rparr>"

lemma timed_parts [simp]: "sn_proc (timed_session os) = timed_proc (sn_proc os)" "sn_macos (timed_session os) = sn_macos os"
  by (simp_all add: timed_session_def lift_track_def)

interpretation timed_source: source_world "sn_source (timed_session os)" "\<lambda>s. snd s = t" for os :: "'w session_os" and t
  by unfold_locales (auto simp: timed_session_def lift_track_def lift_source_def Let_def split: prod.splits)

interpretation cleanup_fixed: scan_ops src "\<lambda>tr. cleanup tr = c" for src :: "'s source" and c
  by unfold_locales (auto simp: tr_calls fail_def add_process_def remove_process_def track_group_def Let_def split: prod.splits)

interpretation keyed: tracker_ops src "\<lambda>tr. hm_ok (groups tr)" on_macos UNIV for src :: "'s source" and on_macos
proof unfold_locales
  fix tr :: "'s tracker" and expected grp sg assume "hm_ok (groups tr)"
  then show "hm_ok (groups (snd (send_checked src on_macos expected grp sg tr)))"
    using book_send_checked [of src on_macos expected grp sg tr] bookD(2) by (metis prod.collapse)
qed (auto simp: tr_calls fail_def add_process_def remove_process_def set_member_def set_group_def track_group_def
    hm.inv_ins hm.inv_rem hm.inv_ret Let_def split: prod.splits)

definition never_interrupted :: "'w session_os \<Rightarrow> bool" where
  "never_interrupted os \<longleftrightarrow> (\<forall>c w. fst (sn_waitid os c True w) \<noteq> Inl EINTR)"

lemma peek_returns:
  assumes "never_interrupted os"
  shows "\<exists>r s'. peek_child_exit (timed_session os) c True s = Some (r, s') \<and> snd s' = snd s"
proof -
  obtain r w where r: "sn_waitid os c True (fst s) = (r, w)" by force
  then have run: "sn_waitid (timed_session os) c True s = (r, (w, snd s))" by (cases s) (simp add: timed_session_def)
  have "r \<noteq> Inl EINTR" using assms r unfolding never_interrupted_def by (metis fst_conv)
  then have "kind (Os e) \<noteq> Interrupted" if "r = Inl e" for e
    using that by (auto simp: decode_error_kind_def)
  then show ?thesis using run
    by (subst peek_child_exit.simps) (cases r; simp)
qed

section \<open>The loop that gives up\<close>

lemma abort_pass_step:
  assumes "cleanup tr = Some k" "hm_ok (groups tr)" "abort_pass (timed_session os) tr = (fin, tr')"
  shows "hm_ok (groups tr') \<and> snd (world tr') = snd (world tr) \<and> (cl_deadline k \<le> snd (world tr) \<longrightarrow> fin)
    \<and> (\<exists>k'. cleanup tr' = Some k' \<and> cl_deadline k' = cl_deadline k)"
proof -
  let ?src = "sn_source (timed_session os)"
  define t where "t = scan ?src tr"
  have t: "snd (world t) = snd (world tr)" "cleanup t = Some k" "hm_ok (groups t)"
    unfolding t_def using assms(1,2) by (auto intro: timed_source.tracked.scan_inv cleanup_fixed.scan_inv keyed.scan_inv)
  have now: "po_now (sn_proc (timed_session os)) (world t) = (snd (world tr), world t)"
    using t(1) by (cases "world t") (simp add: timed_proc_def)
  obtain pr t2 where a: "advance ?src (sn_macos os) (snd (world tr)) t = (pr, t2)" by (metis prod.collapse)
  from assms(3) now a have r: "fin = done_now pr" "tr' = t2"
    by (simp_all add: abort_pass_def t_def [symmetric] Let_def)
  have "snd (world t2) = snd (world t)" "hm_ok (groups t2)"
    using timed_source.tracked.advance_inv [of t "snd (world t)" os "sn_macos os" "snd (world tr)"]
      keyed.advance_inv [of t ?src "sn_macos os" "snd (world tr)"] t(3) a by simp_all
  with advance_result [OF t(2,3) a] t(1) r show ?thesis by auto
qed

lemma abort_loop_returns:
  assumes "never_interrupted os" "cleanup tr = Some k" "hm_ok (groups tr)"
  shows "\<exists>tr'. abort_loop (timed_session os) c tr = Some tr'"
  using assms(2,3)
proof (induction "cl_deadline k - snd (world tr)" arbitrary: tr k rule: less_induct)
  case less
  let ?os = "timed_session os"
  obtain r s1 where p: "peek_child_exit ?os c True (world tr) = Some (r, s1)" "snd s1 = snd (world tr)"
    using peek_returns [OF assms(1)] by metis
  obtain fin t2 where pass: "abort_pass ?os (tr\<lparr>world := s1\<rparr>) = (fin, t2)" by (metis prod.collapse)
  from abort_pass_step [OF _ _ pass] less.prems p(2) obtain k' where k': "hm_ok (groups t2)" "snd (world t2) = snd (world tr)"
    "cl_deadline k \<le> snd (world tr) \<longrightarrow> fin" "cleanup t2 = Some k'" "cl_deadline k' = cl_deadline k" by auto
  show ?case
  proof (cases fin)
    case True
    with p pass show ?thesis by (subst abort_loop.simps) simp
  next
    case False
    let ?t3 = "tr_on (po_sleep (sn_proc ?os) SAMPLE_INTERVAL) t2"
    have "snd (world ?t3) = snd (world tr) + 50"
      using k'(2) by (cases "world t2") (simp add: tr_on_def timed_proc_def SAMPLE_INTERVAL_def)
    then have "\<exists>tr'. abort_loop ?os c ?t3 = Some tr'"
      using False k' by (intro less.hyps [of k']) (auto simp: tr_on_def)
    with False p pass show ?thesis by (subst abort_loop.simps) simp
  qed
qed

lemma reap_returns: "\<exists>w'. reap_and_finish (timed_session os) c cg grace w = Some w'"
proof (cases cg)
  case (Some g)
  obtain b w' where "finish_cgroup (timed_proc (sn_proc os)) g grace (snd (sn_wait (timed_session os) c w)) = Some (b, w')"
    using timed_proc.finish_cgroup_returns by blast
  with Some show ?thesis by (simp add: reap_and_finish_def teardown_cgroup_def)
qed (simp add: reap_and_finish_def teardown_cgroup_def)

lemma abort_startup_returns:
  assumes "never_interrupted os" "\<And>tr. tracker = Some tr \<Longrightarrow> hm_ok (groups tr)"
  shows "\<exists>w'. abort_startup (timed_session os) c cg grace interrupt tracker w = Some w'"
proof (cases tracker)
  case None
  then show ?thesis using reap_returns by (simp add: abort_startup_def abort_spawn_def)
next
  case (Some tr)
  let ?t = "abort_start (timed_session os) c grace interrupt (tr\<lparr>world := w\<rparr>)"
  have ok: "hm_ok (groups (scan src (tr\<lparr>world := w\<rparr>)))" for src
    using assms(2) [OF Some] by (intro keyed.scan_inv) simp
  have "hm_ok (groups ?t)" "cleanup ?t \<noteq> None"
    using ok by (auto simp: abort_start_def begin_cleanup_def tr_on_def Let_def split: prod.splits)
  then obtain t2 where "abort_loop (timed_session os) c ?t = Some t2"
    using abort_loop_returns [OF assms(1)] by blast
  with Some reap_returns show ?thesis by (simp add: abort_startup_def)
qed

section \<open>Property\<close>

text \<open>The trackers a session starts with hold each group once.\<close>

lemma new_tracker_groups:
  "hm_ok (groups (tracker_empty w b sh p))" "hm_ok (groups (with_source w b sh i))"
  by (simp_all add: tracker_empty_def with_source_def Let_def hm_ok_def)

lemma announce_groups:
  assumes "announce os selected i tracker w = (r, tracker', w')" "\<And>tr. tracker = Some tr \<Longrightarrow> hm_ok (groups tr)"
  shows "\<And>tr. tracker' = Some tr \<Longrightarrow> hm_ok (groups tr)"
  using assms by (auto simp: announce_def take_new_groups_def split: sum.splits prod.splits option.splits if_splits)



end
