(* ===== verification/ChildInput.thy ===== *)
theory ChildInput
  imports Supervise
begin

text \<open>
  The way of input to the child, \<open>spawn_stdin_reader\<close> and \<open>ChildInput\<close> of
  \<open>native/forcola_shim/src/supervisor.rs\<close>: the thread that reads protocol frames, the channel it puts
  the payloads of STDIN frames into, the thread that writes them to the child, and the flag
  that ends it, as steps of the two threads and of the event loop in any order. What the reader
  finds on the protocol input is a list of frames and the error it ends with, if any, as
  \<open>read_frame\<close> delivers them. The event loop keeps its end of the channel of events as long as the
  reader runs.
\<close>

section \<open>State\<close>

datatype reader_pc = ReadFrame | Sending bytes | ReaderGone

datatype writer_pc = WaitInput | Writing bytes | WriterGone

text \<open>\<open>in_seen\<close> and \<open>in_torn\<close> are there for the proofs: the frames read so far, and that the writer
  was never there or stopped at a failed write.\<close>

record input_state =
  in_frames :: "frame list"
  in_end :: "io_error option"
  in_reader :: reader_pc
  in_events :: "event list"
  in_sender :: bool
  in_queue :: "bytes list"
  in_writer :: writer_pc
  in_closed :: bool
  in_out :: bytes
  in_seen :: "frame list"
  in_torn :: bool

text \<open>\<open>ChildInput::new\<close>, with or without a pipe to the child.\<close>

definition input_new :: "bool \<Rightarrow> frame list \<Rightarrow> io_error option \<Rightarrow> input_state" where
  "input_new piped fs e =
     \<lparr>in_frames = fs, in_end = e, in_reader = ReadFrame, in_events = [], in_sender = piped, in_queue = [],
      in_writer = (if piped then WaitInput else WriterGone), in_closed = False, in_out = [], in_seen = [],
      in_torn = (\<not> piped)\<rparr>"

section \<open>The reader\<close>

text \<open>\<open>ChildInputSender::send\<close> up to the send on the channel, and its \<open>finish\<close>.\<close>

definition begin_send :: "bytes \<Rightarrow> input_state \<Rightarrow> input_state" where
  "begin_send bs s =
     (let s = (if in_closed s then s\<lparr>in_sender := False\<rparr> else s) in
      if in_sender s then s\<lparr>in_reader := Sending bs\<rparr> else s)"

definition finish_input :: "input_state \<Rightarrow> input_state" where
  "finish_input s = s\<lparr>in_sender := False\<rparr>"

text \<open>\<open>InputQueue::send\<close>: the channel holds one payload when it is bounded; a send without a
  receiver fails. \<open>None\<close> is waiting for space.\<close>

definition queue_send :: "bool \<Rightarrow> bytes \<Rightarrow> input_state \<Rightarrow> input_state option" where
  "queue_send bounded bs s =
     (if in_writer s = WriterGone then Some (s\<lparr>in_sender := False, in_reader := ReadFrame\<rparr>)
      else if bounded \<and> 1 \<le> length (in_queue s) then None
      else Some (s\<lparr>in_queue := in_queue s @ [bs], in_reader := ReadFrame\<rparr>))"

definition reader_frame :: "frame \<Rightarrow> input_state \<Rightarrow> input_state" where
  "reader_frame f s =
     (if tag f = TAG_STDIN then begin_send (payload f) s
      else if tag f = TAG_EOF then finish_input s
      else s\<lparr>in_events := in_events s @ [StdinFrame f]\<rparr>)"

definition end_event :: "io_error option \<Rightarrow> event" where
  "end_event e = (case e of None \<Rightarrow> StdinClosed | Some e \<Rightarrow> StdinError e)"

definition reader_next :: "bool \<Rightarrow> input_state \<Rightarrow> input_state option" where
  "reader_next bounded s =
     (case in_reader s of
        ReaderGone \<Rightarrow> None
      | Sending bs \<Rightarrow> queue_send bounded bs s
      | ReadFrame \<Rightarrow>
          (case in_frames s of
             [] \<Rightarrow> Some (s\<lparr>in_reader := ReaderGone, in_sender := False, in_events := in_events s @ [end_event (in_end s)]\<rparr>)
           | f # fs \<Rightarrow> Some (reader_frame f (s\<lparr>in_frames := fs, in_seen := in_seen s @ [f]\<rparr>))))"

section \<open>The writer\<close>

text \<open>A call of \<open>write_all\<close> succeeds, or fails after some of the bytes; its receiver and the pipe to
  the child go with the thread.\<close>

fun writer_next :: "nat option \<Rightarrow> input_state \<Rightarrow> input_state option" where
  "writer_next failed s =
     (case in_writer s of
        WriterGone \<Rightarrow> None
      | WaitInput \<Rightarrow>
          (case in_queue s of
             [] \<Rightarrow> if in_sender s then None else Some (s\<lparr>in_writer := WriterGone\<rparr>)
           | bs # q \<Rightarrow> if in_closed s then Some (s\<lparr>in_writer := WriterGone, in_queue := []\<rparr>)
                      else Some (s\<lparr>in_writer := Writing bs, in_queue := q\<rparr>))
      | Writing bs \<Rightarrow>
          (case failed of
             None \<Rightarrow> Some (s\<lparr>in_writer := WaitInput, in_out := in_out s @ bs\<rparr>)
           | Some n \<Rightarrow> Some (s\<lparr>in_writer := WriterGone, in_queue := [], in_out := in_out s @ take n bs, in_torn := True\<rparr>)))"

text \<open>\<open>ChildInput::close\<close>, by the event loop.\<close>

definition close_input :: "input_state \<Rightarrow> input_state" where
  "close_input s = s\<lparr>in_closed := True\<rparr>"

section \<open>Interleavings\<close>

inductive input_step :: "bool \<Rightarrow> input_state \<Rightarrow> input_state \<Rightarrow> bool" for bounded where
  reader: "reader_next bounded s = Some t \<Longrightarrow> input_step bounded s t"
| writer: "writer_next failed s = Some t \<Longrightarrow> input_step bounded s t"
| loop: "input_step bounded s (close_input s)"

inductive input_reach :: "bool \<Rightarrow> input_state \<Rightarrow> input_state \<Rightarrow> bool" for bounded where
  refl: "input_reach bounded s s"
| step: "input_reach bounded s t \<Longrightarrow> input_step bounded t u \<Longrightarrow> input_reach bounded s u"

inductive_cases input_stepE: "input_step bounded s t"

section \<open>What is in flight\<close>

text \<open>The payloads meant for the child: those before an EOF frame.\<close>

definition before_eof :: "frame list \<Rightarrow> frame list" where
  "before_eof fs = takeWhile (\<lambda>f. tag f \<noteq> TAG_EOF) fs"

definition stdin_of :: "frame list \<Rightarrow> bytes" where
  "stdin_of fs = concat (map payload (filter (\<lambda>f. tag f = TAG_STDIN) (before_eof fs)))"

definition control :: "frame \<Rightarrow> bool" where
  "control f \<longleftrightarrow> tag f \<noteq> TAG_STDIN \<and> tag f \<noteq> TAG_EOF"

fun hand :: "writer_pc \<Rightarrow> bytes" where
  "hand (Writing bs) = bs"
| "hand _ = []"

fun sending :: "reader_pc \<Rightarrow> bytes" where
  "sending (Sending bs) = bs"
| "sending _ = []"

lemma before_eof_snoc:
  "before_eof (fs @ [f]) = (if \<exists>g\<in>set fs. tag g = TAG_EOF then before_eof fs
     else if tag f = TAG_EOF then fs else fs @ [f])"
  by (induction fs) (auto simp: before_eof_def)

lemma before_eof_all: "\<forall>g\<in>set fs. tag g \<noteq> TAG_EOF \<Longrightarrow> before_eof fs = fs"
  by (induction fs) (auto simp: before_eof_def)

lemma stdin_of_snoc:
  "stdin_of (fs @ [f]) = stdin_of fs @ (if (\<forall>g\<in>set fs. tag g \<noteq> TAG_EOF) \<and> tag f = TAG_STDIN then payload f else [])"
proof (cases "\<exists>g\<in>set fs. tag g = TAG_EOF")
  case False
  have "TAG_STDIN \<noteq> TAG_EOF" by (simp add: inbound_tag_defs)
  with False before_eof_all [of fs] show ?thesis by (auto simp: stdin_of_def before_eof_snoc)
qed (auto simp: stdin_of_def before_eof_snoc)

text \<open>Every byte for the child is written, in the writer's hand, queued, about to be queued, or lost
  after input was closed or the child stopped taking it.\<close>

definition in_flight :: "input_state \<Rightarrow> bytes" where
  "in_flight s = (if in_writer s = WriterGone then [] else hand (in_writer s) @ concat (in_queue s) @ sending (in_reader s))"

definition accounted :: "input_state \<Rightarrow> bool" where
  "accounted s \<longleftrightarrow> (\<exists>lost. stdin_of (in_seen s) = in_out s @ in_flight s @ lost
     \<and> (lost \<noteq> [] \<longrightarrow> (in_closed s \<or> in_torn s) \<and> (in_writer s = WriterGone \<or> \<not> in_sender s)))"

definition ends_ok :: "input_state \<Rightarrow> bool" where
  "ends_ok s \<longleftrightarrow>
     (in_sender s \<longrightarrow> (\<forall>f\<in>set (in_seen s). tag f \<noteq> TAG_EOF) \<and> in_reader s \<noteq> ReaderGone)
     \<and> ((\<exists>bs. in_reader s = Sending bs) \<longrightarrow> in_sender s)
     \<and> (in_writer s = WriterGone \<longrightarrow> in_queue s = [] \<and> (in_sender s \<longrightarrow> in_closed s \<or> in_torn s))
     \<and> (\<not> in_sender s \<and> \<not> in_closed s \<and> \<not> in_torn s \<longrightarrow>
          in_reader s = ReaderGone \<or> (\<exists>f\<in>set (in_seen s). tag f = TAG_EOF))"

definition input_inv :: "input_state \<Rightarrow> bool" where
  "input_inv s \<longleftrightarrow> accounted s \<and> ends_ok s"

lemma sending_Nil: "ends_ok s \<Longrightarrow> \<not> in_sender s \<Longrightarrow> sending (in_reader s) = []"
  by (cases "in_reader s") (auto simp: ends_ok_def)

lemma input_inv_writer: "input_inv s \<Longrightarrow> writer_next failed s = Some t \<Longrightarrow> input_inv t"
proof -
  assume inv: "input_inv s" and w: "writer_next failed s = Some t"
  from inv have e: "ends_ok s" by (simp add: input_inv_def)
  from inv obtain lost where l: "stdin_of (in_seen s) = in_out s @ in_flight s @ lost"
    "lost \<noteq> [] \<longrightarrow> (in_closed s \<or> in_torn s) \<and> (in_writer s = WriterGone \<or> \<not> in_sender s)"
    by (auto simp: input_inv_def accounted_def)
  consider (ended) "in_writer s = WaitInput" "in_queue s = []" "\<not> in_sender s" "t = s\<lparr>in_writer := WriterGone\<rparr>"
    | (discard) "in_writer s = WaitInput" "in_closed s" "t = s\<lparr>in_writer := WriterGone, in_queue := []\<rparr>"
    | (take) bs q where "in_writer s = WaitInput" "in_queue s = bs # q" "t = s\<lparr>in_writer := Writing bs, in_queue := q\<rparr>"
    | (put) bs where "in_writer s = Writing bs" "t = s\<lparr>in_writer := WaitInput, in_out := in_out s @ bs\<rparr>"
    | (torn) bs n where "in_writer s = Writing bs"
        "t = s\<lparr>in_writer := WriterGone, in_queue := [], in_out := in_out s @ take n bs, in_torn := True\<rparr>"
  proof (cases "in_writer s")
    case WaitInput
    show thesis
    proof (cases "in_queue s")
      case Nil
      with WaitInput w have "\<not> in_sender s" "t = s\<lparr>in_writer := WriterGone\<rparr>" by (auto split: if_splits)
      with that(1) WaitInput Nil show thesis by blast
    next
      case (Cons bs q)
      with WaitInput w have "t = (if in_closed s then s\<lparr>in_writer := WriterGone, in_queue := []\<rparr>
          else s\<lparr>in_writer := Writing bs, in_queue := q\<rparr>)" by (auto split: if_splits)
      with that(2,3) WaitInput Cons show thesis by metis
    qed
  next
    case (Writing bs)
    with w that(4,5) show thesis by (cases failed) auto
  qed (use w in simp)
  then have "accounted t \<and> ends_ok t"
  proof cases
    case ended
    with e l show ?thesis using sending_Nil [OF e] by (auto simp: accounted_def in_flight_def ends_ok_def)
  next
    case discard
    have "accounted t" unfolding accounted_def
      by (rule exI [of _ "in_flight s @ lost"]) (use l discard in \<open>simp add: in_flight_def\<close>)
    with e discard show ?thesis by (auto simp: ends_ok_def)
  next
    case (take bs q)
    with e l show ?thesis by (auto simp: accounted_def in_flight_def ends_ok_def)
  next
    case (put bs)
    with e l show ?thesis by (auto simp: accounted_def in_flight_def ends_ok_def)
  next
    case (torn bs n)
    have "accounted t" unfolding accounted_def
      by (rule exI [of _ "drop n bs @ concat (in_queue s) @ sending (in_reader s) @ lost"])
         (use l torn in \<open>simp add: in_flight_def\<close>)
    with e torn show ?thesis by (auto simp: ends_ok_def)
  qed
  then show ?thesis by (simp add: input_inv_def)
qed

lemma input_inv_reader: "input_inv s \<Longrightarrow> reader_next bounded s = Some t \<Longrightarrow> input_inv t"
proof -
  assume inv: "input_inv s" and r: "reader_next bounded s = Some t"
  from inv have e: "ends_ok s" by (simp add: input_inv_def)
  from inv obtain lost where l: "stdin_of (in_seen s) = in_out s @ in_flight s @ lost"
    "lost \<noteq> [] \<longrightarrow> (in_closed s \<or> in_torn s) \<and> (in_writer s = WriterGone \<or> \<not> in_sender s)"
    by (auto simp: input_inv_def accounted_def)
  show ?thesis
  proof (cases "in_reader s")
    case ReaderGone
    with r show ?thesis by (simp add: reader_next_def)
  next
    case (Sending bs)
    with r have q: "queue_send bounded bs s = Some t" by (simp add: reader_next_def)
    have snd: "in_sender s" using e Sending by (simp add: ends_ok_def)
    show ?thesis
    proof (cases "in_writer s = WriterGone")
      case True
      with q have t: "t = s\<lparr>in_sender := False, in_reader := ReadFrame\<rparr>" by (simp add: queue_send_def)
      with e l snd True show ?thesis by (auto simp: input_inv_def accounted_def in_flight_def ends_ok_def)
    next
      case False
      with q have t: "t = s\<lparr>in_queue := in_queue s @ [bs], in_reader := ReadFrame\<rparr>"
        by (simp add: queue_send_def split: if_splits)
      have "in_flight t = in_flight s" using False Sending by (simp add: t in_flight_def)
      with e l snd False Sending show ?thesis
        by (auto simp: input_inv_def accounted_def ends_ok_def t)
    qed
  next
    case ReadFrame
    show ?thesis
    proof (cases "in_frames s")
      case Nil
      with ReadFrame r have t: "t = s\<lparr>in_reader := ReaderGone, in_sender := False,
        in_events := in_events s @ [end_event (in_end s)]\<rparr>" by (simp add: reader_next_def)
      have "in_flight t = in_flight s" by (simp add: t in_flight_def ReadFrame)
      with e l show ?thesis by (auto simp: input_inv_def accounted_def ends_ok_def t)
    next
      case (Cons f fs)
      let ?s = "s\<lparr>in_frames := fs, in_seen := in_seen s @ [f]\<rparr>"
      from Cons ReadFrame r have t: "t = reader_frame f ?s" by (simp add: reader_next_def)
      have fl: "in_flight s = (if in_writer s = WriterGone then [] else hand (in_writer s) @ concat (in_queue s))"
        by (simp add: in_flight_def ReadFrame)
      consider (stdin) "tag f = TAG_STDIN" | (eof) "tag f = TAG_EOF" | (other) "control f" by (auto simp: control_def)
      then show ?thesis
      proof cases
        case stdin
        have neof: "tag f \<noteq> TAG_EOF" using stdin by (simp add: inbound_tag_defs)
        show ?thesis
        proof (cases "in_sender s \<and> \<not> in_closed s")
          case True
          with stdin t have t: "t = ?s\<lparr>in_reader := Sending (payload f)\<rparr>"
            by (simp add: reader_frame_def begin_send_def)
          have "\<forall>g\<in>set (in_seen s). tag g \<noteq> TAG_EOF" using e True by (simp add: ends_ok_def)
          then have "stdin_of (in_seen t) = stdin_of (in_seen s) @ payload f"
            using stdin by (simp add: t stdin_of_snoc)
          moreover have "accounted t"
          proof (cases "in_writer s = WriterGone")
            case True
            with e \<open>in_sender s \<and> \<not> in_closed s\<close> have "in_torn s" by (simp add: ends_ok_def)
            with calculation l(1) True show ?thesis by (simp add: accounted_def in_flight_def t)
          next
            case False
            with l True have "lost = []" by auto
            with calculation l(1) False fl show ?thesis by (simp add: accounted_def in_flight_def t)
          qed
          ultimately show ?thesis using e True neof by (auto simp: input_inv_def ends_ok_def t)
        next
          case False
          with stdin t have t: "t = ?s\<lparr>in_sender := False\<rparr>"
            by (auto simp: reader_frame_def begin_send_def)
          have fl': "in_flight t = in_flight s" by (simp add: t in_flight_def)
          have c: "in_closed s \<or> in_torn s \<or> (\<exists>g\<in>set (in_seen s). tag g = TAG_EOF)"
            using e False ReadFrame by (auto simp: ends_ok_def)
          define more where "more = (if \<forall>g\<in>set (in_seen s). tag g \<noteq> TAG_EOF then payload f else [])"
          have "stdin_of (in_seen t) = in_out t @ in_flight s @ (lost @ more)"
            using l(1) stdin by (simp add: t stdin_of_snoc more_def)
          then have "stdin_of (in_seen t) = in_out t @ in_flight t @ (lost @ more)" by (simp only: fl')
          moreover have "lost @ more \<noteq> [] \<longrightarrow> in_closed t \<or> in_torn t"
            using l(2) c by (auto simp: more_def t)
          ultimately have "accounted t" unfolding accounted_def by (intro exI [of _ "lost @ more"]) (simp add: t)
          with e c ReadFrame show ?thesis by (auto simp: input_inv_def ends_ok_def t)
        qed
      next
        case eof
        have t: "t = ?s\<lparr>in_sender := False\<rparr>"
          using eof t by (simp add: reader_frame_def finish_input_def inbound_tag_defs)
        have "stdin_of (in_seen t) = stdin_of (in_seen s)"
          using eof by (simp add: t stdin_of_snoc inbound_tag_defs)
        moreover have "in_flight t = in_flight s" by (simp add: t in_flight_def)
        ultimately have "accounted t" using l unfolding accounted_def by (intro exI [of _ lost]) (simp add: t)
        with e eof ReadFrame show ?thesis by (auto simp: input_inv_def ends_ok_def t)
      next
        case other
        have t: "t = ?s\<lparr>in_events := in_events s @ [StdinFrame f]\<rparr>"
          using other t by (simp add: reader_frame_def control_def)
        have "stdin_of (in_seen t) = stdin_of (in_seen s)"
          using other by (simp add: t stdin_of_snoc control_def)
        moreover have "in_flight t = in_flight s" by (simp add: t in_flight_def)
        ultimately have "accounted t" using l unfolding accounted_def by (intro exI [of _ lost]) (simp add: t)
        with e other ReadFrame show ?thesis by (auto simp: input_inv_def ends_ok_def t control_def)
      qed
    qed
  qed
qed

lemma input_inv_step: "input_step bounded s t \<Longrightarrow> input_inv s \<Longrightarrow> input_inv t"
proof (induction rule: input_step.induct)
  case (loop s)
  then show ?case by (auto simp: input_inv_def accounted_def in_flight_def ends_ok_def close_input_def)
qed (auto intro: input_inv_reader input_inv_writer)

lemma input_inv_reach: "input_reach bounded s t \<Longrightarrow> input_inv s \<Longrightarrow> input_inv t"
  by (induction rule: input_reach.induct) (auto intro: input_inv_step)

lemma input_inv_new: "input_inv (input_new piped fs e)"
  by (auto simp: input_inv_def accounted_def in_flight_def ends_ok_def input_new_def stdin_of_def before_eof_def)

section \<open>What the event loop hears\<close>

definition heard :: "frame list \<Rightarrow> io_error option \<Rightarrow> input_state \<Rightarrow> bool" where
  "heard fs e s \<longleftrightarrow> in_seen s @ in_frames s = fs \<and> in_end s = e
     \<and> in_events s = map StdinFrame (filter control (in_seen s)) @ (if in_reader s = ReaderGone then [end_event e] else [])
     \<and> (in_reader s = ReaderGone \<longrightarrow> in_frames s = [])"

lemma reader_frame_fields:
  "in_frames (reader_frame f s) = in_frames s" "in_seen (reader_frame f s) = in_seen s"
  "in_end (reader_frame f s) = in_end s" "in_out (reader_frame f s) = in_out s" "in_writer (reader_frame f s) = in_writer s"
  "in_events (reader_frame f s) = in_events s @ (if control f then [StdinFrame f] else [])"
  "in_reader s \<noteq> ReaderGone \<Longrightarrow> in_reader (reader_frame f s) \<noteq> ReaderGone"
  by (auto simp: reader_frame_def begin_send_def finish_input_def control_def)

lemma heard_reader:
  assumes "heard fs e s" "reader_next bounded s = Some t"
  shows "heard fs e t"
proof (cases "in_reader s")
  case (Sending bs)
  with assms show ?thesis by (auto simp: reader_next_def queue_send_def heard_def split: if_splits)
next
  case ReadFrame
  show ?thesis
  proof (cases "in_frames s")
    case Nil
    with assms ReadFrame show ?thesis by (auto simp: reader_next_def heard_def)
  next
    case (Cons f gs)
    let ?s = "s\<lparr>in_frames := gs, in_seen := in_seen s @ [f]\<rparr>"
    from Cons ReadFrame assms(2) have t: "t = reader_frame f ?s" by (simp add: reader_next_def)
    have "in_reader t \<noteq> ReaderGone" using ReadFrame reader_frame_fields(7) [of ?s f] by (simp add: t)
    with assms(1) Cons ReadFrame show ?thesis by (simp add: heard_def t reader_frame_fields)
  qed
qed (use assms in \<open>simp add: reader_next_def\<close>)

lemma writer_hears_nothing: "heard fs e s \<Longrightarrow> writer_next failed s = Some t \<Longrightarrow> heard fs e t"
  by (cases "in_writer s"; cases "in_queue s"; cases failed) (auto simp: heard_def split: if_splits)

lemma heard_step: "input_step bounded s t \<Longrightarrow> heard fs e s \<Longrightarrow> heard fs e t"
proof (induction rule: input_step.induct)
  case (loop s)
  then show ?case by (simp add: heard_def close_input_def)
qed (blast intro: heard_reader writer_hears_nothing)+

lemma heard_reach: "input_reach bounded s t \<Longrightarrow> heard fs e s \<Longrightarrow> heard fs e t"
  by (induction rule: input_reach.induct) (auto intro: heard_step)

lemma heard_new: "heard fs e (input_new piped fs e)"
  by (simp add: heard_def input_new_def)

text \<open>Without a bound nothing the child does or does not do keeps the reader from its frames.\<close>

abbreviation reads_on :: "input_state \<Rightarrow> input_state \<Rightarrow> bool" where
  "reads_on \<equiv> (\<lambda>s t. reader_next False s = Some t)\<^sup>*\<^sup>*"

lemma sending_ends:
  "in_reader s \<noteq> ReaderGone \<Longrightarrow> \<exists>t. reads_on s t \<and> in_reader t = ReadFrame \<and> in_frames t = in_frames s
    \<and> in_out t = in_out s \<and> in_writer t = in_writer s"
proof (cases "in_reader s")
  case (Sending bs)
  define t where "t = (if in_writer s = WriterGone then s\<lparr>in_sender := False, in_reader := ReadFrame\<rparr>
    else s\<lparr>in_queue := in_queue s @ [bs], in_reader := ReadFrame\<rparr>)"
  have "reader_next False s = Some t" by (simp add: reader_next_def queue_send_def Sending t_def)
  then have "reads_on s t" by (rule r_into_rtranclp)
  moreover have "in_reader t = ReadFrame" "in_frames t = in_frames s" "in_out t = in_out s" "in_writer t = in_writer s"
    by (simp_all add: t_def)
  ultimately show ?thesis by blast
qed (auto intro: rtranclp.rtrancl_refl)

lemma reads_to_the_end:
  "in_reader s = ReadFrame \<Longrightarrow> \<exists>t. reads_on s t \<and> in_reader t = ReaderGone \<and> in_out t = in_out s \<and> in_writer t = in_writer s"
proof (induction "in_frames s" arbitrary: s)
  case Nil
  then have "reader_next False s = Some (s\<lparr>in_reader := ReaderGone, in_sender := False,
      in_events := in_events s @ [end_event (in_end s)]\<rparr>)" by (simp add: reader_next_def)
  then show ?case by (intro exI [of _ "s\<lparr>in_reader := ReaderGone, in_sender := False,
      in_events := in_events s @ [end_event (in_end s)]\<rparr>"]) auto
next
  case (Cons f fs)
  define t where "t = reader_frame f (s\<lparr>in_frames := fs, in_seen := in_seen s @ [f]\<rparr>)"
  have r: "reader_next False s = Some t" using Cons.prems Cons.hyps(2) [symmetric] by (simp add: reader_next_def t_def)
  have f: "in_frames t = fs" "in_out t = in_out s" "in_writer t = in_writer s" "in_reader t \<noteq> ReaderGone"
    using Cons.prems by (simp_all add: t_def reader_frame_fields)
  from sending_ends [OF f(4)] obtain u where u: "reads_on t u" "in_reader u = ReadFrame" "in_frames u = fs"
    "in_out u = in_out s" "in_writer u = in_writer s" using f by auto
  from Cons.hyps(1) [of u] u obtain v where v: "reads_on u v" "in_reader v = ReaderGone" "in_out v = in_out s"
    "in_writer v = in_writer s" by auto
  have "reads_on s v" using r u(1) v(1) by (meson converse_rtranclp_into_rtranclp rtranclp_trans)
  with v show ?case by blast
qed

lemma reads_on_reach: "reads_on s t \<Longrightarrow> input_reach False s t"
  by (induction rule: rtranclp_induct) (auto intro: input_reach.intros input_step.reader)

lemma input_reach_trans: "input_reach bounded t u \<Longrightarrow> input_reach bounded s t \<Longrightarrow> input_reach bounded s u"
  by (induction rule: input_reach.induct) (auto intro: input_reach.step)

text \<open>After \<open>close\<close> the writer finishes the payload it has in hand, at most.\<close>

definition shut :: "input_state \<Rightarrow> input_state \<Rightarrow> bool" where
  "shut s t \<longleftrightarrow> in_closed t \<and> (in_writer t = in_writer s \<and> in_out t = in_out s
     \<or> (\<forall>bs. in_writer t \<noteq> Writing bs) \<and> (\<exists>n. in_out t = in_out s @ take n (hand (in_writer s))))"

lemma shut_writer: "shut s t \<Longrightarrow> writer_next failed t = Some u \<Longrightarrow> shut s u"
proof (cases "in_writer t")
  case (Writing bs)
  assume "shut s t" "writer_next failed t = Some u"
  with Writing have w: "in_writer s = Writing bs" "in_out t = in_out s" "in_closed t" by (auto simp: shut_def)
  show ?thesis
  proof (cases failed)
    case None
    with \<open>writer_next failed t = Some u\<close> Writing w show ?thesis
      by (auto simp: shut_def intro!: exI [of _ "length bs"])
  next
    case (Some n)
    with \<open>writer_next failed t = Some u\<close> Writing w show ?thesis by (auto simp: shut_def)
  qed
next
  case WaitInput
  assume s: "shut s t" and u: "writer_next failed t = Some u"
  from s WaitInput have "\<exists>n. in_out t = in_out s @ take n (hand (in_writer s))"
    by (auto simp: shut_def intro: exI [of _ 0])
  moreover from s have "in_closed t" by (simp add: shut_def)
  then have "u = t\<lparr>in_writer := WriterGone\<rparr> \<or> u = t\<lparr>in_writer := WriterGone, in_queue := []\<rparr>"
    using u WaitInput by (auto split: list.splits if_splits)
  ultimately show ?thesis using \<open>in_closed t\<close> by (auto simp: shut_def)
qed simp

lemma shut_reader: "shut s t \<Longrightarrow> reader_next bounded t = Some u \<Longrightarrow> shut s u"
  by (auto simp: reader_next_def queue_send_def reader_frame_def begin_send_def finish_input_def shut_def Let_def
      split: reader_pc.splits list.splits if_splits)

lemma shut_reach: "input_reach bounded s t \<Longrightarrow> in_closed s \<Longrightarrow> shut s t"
proof (induction rule: input_reach.induct)
  case (step s t u)
  then have sh: "shut s t" by simp
  from step.hyps(2) show ?case
  proof cases
    case loop
    with sh show ?thesis by (simp add: shut_def close_input_def)
  qed (use sh in \<open>blast intro: shut_reader shut_writer\<close>)+
qed (simp add: shut_def)

section \<open>Properties\<close>

lemma stdin_of_app_eof: "\<exists>f\<in>set fs. tag f = TAG_EOF \<Longrightarrow> stdin_of (fs @ gs) = stdin_of fs"
  by (auto simp: stdin_of_def before_eof_def takeWhile_append1)

text \<open>C13: The child gets its input, all of it and nothing else: whatever the interleaving of the two
  threads and the loop, what has been written is a prefix of the payloads of the STDIN frames read
  before an EOF frame, in order; it is all of them once the writer is done, unless input was
  closed or the child stopped taking it; and after \<open>close\<close> at most the payload in hand is written.\<close>

theorem child_input_in_order:
  assumes "input_reach bounded (input_new piped fs e) s"
  shows "(\<exists>rest. stdin_of (in_seen s) = in_out s @ rest)
    \<and> (in_writer s = WriterGone \<and> \<not> in_closed s \<and> \<not> in_torn s \<longrightarrow> in_out s = stdin_of fs)
    \<and> (\<forall>t. in_closed s \<and> input_reach bounded s t \<longrightarrow> (\<exists>n. in_out t = in_out s @ take n (hand (in_writer s))))"
proof -
  have inv: "accounted s" "ends_ok s" using input_inv_reach [OF assms input_inv_new] by (simp_all add: input_inv_def)
  have h: "heard fs e s" using heard_reach [OF assms heard_new] .
  from inv(1) obtain lost where l: "stdin_of (in_seen s) = in_out s @ in_flight s @ lost"
    "lost \<noteq> [] \<longrightarrow> in_closed s \<or> in_torn s" by (auto simp: accounted_def)
  have "in_out s = stdin_of fs" if fin: "in_writer s = WriterGone" "\<not> in_closed s" "\<not> in_torn s"
  proof -
    have "stdin_of (in_seen s) = in_out s" using l fin by (auto simp: in_flight_def)
    moreover have "in_reader s = ReaderGone \<or> (\<exists>f\<in>set (in_seen s). tag f = TAG_EOF)"
      using inv(2) fin by (auto simp: ends_ok_def)
    then have "stdin_of fs = stdin_of (in_seen s)"
      using h stdin_of_app_eof [of "in_seen s" "in_frames s"] by (auto simp: heard_def)
    ultimately show ?thesis by simp
  qed
  moreover have "\<exists>n. in_out t = in_out s @ take n (hand (in_writer s))" if "in_closed s" "input_reach bounded s t" for t
    using shut_reach [OF that(2,1)] by (auto simp: shut_def intro: exI [of _ 0])
  ultimately show ?thesis using l(1) by blast
qed

text \<open>One payload of two is written, then the loop closes the input.\<close>

definition sample_frames :: "frame list" where
  "sample_frames = [\<lparr>tag = TAG_STDIN, payload = [104]\<rparr>, \<lparr>tag = TAG_STDIN, payload = [105]\<rparr>, \<lparr>tag = TAG_KILL, payload = []\<rparr>]"

definition sample_input :: input_state where
  "sample_input =
     \<lparr>in_frames = tl (tl sample_frames), in_end = None, in_reader = ReadFrame, in_events = [], in_sender = False,
      in_queue = [], in_writer = WaitInput, in_closed = True, in_out = [104], in_seen = take 2 sample_frames, in_torn = False\<rparr>"

lemma sample_input_reach: "input_reach True (input_new True sample_frames None) sample_input"
proof -
  have r: "input_reach True s (the (reader_next True t))" if "input_reach True s t" "reader_next True t \<noteq> None" for s t
    using that input_reach.step input_step.reader by (metis option.collapse)
  have w: "input_reach True s (the (writer_next None t))" if "input_reach True s t" "writer_next None t \<noteq> None" for s t
    using that input_reach.step input_step.writer by (metis option.collapse)
  note defs = reader_next_def reader_frame_def begin_send_def queue_send_def input_new_def sample_frames_def inbound_tag_defs
  let ?s0 = "input_new True sample_frames None"
  have 1: "input_reach True ?s0 ?s0" by (rule input_reach.refl)
  have 2: "input_reach True ?s0 (the (reader_next True ?s0))" by (rule r [OF 1]) (simp add: defs)
  have 3: "input_reach True ?s0 (the (reader_next True (the (reader_next True ?s0))))"
    by (rule r [OF 2]) (simp add: defs)
  have 4: "input_reach True ?s0 (the (writer_next None (the (reader_next True (the (reader_next True ?s0))))))"
    by (rule w [OF 3]) (simp add: defs)
  have 5: "input_reach True ?s0 (the (writer_next None (the (writer_next None (the (reader_next True (the (reader_next True ?s0))))))))"
    by (rule w [OF 4]) (simp add: defs)
  let ?s5 = "the (writer_next None (the (writer_next None (the (reader_next True (the (reader_next True ?s0)))))))"
  have 6: "input_reach True ?s0 (close_input ?s5)" by (rule input_reach.step [OF 5 input_step.loop])
  have 7: "input_reach True ?s0 (the (reader_next True (close_input ?s5)))"
    by (rule r [OF 6]) (simp add: defs close_input_def)
  have "the (reader_next True (close_input ?s5)) = sample_input"
    by (simp add: defs close_input_def sample_input_def)
  with 7 show ?thesis by simp
qed

theorem child_input_in_order_witness:
  "\<exists>rest. stdin_of (in_seen sample_input) = in_out sample_input @ rest"
  using child_input_in_order [OF sample_input_reach] by blast

text \<open>C25: The loop hears everything: without tracking, in every reachable state the reader alone can
  go on to the end of the protocol input, although the child takes no more of its own: every KILL
  and credit frame and the end of the input become events, in order.\<close>

theorem control_never_waits:
  assumes "input_reach False (input_new piped fs e) s"
  shows "\<exists>t. input_reach False s t \<and> in_out t = in_out s \<and> in_writer t = in_writer s
    \<and> in_events t = map StdinFrame (filter control fs) @ [end_event e]"
proof -
  have h: "heard fs e s" using heard_reach [OF assms heard_new] .
  obtain t where t: "reads_on s t" "in_reader t = ReaderGone" "in_out t = in_out s" "in_writer t = in_writer s"
  proof (cases "in_reader s = ReaderGone")
    case True
    then show thesis using that [of s] by simp
  next
    case False
    from sending_ends [OF this] obtain u where u: "reads_on s u" "in_reader u = ReadFrame" "in_out u = in_out s"
      "in_writer u = in_writer s" by blast
    from reads_to_the_end [OF u(2)] obtain t where t: "reads_on u t" "in_reader t = ReaderGone" "in_out t = in_out u"
      "in_writer t = in_writer u" by blast
    have "reads_on s t" by (rule rtranclp_trans [OF u(1) t(1)])
    with that t(2-4) u(3,4) show thesis by simp
  qed
  have r: "input_reach False s t" by (rule reads_on_reach [OF t(1)])
  have "heard fs e t" by (rule heard_reach [OF r h])
  with t(2) have "in_events t = map StdinFrame (filter control fs) @ [end_event e]" by (auto simp: heard_def)
  with r t show ?thesis by blast
qed

theorem control_never_waits_witness:
  "\<exists>t. input_reach False (input_new True sample_frames None) t
     \<and> in_events t = [StdinFrame \<lparr>tag = TAG_KILL, payload = []\<rparr>, StdinClosed]"
proof -
  have "input_reach False (input_new True sample_frames None) (input_new True sample_frames None)"
    by (rule input_reach.refl)
  moreover have "map StdinFrame (filter control sample_frames) @ [end_event None]
      = [StdinFrame \<lparr>tag = TAG_KILL, payload = []\<rparr>, StdinClosed]"
    by (simp add: sample_frames_def control_def end_event_def inbound_tag_defs)
  ultimately show ?thesis using control_never_waits [of True sample_frames None] by metis
qed

end
