(* ===== verification/Lock.thy ===== *)
theory Lock
  imports IoError "HOL-Library.Monad_Syntax"
begin

text \<open>
  Lock mode, \<open>native/forcola_shim/src/lock.rs\<close>: a whole-file \<open>fcntl\<close> write lock held until
  stdin ends. The calls of the operating system are a record of operations on a world; the numbers
  are those of Linux. Waiting for stdin is a partial function: \<open>None\<close> stands for not returning.
\<close>

section \<open>The system\<close>

definition EXIT_RELEASED :: u8 where "EXIT_RELEASED = 0"
definition EXIT_USAGE :: u8 where "EXIT_USAGE = 2"
definition EXIT_HELD :: u8 where "EXIT_HELD = 3"
definition EXIT_OPEN :: u8 where "EXIT_OPEN = 4"
definition EXIT_LOCK :: u8 where "EXIT_LOCK = 5"
definition ATTEMPTS :: nat where "ATTEMPTS = 3"

definition F_WRLCK :: int where "F_WRLCK = 1"
definition F_UNLCK :: int where "F_UNLCK = 2"
definition SEEK_SET :: int where "SEEK_SET = 0"
definition O_CLOEXEC :: int where "O_CLOEXEC = 524288"

record flock =
  l_type :: int
  l_whence :: int
  l_start :: int
  l_len :: int
  l_pid :: int

record open_options =
  oo_read :: bool
  oo_write :: bool
  oo_create :: bool
  oo_truncate :: bool
  oo_mode :: nat
  oo_flags :: int

record 'w lock_os =
  lo_open :: "open_options \<Rightarrow> string \<Rightarrow> 'w \<Rightarrow> (io_error + nat) \<times> 'w"
  lo_setlk :: "nat \<Rightarrow> flock \<Rightarrow> 'w \<Rightarrow> (int + unit) \<times> 'w"
  lo_getlk :: "nat \<Rightarrow> flock \<Rightarrow> 'w \<Rightarrow> (int + flock) \<times> 'w"
  lo_writeln :: "string \<Rightarrow> 'w \<Rightarrow> (io_error + unit) \<times> 'w"
  lo_read_stdin :: "'w \<Rightarrow> (io_error + nat) \<times> 'w"
  lo_close :: "nat \<Rightarrow> 'w \<Rightarrow> 'w"

datatype attempt = Acquired | Held int

section \<open>The lock\<close>

definition whole_file :: flock where
  "whole_file = \<lparr>l_type = F_WRLCK, l_whence = SEEK_SET, l_start = 0, l_len = 0, l_pid = 0\<rparr>"

fun acquire_loop :: "'w lock_os \<Rightarrow> nat \<Rightarrow> nat \<Rightarrow> 'w \<Rightarrow> (io_error + attempt) \<times> 'w" where
  "acquire_loop os fd 0 w = (Inr (Held 0), w)"
| "acquire_loop os fd (Suc n) w =
     (case lo_setlk os fd whole_file w of
        (Inr _, w) \<Rightarrow> (Inr Acquired, w)
      | (Inl code, w) \<Rightarrow>
          if code = EINTR then acquire_loop os fd n w
          else if code \<noteq> EACCES \<and> code \<noteq> EAGAIN then (Inl (Os code), w)
          else case lo_getlk os fd whole_file w of
            (Inl _, w) \<Rightarrow> (Inr (Held 0), w)
          | (Inr probe, w) \<Rightarrow>
              if l_type probe \<noteq> F_UNLCK then (Inr (Held (l_pid probe)), w)
              else acquire_loop os fd n w)"

definition acquire :: "'w lock_os \<Rightarrow> nat \<Rightarrow> 'w \<Rightarrow> (io_error + attempt) \<times> 'w" where
  "acquire os fd w = acquire_loop os fd ATTEMPTS w"

section \<open>Running\<close>

partial_function (option) wait_for_release :: "'w lock_os \<Rightarrow> 'w \<Rightarrow> 'w option" where
  "wait_for_release os w =
     (case lo_read_stdin os w of
        (Inl e, w) \<Rightarrow> if is_interrupted e then wait_for_release os w else Some w
      | (Inr n, w) \<Rightarrow> Some w)"

declare wait_for_release.simps [code]

definition finish :: "'w lock_os \<Rightarrow> string \<Rightarrow> u8 \<Rightarrow> 'w \<Rightarrow> u8 \<times> 'w" where
  "finish os line status w = (status, snd (lo_writeln os line w))"

definition fmt_int :: "int \<Rightarrow> string" where
  "fmt_int n = (if n < 0 then ''-'' @ fmt_nat (nat (- n)) else fmt_nat (nat n))"

definition lock_open_options :: open_options where
  "lock_open_options = \<lparr>oo_read = True, oo_write = True, oo_create = True, oo_truncate = False,
     oo_mode = 384, oo_flags = O_CLOEXEC\<rparr>"

text \<open>Every return drops the file, if it was opened, which closes it.\<close>

definition lock_run :: "'w lock_os \<Rightarrow> string list \<Rightarrow> 'w \<Rightarrow> (u8 \<times> 'w) option" where
  "lock_run os args w =
     (case args of
        [path] \<Rightarrow>
          if path = [] then Some (finish os ''error usage'' EXIT_USAGE w)
          else (case lo_open os lock_open_options path w of
            (Inl e, w) \<Rightarrow> Some (finish os (''error open '' @ error_reason e) EXIT_OPEN w)
          | (Inr fd, w) \<Rightarrow>
              (case acquire os fd w of
                 (Inr (Held p), w) \<Rightarrow>
                   Some (map_prod id (lo_close os fd) (finish os (''held '' @ fmt_int p) EXIT_HELD w))
               | (Inl e, w) \<Rightarrow>
                   Some (map_prod id (lo_close os fd) (finish os (''error lock '' @ error_reason e) EXIT_LOCK w))
               | (Inr Acquired, w) \<Rightarrow>
                   (case lo_writeln os ''ok'' w of
                      (Inl e, w) \<Rightarrow> Some (EXIT_RELEASED, lo_close os fd w)
                    | (Inr _, w) \<Rightarrow>
                        wait_for_release os w \<bind> (\<lambda>w. Some (EXIT_RELEASED, lo_close os fd w)))))
      | _ \<Rightarrow> Some (finish os ''error usage'' EXIT_USAGE w))"

section \<open>What the log shows\<close>

text \<open>A system that records its calls, newest first.\<close>

datatype lock_event =
    SetLk flock "int + unit"
  | GetLk flock "int + flock"
  | Wrote string "io_error + unit"
  | StdinRead "io_error + nat"
  | Opened
  | Closed nat

definition logging_lock :: "'w lock_os \<Rightarrow> ('w \<times> lock_event list) lock_os" where
  "logging_lock os =
     \<lparr>lo_open = (\<lambda>oo p (w, l). let (r, w) = lo_open os oo p w in (r, (w, Opened # l))),
      lo_setlk = (\<lambda>fd f (w, l). let (r, w) = lo_setlk os fd f w in (r, (w, SetLk f r # l))),
      lo_getlk = (\<lambda>fd f (w, l). let (r, w) = lo_getlk os fd f w in (r, (w, GetLk f r # l))),
      lo_writeln = (\<lambda>s (w, l). let (r, w) = lo_writeln os s w in (r, (w, Wrote s r # l))),
      lo_read_stdin = (\<lambda>(w, l). let (r, w) = lo_read_stdin os w in (r, (w, StdinRead r # l))),
      lo_close = (\<lambda>fd (w, l). (lo_close os fd w, Closed fd # l))\<rparr>"

text \<open>What justifies a verdict of \<open>acquire\<close>: the newest event of its calls.\<close>

fun justified :: "io_error + attempt \<Rightarrow> lock_event list \<Rightarrow> bool" where
  "justified (Inr Acquired) (SetLk f (Inr _) # l) \<longleftrightarrow> f = whole_file"
| "justified (Inr (Held p)) (GetLk f (Inr probe) # SetLk f' (Inl code) # l) \<longleftrightarrow>
     (code = EACCES \<or> code = EAGAIN) \<and> (l_type probe \<noteq> F_UNLCK \<and> p = l_pid probe \<or> l_type probe = F_UNLCK \<and> p = 0)"
| "justified (Inr (Held p)) (GetLk f (Inl e) # SetLk f' (Inl code) # l) \<longleftrightarrow> (code = EACCES \<or> code = EAGAIN) \<and> p = 0"
| "justified (Inr (Held p)) (SetLk f (Inl code) # l) \<longleftrightarrow> p = 0 \<and> code = EINTR"
| "justified (Inl e) (SetLk f (Inl code) # l) \<longleftrightarrow> e = Os code \<and> code \<noteq> EINTR \<and> code \<noteq> EACCES \<and> code \<noteq> EAGAIN"
| "justified r l \<longleftrightarrow> False"

definition setlks :: "lock_event list \<Rightarrow> nat" where
  "setlks l = length (filter (\<lambda>ev. case ev of SetLk f r \<Rightarrow> True | _ \<Rightarrow> False) l)"

text \<open>A retry leaves a log that would justify giving up with an unknown holder.\<close>

lemma acquire_loop_log:
  "acquire_loop (logging_lock os) fd n (w, l) = (r, (w', l')) \<Longrightarrow> (n = 0 \<Longrightarrow> justified (Inr (Held 0)) l) \<Longrightarrow>
   justified r l' \<and> setlks l' \<le> setlks l + n"
proof (induction n arbitrary: w l)
  case (Suc n)
  obtain s w1 where s: "lo_setlk os fd whole_file w = (s, w1)" by force
  show ?case
  proof (cases s)
    case (Inr u)
    with Suc.prems s show ?thesis by (auto simp: logging_lock_def setlks_def)
  next
    case (Inl code)
    obtain g w2 where g: "lo_getlk os fd whole_file w1 = (g, w2)" by force
    have "justified r l' \<and> setlks l' \<le> setlks (SetLk whole_file s # l) + n" if c: "code = EINTR"
    proof (rule Suc.IH)
      show "acquire_loop (logging_lock os) fd n (w1, SetLk whole_file s # l) = (r, (w', l'))"
        using Suc.prems(1) s Inl c by (simp add: logging_lock_def)
      show "justified (Inr (Held 0)) (SetLk whole_file s # l)" by (simp add: Inl c)
    qed
    moreover have "justified r l' \<and> setlks l' \<le> setlks (GetLk whole_file g # SetLk whole_file s # l) + n"
      if c: "code = EACCES \<or> code = EAGAIN" "g = Inr probe" "l_type probe = F_UNLCK" for probe
    proof (rule Suc.IH)
      show "acquire_loop (logging_lock os) fd n (w2, GetLk whole_file g # SetLk whole_file s # l) = (r, (w', l'))"
        using Suc.prems(1) s g Inl c by (auto simp: logging_lock_def errno_defs)
      show "justified (Inr (Held 0)) (GetLk whole_file g # SetLk whole_file s # l)" using Inl c by simp
    qed
    ultimately show ?thesis
      using Suc.prems(1) s g Inl
      by (cases g) (auto simp: logging_lock_def setlks_def split: if_splits)
  qed
qed (auto simp: setlks_def)

fun retried :: "io_error + nat \<Rightarrow> bool" where
  "retried (Inl e) \<longleftrightarrow> is_interrupted e"
| "retried (Inr n) \<longleftrightarrow> False"

lemma wait_log':
  "wait_for_release os' w = Some w' \<Longrightarrow> os' = logging_lock os \<Longrightarrow>
   \<exists>r rs. snd w' = StdinRead r # map StdinRead rs @ snd w \<and> \<not> retried r \<and> list_all retried rs"
proof (induction rule: wait_for_release.raw_induct [rotated 1, consumes 1, case_names step])
  case (step again os' w w')
  obtain v l where w: "w = (v, l)" by force
  obtain r v1 where r: "lo_read_stdin os v = (r, v1)" by force
  then have r': "lo_read_stdin os' w = (r, (v1, StdinRead r # l))"
    using step(3) w by (simp add: logging_lock_def)
  show ?case
  proof (cases "retried r")
    case True
    then have "again os' (v1, StdinRead r # l) = Some w'" using step(2) r' by (cases r) simp_all
    from step(1) [OF this step(3)] obtain q rs where
      "snd w' = StdinRead q # map StdinRead rs @ StdinRead r # l" "\<not> retried q" "list_all retried rs" by auto
    with True w show ?thesis by (intro exI [of _ q] exI [of _ "rs @ [r]"]) simp
  next
    case False
    with step(2) r' have "w' = (v1, StdinRead r # l)" by (cases r) simp_all
    with False w show ?thesis by (intro exI [of _ r] exI [of _ "[]"]) simp
  qed
qed

lemma wait_log:
  "wait_for_release (logging_lock os) (v, l) = Some (v', l') \<Longrightarrow>
   \<exists>r rs. l' = StdinRead r # map StdinRead rs @ l \<and> \<not> retried r \<and> list_all retried rs"
  using wait_log' [of "logging_lock os" "(v, l)" "(v', l')" os] by simp

text \<open>The calls of \<open>acquire\<close> are on the lock only.\<close>

fun on_lock :: "lock_event \<Rightarrow> bool" where
  "on_lock (SetLk f r) \<longleftrightarrow> True"
| "on_lock (GetLk f r) \<longleftrightarrow> True"
| "on_lock ev \<longleftrightarrow> False"

lemma acquire_loop_events:
  "acquire_loop (logging_lock os) fd n (w, l) = (r, (w', l')) \<Longrightarrow> \<exists>es. l' = es @ l \<and> list_all on_lock es"
proof (induction n arbitrary: w l)
  case (Suc n)
  obtain s w1 where s: "lo_setlk os fd whole_file w = (s, w1)" by force
  obtain g w2 where g: "lo_getlk os fd whole_file w1 = (g, w2)" by force
  let ?l1 = "SetLk whole_file s # l" and ?l2 = "GetLk whole_file g # SetLk whole_file s # l"
  have "(w', l') = (w1, ?l1) \<or> (w', l') = (w2, ?l2)
      \<or> acquire_loop (logging_lock os) fd n (w1, ?l1) = (r, (w', l'))
      \<or> acquire_loop (logging_lock os) fd n (w2, ?l2) = (r, (w', l'))"
    using Suc.prems s g by (auto simp: logging_lock_def split: sum.splits if_splits)
  moreover have "\<exists>es. l' = es @ l \<and> list_all on_lock es" if "\<exists>es. l' = es @ ?l1 \<and> list_all on_lock es"
    using that by (elim exE conjE) (rule exI [of _ "_ @ [SetLk whole_file s]"], simp)
  moreover have "\<exists>es. l' = es @ l \<and> list_all on_lock es" if "\<exists>es. l' = es @ ?l2 \<and> list_all on_lock es"
    using that by (elim exE conjE) (rule exI [of _ "_ @ [GetLk whole_file g, SetLk whole_file s]"], simp)
  ultimately show ?case using Suc.IH [of w1 ?l1] Suc.IH [of w2 ?l2] by fastforce
qed simp

lemma acquire_events:
  assumes "acquire (logging_lock os) fd (w, l) = (r, (w', l'))" "setlks l = 0"
  obtains es where "l' = es @ l" "list_all on_lock es" "r = Inr Acquired \<Longrightarrow> \<exists>es'. es = SetLk whole_file (Inr ()) # es'"
proof -
  obtain n where n: "acquire_loop (logging_lock os) fd (Suc n) (w, l) = (r, (w', l'))"
    using assms(1) by (simp add: acquire_def ATTEMPTS_def numeral_3_eq_3)
  from acquire_loop_events [OF n] obtain es where es: "l' = es @ l" "list_all on_lock es" by blast
  have "justified r l'" using acquire_loop_log [OF n] by simp
  moreover have "\<exists>es'. es = SetLk whole_file (Inr ()) # es'" if "r = Inr Acquired" "justified r l'"
  proof (cases es)
    case Nil
    with that es assms(2) show ?thesis by (cases l rule: list.exhaust; cases "hd l") (auto simp: setlks_def)
  next
    case (Cons ev es')
    with that es show ?thesis by (cases "(r, l')" rule: justified.cases) auto
  qed
  ultimately show thesis using es that by blast
qed

fun quiet :: "lock_event \<Rightarrow> bool" where
  "quiet (StdinRead r) \<longleftrightarrow> False"
| "quiet (Wrote s r) \<longleftrightarrow> s \<noteq> ''ok'' \<or> r \<noteq> Inr ()"
| "quiet ev \<longleftrightarrow> True"

lemma on_lock_quiet: "list_all on_lock es \<Longrightarrow> list_all quiet es"
  by (induction es) (auto elim: on_lock.elims)

lemma finish_quiet:
  "finish (logging_lock os) s status (w, l) = (code, (w', l')) \<Longrightarrow> s \<noteq> ''ok'' \<Longrightarrow> \<exists>r. l' = Wrote s r # l"
  by (auto simp: finish_def logging_lock_def Let_def split: prod.splits)

lemma lock_run_cases [consumes 1, case_names gave_up held]:
  assumes run: "lock_run (logging_lock os) args (w, []) = Some (code, (w', l))"
  obtains "list_all quiet l"
  | earlier fd v v1 l1 where
    "wait_for_release (logging_lock os) (v, Wrote ''ok'' (Inr ()) # SetLk whole_file (Inr ()) # earlier) = Some (v1, l1)"
    "list_all quiet earlier" "l = Closed fd # l1" "code = EXIT_RELEASED"
proof (cases "\<exists>path. args = [path] \<and> path \<noteq> []")
  case False
  with run have "finish (logging_lock os) ''error usage'' EXIT_USAGE (w, []) = (code, (w', l))"
    by (auto simp: lock_run_def split: list.splits if_splits)
  with finish_quiet have "list_all quiet l" by fastforce
  with that(1) show thesis .
next
  case True
  then obtain path where args: "args = [path]" "path \<noteq> []" by blast
  obtain fr w1 where op: "lo_open os lock_open_options path w = (fr, w1)" by force
  then have op': "lo_open (logging_lock os) lock_open_options path (w, []) = (fr, (w1, [Opened]))"
    by (simp add: logging_lock_def)
  show thesis
  proof (cases fr)
    case (Inl e)
    with run args op' have "finish (logging_lock os) (''error open '' @ error_reason e) EXIT_OPEN (w1, [Opened]) = (code, (w', l))"
      by (simp add: lock_run_def)
    with finish_quiet have "list_all quiet l" by fastforce
    with that(1) show thesis .
  next
    case (Inr fd)
    obtain r w2 l2 where aq: "acquire (logging_lock os) fd (w1, [Opened]) = (r, (w2, l2))"
      by (metis prod.collapse)
    have "setlks [Opened] = 0" by (simp add: setlks_def)
    from acquire_events [OF aq this] obtain es where
      es: "l2 = es @ [Opened]" "list_all on_lock es" "r = Inr Acquired \<Longrightarrow> \<exists>es'. es = SetLk whole_file (Inr ()) # es'"
      by blast
    have q2: "list_all quiet l2" using es(1) on_lock_quiet [OF es(2)] by simp
    have close: "lo_close (logging_lock os) fd (a, b) = (lo_close os fd a, Closed fd # b)" for a b
      by (simp add: logging_lock_def)
    have gave_up: "list_all quiet l"
      if "map_prod id (lo_close (logging_lock os) fd) (finish (logging_lock os) s st (w2, l2)) = (code, (w', l))" "s \<noteq> ''ok''" for s st
    proof -
      obtain c a b where f: "finish (logging_lock os) s st (w2, l2) = (c, (a, b))" by (metis prod.collapse)
      with finish_quiet [OF f that(2)] that(1) q2 \<open>s \<noteq> ''ok''\<close> show ?thesis by (auto simp: close)
    qed
    show thesis
    proof (cases r)
      case (Inl e)
      with run args op' Inr aq that(1) gave_up show thesis by (auto simp: lock_run_def)
    next
      case r: (Inr a)
      show thesis
      proof (cases a)
        case (Held p)
        with run args op' Inr aq r that(1) gave_up show thesis by (auto simp: lock_run_def)
      next
        case Acquired
        with es r obtain es' where l2: "l2 = SetLk whole_file (Inr ()) # es' @ [Opened]" "list_all quiet es'"
          using on_lock_quiet [OF es(2)] by auto
        obtain wr w3 where wr: "lo_writeln os ''ok'' w2 = (wr, w3)" by force
        then have wr': "lo_writeln (logging_lock os) ''ok'' (w2, l2) = (wr, (w3, Wrote ''ok'' wr # l2))"
          by (simp add: logging_lock_def)
        show thesis
        proof (cases wr)
          case (Inl e)
          with run args op' Inr aq r Acquired wr' have "l = Closed fd # Wrote ''ok'' wr # l2"
            by (simp add: lock_run_def close)
          with q2 Inl that(1) show thesis by simp
        next
          case ok: (Inr u)
          with run args op' Inr aq r Acquired wr' obtain v1 l1 where
            "wait_for_release (logging_lock os) (w3, Wrote ''ok'' wr # l2) = Some (v1, l1)"
            "l = Closed fd # l1" "code = EXIT_RELEASED"
            by (auto simp: lock_run_def close split: bind_splits)
          with that(2) [of w3 "es' @ [Opened]"] l2 ok show thesis by simp
        qed
      qed
    qed
  qed
qed

section \<open>Waiting ends\<close>

text \<open>Interrupted reads do not go on for ever: each one leaves fewer to come.\<close>

locale stdin_ends =
  fixes os :: "'w lock_os"
    and rank :: "'w \<Rightarrow> nat"
  assumes interrupted_less: "lo_read_stdin os w = (Inl e, w') \<Longrightarrow> is_interrupted e \<Longrightarrow> rank w' < rank w"
begin

lemma wait_returns: "\<exists>w'. wait_for_release os w = Some w'"
proof (induction "rank w" arbitrary: w rule: less_induct)
  case less
  obtain r w1 where r: "lo_read_stdin os w = (r, w1)" by force
  show ?case
  proof (cases "retried r")
    case True
    then obtain e where e: "r = Inl e" "is_interrupted e" by (cases r) simp_all
    with r less [OF interrupted_less] show ?thesis by (subst wait_for_release.simps) simp
  next
    case False
    with r show ?thesis by (subst wait_for_release.simps) (cases r, simp_all)
  qed
qed

lemma lock_run_returns: "\<exists>r. lock_run os args w = Some r"
proof -
  have "\<exists>r. wait_for_release os w \<bind> f = Some r" if "\<And>w. \<exists>r. f w = Some r" for w and f :: "'w \<Rightarrow> (u8 \<times> 'w) option"
    using wait_returns [of w] that by auto
  then show ?thesis
    by (auto simp: lock_run_def split: list.splits prod.splits sum.splits attempt.splits)
qed

end

text \<open>A terminal whose reads are the outcomes of a list, and the end of file after them.\<close>

definition scripted_stdin :: "'w lock_os \<Rightarrow> ('w \<times> (io_error + nat) list) lock_os" where
  "scripted_stdin os =
     \<lparr>lo_open = (\<lambda>oo p (w, rs). let (r, w) = lo_open os oo p w in (r, (w, rs))),
      lo_setlk = (\<lambda>fd f (w, rs). let (r, w) = lo_setlk os fd f w in (r, (w, rs))),
      lo_getlk = (\<lambda>fd f (w, rs). let (r, w) = lo_getlk os fd f w in (r, (w, rs))),
      lo_writeln = (\<lambda>s (w, rs). let (r, w) = lo_writeln os s w in (r, (w, rs))),
      lo_read_stdin = (\<lambda>(w, rs). case rs of [] \<Rightarrow> (Inr 0, (w, [])) | r # rs \<Rightarrow> (r, (w, rs))),
      lo_close = (\<lambda>fd (w, rs). (lo_close os fd w, rs))\<rparr>"

interpretation scripted: stdin_ends "scripted_stdin os" "\<lambda>(w, rs). length rs" for os :: "'w lock_os"
  by unfold_locales (auto simp: scripted_stdin_def split: list.splits)

section \<open>Properties\<close>

text \<open>A verdict on the lock has its reason: \<open>acquire\<close> says \<open>Acquired\<close> only when its last call
  was an \<open>F_SETLK\<close> of the whole file that succeeded, names a holder only as \<open>F_GETLK\<close> reported it
  after a conflict, answers 0 for a holder it could not identify, fails only with the error of
  \<open>F_SETLK\<close> itself, and never calls \<open>F_SETLK\<close> more than three times.\<close>

theorem lock_verdict_justified:
  assumes "acquire (logging_lock os) fd (w, []) = (r, (w', l))"
  shows "justified r l \<and> setlks l \<le> 3"
proof -
  have "acquire_loop (logging_lock os) fd 3 (w, []) = (r, (w', l))"
    using assms by (simp add: acquire_def ATTEMPTS_def)
  from acquire_loop_log [OF this] show ?thesis by (simp add: setlks_def)
qed

text \<open>A file another process locks until the second attempt.\<close>

definition contended_os :: "nat lock_os" where
  "contended_os =
     \<lparr>lo_open = (\<lambda>oo p w. (Inr 3, w)),
      lo_setlk = (\<lambda>fd f w. if w = 0 then (Inl EAGAIN, 1) else (Inr (), w)),
      lo_getlk = (\<lambda>fd f w. (Inr (f\<lparr>l_type := F_UNLCK\<rparr>), w)),
      lo_writeln = (\<lambda>s w. (Inr (), w)), lo_read_stdin = (\<lambda>w. (Inr 0, w)), lo_close = (\<lambda>fd w. w)\<rparr>"

lemmas contended = contended_os_def logging_lock_def acquire_def ATTEMPTS_def numeral_3_eq_3 errno_defs
  whole_file_def F_UNLCK_def F_WRLCK_def

theorem lock_verdict_justified_witness:
  "\<exists>l. acquire (logging_lock contended_os) 3 (0, []) = (Inr Acquired, (1, l)) \<and> setlks l \<le> 3"
proof -
  obtain l where l: "acquire (logging_lock contended_os) 3 (0, []) = (Inr Acquired, (1, l))"
    by (simp add: contended)
  with lock_verdict_justified [OF l] show ?thesis by blast
qed

text \<open>C34: The lock is held exactly until stdin ends: when \<open>ok\<close> was written the process exits with
  status 0, took the lock of the whole file just before it wrote, and closed the file right after
  the first read of stdin that was not an interrupted one; without \<open>ok\<close> stdin is never waited
  for.\<close>

theorem lock_held_until_release:
  assumes "lock_run (logging_lock os) args (w, []) = Some (code, (w', l))"
  shows "if Wrote ''ok'' (Inr ()) \<in> set l
    then code = EXIT_RELEASED \<and> (\<exists>fd r rs earlier. l = Closed fd # StdinRead r # map StdinRead rs
        @ Wrote ''ok'' (Inr ()) # SetLk whole_file (Inr ()) # earlier \<and> \<not> retried r \<and> list_all retried rs)
    else (\<forall>r. StdinRead r \<notin> set l)"
  using assms
proof (cases rule: lock_run_cases)
  case gave_up
  then show ?thesis by (auto simp: list_all_iff)
next
  case (held earlier fd v v1 l1)
  from wait_log [OF held(1)] obtain r rs where
    r: "l1 = StdinRead r # map StdinRead rs @ Wrote ''ok'' (Inr ()) # SetLk whole_file (Inr ()) # earlier"
      "\<not> retried r" "list_all retried rs" by blast
  with held have "Wrote ''ok'' (Inr ()) \<in> set l" by simp
  with held r show ?thesis by auto
qed

theorem lock_held_until_release_witness:
  "\<exists>w l. lock_run (logging_lock contended_os) [''/run/x.lock''] (0, []) = Some (0, (w, l))
     \<and> Wrote ''ok'' (Inr ()) \<in> set l"
proof -
  have "\<exists>w l. lock_run (logging_lock contended_os) [''/run/x.lock''] (0, []) = Some (EXIT_RELEASED, (w, l))
     \<and> Wrote ''ok'' (Inr ()) \<in> set l"
    by (simp add: lock_run_def contended, subst wait_for_release.simps) (simp add: contended)
  then obtain w l where "lock_run (logging_lock contended_os) [''/run/x.lock''] (0, []) = Some (EXIT_RELEASED, (w, l))"
    "Wrote ''ok'' (Inr ()) \<in> set l" by blast
  with lock_held_until_release [OF this(1)] show ?thesis by (auto simp: EXIT_RELEASED_def)
qed

text \<open>C35: Lock mode ends with its peer: when stdin delivers something, ends or fails after finitely many
  interrupted reads, the process exits whatever the other calls return, so the death of the
  BEAM releases the lock.\<close>

theorem lock_mode_ends:
  assumes "stdin_ends os rank"
  shows "\<exists>code w'. lock_run os args w = Some (code, w')"
  using stdin_ends.lock_run_returns [OF assms, of args w] by auto

theorem lock_mode_ends_witness:
  "\<exists>code w'. lock_run (scripted_stdin contended_os) [''/run/x.lock''] (0, [Inl (Os EINTR), Inl (Os EINTR)]) = Some (code, w')"
  by (rule lock_mode_ends [OF scripted.stdin_ends_axioms])

end
