(* ===== verification/GroupsMode.thy ===== *)
theory GroupsMode
  imports Waits
begin

text \<open>
  Groups mode, \<open>native/forcola_shim/src/groups.rs\<close>: checking and stopping process groups whose
  identities were recorded earlier, without a live session. A JSON value is what its accessors
  return; the operating system is a record of operations on a world; time is in milliseconds. The
  loop that polls until a deadline is a partial function: \<open>None\<close> stands for not returning.
\<close>

section \<open>Requests and results\<close>

definition EXIT_OK :: u8 where "EXIT_OK = 0"
definition EXIT_BAD_REQUEST :: u8 where "EXIT_BAD_REQUEST = 2"
definition MAX_REQUEST_BYTES :: nat where "MAX_REQUEST_BYTES = 16 * 1024 * 1024"
definition POLL :: nat where "POLL = 20"
definition CONFIRM_WINDOW :: nat where "CONFIRM_WINDOW = 500"
definition MAX_GRACE_MS :: u64 where "MAX_GRACE_MS = 4294967295"

datatype group_op = Check | Stop

datatype group_interrupt = Interrupt_int

record 'v groups_request =
  gq_op :: group_op
  gq_groups :: "'v list"
  gq_interrupt_signal :: "group_interrupt option"
  gq_interrupt_grace_ms :: "u64 option"
  gq_kill_grace_ms :: u64

record state_report =
  sr_state :: string
  sr_reason :: "string option"

record groups_report =
  gr_groups :: "state_report list"
  gr_confirmed :: bool

datatype recorded_group = Group process_identity | Invalid string

datatype group_state = Gone | Led | Leaderless "process_identity list" | Unknown string

fun present :: "group_state \<Rightarrow> bool" where
  "present Led = True"
| "present (Leaderless ms) = True"
| "present Gone = False"
| "present (Unknown r) = False"

fun state_report_of :: "group_state \<Rightarrow> state_report" where
  "state_report_of Gone = \<lparr>sr_state = ''gone'', sr_reason = None\<rparr>"
| "state_report_of Led = \<lparr>sr_state = ''present'', sr_reason = None\<rparr>"
| "state_report_of (Leaderless ms) = \<lparr>sr_state = ''present'', sr_reason = None\<rparr>"
| "state_report_of (Unknown reason) = \<lparr>sr_state = ''unknown'', sr_reason = Some reason\<rparr>"

section \<open>Recorded identities\<close>

record 'v json =
  js_get :: "'v \<Rightarrow> string \<Rightarrow> 'v option"
  js_u64 :: "'v \<Rightarrow> u64 option"
  js_str :: "'v \<Rightarrow> str option"

datatype platform = OnLinux | OnMacos | OnOther

definition parse_start_time :: "'v json \<Rightarrow> platform \<Rightarrow> 'v \<Rightarrow> string + start_time" where
  "parse_start_time js pf v =
     (case js_get js v ''kind'' \<bind> js_str js of
        None \<Rightarrow> Inl ''invalid_identity''
      | Some k \<Rightarrow>
          if k = str_of ''linux'' then
            (if pf = OnLinux then
               (case (js_get js v ''boot_id'' \<bind> js_str js, js_get js v ''ticks'' \<bind> js_u64 js) of
                  (Some boot_id, Some ticks) \<Rightarrow>
                    if boot_id \<noteq> [] then Inr (Linux boot_id ticks) else Inl ''invalid_identity''
                | _ \<Rightarrow> Inl ''invalid_identity'')
             else Inl ''foreign_identity'')
          else if k = str_of ''macos'' then
            (if pf = OnMacos then
               (case (js_get js v ''seconds'' \<bind> js_u64 js,
                      js_get js v ''microseconds'' \<bind> js_u64 js \<bind> (\<lambda>us. if us < 1000000 then Some us else None)) of
                  (Some seconds, Some microseconds) \<Rightarrow> Inr (Macos seconds microseconds)
                | _ \<Rightarrow> Inl ''invalid_identity'')
             else Inl ''foreign_identity'')
          else Inl ''invalid_identity'')"

text \<open>The closure \<open>positive\<close>.\<close>

definition positive :: "'v json \<Rightarrow> 'v \<Rightarrow> string \<Rightarrow> u32 option" where
  "positive js v key =
     (js_get js v key \<bind> js_u64 js \<bind> (\<lambda>n. if 0 < n \<and> n \<le> 2147483647 then Some (ucast n) else None))"

definition parse_identity :: "'v json \<Rightarrow> platform \<Rightarrow> 'v \<Rightarrow> recorded_group" where
  "parse_identity js pf v =
     (case (positive js v ''pid'', positive js v ''pgid'') of
        (Some p, Some g) \<Rightarrow>
          (case js_get js v ''start_time'' of
             None \<Rightarrow> Invalid ''invalid_identity''
           | Some start \<Rightarrow>
               (case parse_start_time js pf start of
                  Inl reason \<Rightarrow> Invalid reason
                | Inr st \<Rightarrow>
                    if p \<noteq> g then Invalid ''not_a_group_leader''
                    else Group \<lparr>pid = p, pgid = g, started = st\<rparr>))
      | _ \<Rightarrow> Invalid ''invalid_identity'')"

section \<open>Observation\<close>

record 'w groups_os =
  go_read_process :: "u32 \<Rightarrow> 'w \<Rightarrow> (io_error + process_record) \<times> 'w"
  go_from_earlier_boot :: "start_time \<Rightarrow> 'w \<Rightarrow> (io_error + bool) \<times> 'w"
  go_group_members :: "u32 \<Rightarrow> 'w \<Rightarrow> (io_error + u32 list) \<times> 'w"
  go_kill :: "int \<Rightarrow> int \<Rightarrow> 'w \<Rightarrow> bool \<times> 'w"
  go_now :: "'w \<Rightarrow> nat \<times> 'w"
  go_sleep :: "nat \<Rightarrow> 'w \<Rightarrow> 'w"

text \<open>\<open>read\<close> of \<open>groups.rs\<close>, the same as the tracker's: a process that is gone is \<open>None\<close>.\<close>

definition read_live ::
  "(u32 \<Rightarrow> 'w \<Rightarrow> (io_error + process_record) \<times> 'w) \<Rightarrow> u32 \<Rightarrow> 'w \<Rightarrow> (io_error + process_record option) \<times> 'w" where
  "read_live read_process p w =
     (case read_process p w of
        (Inr r, w') \<Rightarrow> (Inr (Some r), w')
      | (Inl e, w') \<Rightarrow> (if disappeared e then Inr None else Inl e, w'))"

abbreviation gr_read :: "'w groups_os \<Rightarrow> u32 \<Rightarrow> 'w \<Rightarrow> (io_error + process_record option) \<times> 'w" where
  "gr_read os \<equiv> read_live (go_read_process os)"

fun live_members ::
  "'w groups_os \<Rightarrow> u32 \<Rightarrow> u32 list \<Rightarrow> process_identity list \<Rightarrow> 'w \<Rightarrow> group_state \<times> 'w" where
  "live_members os grp [] live w = (if live = [] then Gone else Leaderless live, w)"
| "live_members os grp (p # ps) live w =
     (case gr_read os p w of
        (Inl e, w') \<Rightarrow> (Unknown (error_reason e), w')
      | (Inr None, w') \<Rightarrow> live_members os grp ps live w'
      | (Inr (Some r), w') \<Rightarrow>
          live_members os grp ps
            (if pgid (identity r) = grp \<and> \<not> exited r then live @ [identity r] else live) w')"

definition members_state :: "'w groups_os \<Rightarrow> u32 \<Rightarrow> 'w \<Rightarrow> group_state \<times> 'w" where
  "members_state os grp w =
     (case go_group_members os grp w of
        (Inl e, w') \<Rightarrow> (Unknown (error_reason e), w')
      | (Inr ps, w') \<Rightarrow> live_members os grp ps [] w')"

definition observe :: "'w groups_os \<Rightarrow> recorded_group \<Rightarrow> 'w \<Rightarrow> group_state \<times> 'w" where
  "observe os rec w =
     (case rec of
        Invalid reason \<Rightarrow> (Unknown reason, w)
      | Group expected \<Rightarrow>
          (case go_from_earlier_boot os (started expected) w of
             (Inr True, w') \<Rightarrow> (Gone, w')
           | (Inl e, w') \<Rightarrow> (Unknown (error_reason e), w')
           | (Inr False, w') \<Rightarrow>
               (case gr_read os (pid expected) w' of
                  (Inl e, w') \<Rightarrow> (Unknown (error_reason e), w')
                | (Inr None, w') \<Rightarrow> members_state os (pgid expected) w'
                | (Inr (Some leader), w') \<Rightarrow>
                    if \<not> same_process (identity leader) expected then (Gone, w')
                    else if pgid (identity leader) = pgid expected \<and> \<not> exited leader then (Led, w')
                    else members_state os (pgid expected) w')))"

text \<open>\<open>recorded.iter().map(observe).collect()\<close>\<close>

fun observe_all :: "'w groups_os \<Rightarrow> recorded_group list \<Rightarrow> 'w \<Rightarrow> group_state list \<times> 'w" where
  "observe_all os [] w = ([], w)"
| "observe_all os (rec # recs) w =
     (let (st, w) = observe os rec w; (sts, w) = observe_all os recs w in (st # sts, w))"

section \<open>Signals\<close>

text \<open>The \<open>i32\<close> a pid or group id is for \<open>kill\<close>.\<close>

definition pid_t :: "u32 \<Rightarrow> int" where
  "pid_t p = sint p"

fun signal_members :: "'w groups_os \<Rightarrow> u32 \<Rightarrow> process_identity list \<Rightarrow> int \<Rightarrow> 'w \<Rightarrow> 'w" where
  "signal_members os grp [] sg w = w"
| "signal_members os grp (m # ms) sg w =
     (let (r, w) = gr_read os (pid m) w;
          verified = (case r of
            Inr (Some current) \<Rightarrow> same_process (identity current) m \<and> pgid (identity current) = grp \<and> \<not> exited current
          | _ \<Rightarrow> False);
          w = (if verified \<and> pid m \<le> 2147483647 then snd (go_kill os (pid_t (pid m)) sg w) else w) in
      signal_members os grp ms sg w)"

definition signal_group :: "'w groups_os \<Rightarrow> process_identity \<Rightarrow> group_state \<Rightarrow> int \<Rightarrow> 'w \<Rightarrow> 'w" where
  "signal_group os expected st sg w =
     (case st of
        Led \<Rightarrow>
          (let (r, w) = gr_read os (pid expected) w;
               verified = (case r of
                 Inr (Some leader) \<Rightarrow> identity leader = expected \<and> \<not> exited leader
               | _ \<Rightarrow> False);
               (sent, w) = (if verified then go_kill os (- pid_t (pgid expected)) sg w else (False, w)) in
           if sent then w
           else case members_state os (pgid expected) w of
             (Leaderless live, w) \<Rightarrow> signal_members os (pgid expected) live sg w
           | (_, w) \<Rightarrow> w)
      | Leaderless live \<Rightarrow> signal_members os (pgid expected) live sg w
      | _ \<Rightarrow> w)"

text \<open>The loop over the recorded groups that are present.\<close>

fun signal_present :: "'w groups_os \<Rightarrow> (recorded_group \<times> group_state) list \<Rightarrow> int \<Rightarrow> 'w \<Rightarrow> 'w" where
  "signal_present os [] sg w = w"
| "signal_present os ((Group expected, st) # rs) sg w =
     signal_present os rs sg (if present st then signal_group os expected st sg w else w)"
| "signal_present os ((Invalid reason, st) # rs) sg w = signal_present os rs sg w"

section \<open>Stopping\<close>

fun refresh :: "'w groups_os \<Rightarrow> (recorded_group \<times> group_state) list \<Rightarrow> 'w \<Rightarrow> group_state list \<times> 'w" where
  "refresh os [] w = ([], w)"
| "refresh os ((rec, st) # rs) w =
     (let (st, w) = (if st \<noteq> Gone then observe os rec w else (st, w)); (sts, w) = refresh os rs w in
      (st # sts, w))"

partial_function (option) poll ::
  "'w groups_os \<Rightarrow> recorded_group list \<Rightarrow> nat \<Rightarrow> group_state list \<Rightarrow> 'w \<Rightarrow> (group_state list \<times> 'w) option" where
  "poll os recs deadline states w =
     (case refresh os (zip recs states) w of
        (states, w) \<Rightarrow>
          if \<not> list_ex present states then Some (states, w)
          else case go_now os w of
            (t, w) \<Rightarrow>
              if deadline \<le> t then Some (states, w)
              else case go_now os w of
                (t', w) \<Rightarrow> poll os recs deadline states (go_sleep os (min POLL (deadline - t')) w))"

declare poll.simps [code]

fun stages_of :: "nat option \<Rightarrow> nat \<Rightarrow> (int \<times> nat) list" where
  "stages_of interrupt term =
     (case interrupt of Some grace \<Rightarrow> [(SIGINT, grace)] | None \<Rightarrow> []) @ [(SIGTERM, term), (SIGKILL, CONFIRM_WINDOW)]"

fun run_stages ::
  "'w groups_os \<Rightarrow> recorded_group list \<Rightarrow> (int \<times> nat) list \<Rightarrow> group_state list \<Rightarrow> 'w \<Rightarrow>
   (group_state list \<times> 'w) option" where
  "run_stages os recs [] states w = Some (states, w)"
| "run_stages os recs ((sg, grace) # stages) states w =
     (if \<not> list_ex present states then Some (states, w)
      else
        let w = signal_present os (zip recs states) sg w; (t, w) = go_now os w in
        poll os recs (t + grace) states w \<bind> (\<lambda>(states, w). run_stages os recs stages states w))"

definition stop :: "'w groups_os \<Rightarrow> recorded_group list \<Rightarrow> nat option \<Rightarrow> nat \<Rightarrow> 'w \<Rightarrow> (group_state list \<times> 'w) option" where
  "stop os recs interrupt term w =
     (let (states, w) = observe_all os recs w in run_stages os recs (stages_of interrupt term) states w)"

section \<open>Running a request\<close>

text \<open>The line on stdout: an error or a report.\<close>

datatype groups_answer = Error_line string | Report_line groups_report

text \<open>What stdin delivers: bytes, and the error that ends them if it is not the end of file.
  \<open>read_line\<close> of at most \<open>MAX_REQUEST_BYTES\<close> stops after the first newline and wants UTF-8.\<close>

fun upto_newline :: "bytes \<Rightarrow> bytes" where
  "upto_newline [] = []"
| "upto_newline (b # bs) = (if b = 10 then [b] else b # upto_newline bs)"

definition read_request_line :: "bytes \<times> io_error option \<Rightarrow> io_error + str" where
  "read_request_line stdin =
     (let (bs, end_error) = stdin; line = upto_newline (take MAX_REQUEST_BYTES bs) in
      case (if 10 \<notin> set line \<and> length bs < MAX_REQUEST_BYTES then end_error else None) of
        Some e \<Rightarrow> Inl e
      | None \<Rightarrow>
          (case from_utf8 line of
             None \<Rightarrow> Inl (Custom InvalidData ''stream did not contain valid UTF-8'')
           | Some s \<Rightarrow> Inr s))"

definition interrupt_of :: "'v groups_request \<Rightarrow> (nat option) option" where
  "interrupt_of rq =
     (case (gq_interrupt_signal rq, gq_interrupt_grace_ms rq) of
        (None, None) \<Rightarrow> Some None
      | (Some Interrupt_int, Some ms) \<Rightarrow> if 0 < ms \<and> ms \<le> MAX_GRACE_MS then Some (Some (unat ms)) else None
      | _ \<Rightarrow> None)"

definition report_of :: "group_state list \<Rightarrow> groups_report" where
  "report_of states =
     \<lparr>gr_groups = map state_report_of states, gr_confirmed = list_all (\<lambda>st. st = Gone) states\<rparr>"

abbreviation reject :: "string \<Rightarrow> groups_answer \<times> u8" where
  "reject reason \<equiv> (Error_line reason, EXIT_BAD_REQUEST)"

definition groups_run ::
  "'w groups_os \<Rightarrow> 'v json \<Rightarrow> platform \<Rightarrow> (str \<Rightarrow> 'v groups_request option) \<Rightarrow> string list \<Rightarrow>
   bytes \<times> io_error option \<Rightarrow> 'w \<Rightarrow> ((groups_answer \<times> u8) \<times> 'w) option" where
  "groups_run os js pf from_str args stdin w =
     (if args \<noteq> [] then Some (reject ''usage'', w)
      else case read_request_line stdin of
        Inl e \<Rightarrow> Some (reject ''unterminated_request'', w)
      | Inr line \<Rightarrow>
          if line = [] \<or> last line \<noteq> 10 then Some (reject ''unterminated_request'', w)
          else case from_str line of
            None \<Rightarrow> Some (reject ''invalid_request'', w)
          | Some rq \<Rightarrow>
              if MAX_GROUPS < length (gq_groups rq) then Some (reject ''too_many_groups'', w)
              else case interrupt_of rq of
                None \<Rightarrow> Some (reject ''invalid_interrupt'', w)
              | Some interrupt \<Rightarrow>
                  if MAX_GRACE_MS < gq_kill_grace_ms rq then Some (reject ''invalid_kill_grace'', w)
                  else
                    let recs = map (parse_identity js pf) (gq_groups rq) in
                    (case gq_op rq of
                       Check \<Rightarrow> Some (observe_all os recs w)
                     | Stop \<Rightarrow> stop os recs interrupt (unat (gq_kill_grace_ms rq)) w)
                    \<bind> (\<lambda>(states, w). Some ((Report_line (report_of states), EXIT_OK), w)))"

section \<open>Linux and macOS\<close>

text \<open>The entries of \<open>read_dir("/proc")\<close>: a name, \<open>None\<close> for one that is not UTF-8, or an error.\<close>

fun scan_entries ::
  "(u32 \<Rightarrow> 'w \<Rightarrow> (io_error + process_record) \<times> 'w) \<Rightarrow> u32 \<Rightarrow> nat \<Rightarrow> (io_error + str option) list \<Rightarrow>
   u32 list \<Rightarrow> 'w \<Rightarrow> (io_error + u32 list) \<times> 'w" where
  "scan_entries rd grp index [] found w = (Inr found, w)"
| "scan_entries rd grp index (entry # entries) found w =
     (if MAX_PROCESSES * 2 < index then (Inl (Custom InvalidData ''process inventory overflow''), w)
      else case entry of
        Inl e \<Rightarrow> (Inl e, w)
      | Inr name \<Rightarrow>
          (case name \<bind> parse_u32 of
             None \<Rightarrow> scan_entries rd grp (Suc index) entries found w
           | Some p \<Rightarrow>
               (case read_live rd p w of
                  (Inr None, w) \<Rightarrow> scan_entries rd grp (Suc index) entries found w
                | (Inr (Some r), w) \<Rightarrow>
                    scan_entries rd grp (Suc index) entries
                      (if pgid (identity r) = grp then found @ [p] else found) w
                | (Inl e, w) \<Rightarrow>
                    if kind e = InvalidData then scan_entries rd grp (Suc index) entries found w
                    else (Inl e, w))))"

definition group_members_linux ::
  "('w \<Rightarrow> (io_error + (io_error + str option) list) \<times> 'w) \<Rightarrow> (u32 \<Rightarrow> 'w \<Rightarrow> (io_error + process_record) \<times> 'w) \<Rightarrow>
   u32 \<Rightarrow> 'w \<Rightarrow> (io_error + u32 list) \<times> 'w" where
  "group_members_linux read_proc rd grp w =
     (case read_proc w of
        (Inl e, w) \<Rightarrow> (Inl e, w)
      | (Inr entries, w) \<Rightarrow> scan_entries rd grp 0 entries [] w)"

text \<open>The other variant of \<open>StartTime\<close> does not exist on either platform; it is never from an
  earlier boot here.\<close>

definition from_earlier_boot_linux :: "'w fs_ops \<Rightarrow> start_time \<Rightarrow> 'w \<Rightarrow> (io_error + bool) \<times> 'w" where
  "from_earlier_boot_linux fs st w =
     (case st of
        Linux boot_id ticks \<Rightarrow>
          (case read_to_string fs ''/proc/sys/kernel/random/boot_id'' w of
             (Inl e, w) \<Rightarrow> (Inl e, w)
           | (Inr current, w) \<Rightarrow> (Inr (trim_str current \<noteq> boot_id), w))
      | Macos s us \<Rightarrow> (Inr False, w))"

definition from_earlier_boot_macos ::
  "('w \<Rightarrow> (int + u64 \<times> u64) \<times> 'w) \<Rightarrow> start_time \<Rightarrow> 'w \<Rightarrow> (io_error + bool) \<times> 'w" where
  "from_earlier_boot_macos boottime st w =
     (case st of
        Macos s us \<Rightarrow>
          (case boottime w of
             (Inl e, w) \<Rightarrow> (Inl (Os e), w)
           | (Inr (bs, bus), w) \<Rightarrow> (Inr (s < bs \<or> s = bs \<and> us < bus), w))
      | Linux b t \<Rightarrow> (Inr False, w))"

section \<open>Refreshing\<close>

lemma length_observe_all: "length (fst (observe_all os recs w)) = length recs"
  by (induction recs arbitrary: w) (simp_all add: Let_def case_prod_beta)

lemma length_refresh: "length (fst (refresh os rs w)) = length rs"
  by (induction os rs w rule: refresh.induct) (auto simp: Let_def split: prod.splits)

lemma refresh_Gone: "i < length rs \<Longrightarrow> snd (rs ! i) = Gone \<Longrightarrow> fst (refresh os rs w) ! i = Gone"
proof (induction os rs w arbitrary: i rule: refresh.induct)
  case (2 os rec st rs w)
  then show ?case
    by (cases i) (auto simp: Let_def split: prod.splits dest: arg_cong [where f = fst])
qed simp

lemma refresh_Invalid:
  "i < length rs \<Longrightarrow> rs ! i = (Invalid r, Unknown r) \<Longrightarrow> fst (refresh os rs w) ! i = Unknown r"
proof (induction rs arbitrary: i w)
  case (Cons x rs)
  obtain rec st where "x = (rec, st)" by force
  with Cons show ?case by (cases i) (simp_all add: Let_def case_prod_beta observe_def)
qed simp

text \<open>What a later list of states keeps of an earlier one: it is as long, gone stays gone, and an
  entry without an identity keeps its reason.\<close>

definition kept :: "recorded_group list \<Rightarrow> group_state list \<Rightarrow> group_state list \<Rightarrow> bool" where
  "kept recs a b \<longleftrightarrow> length a = length b
     \<and> (\<forall>i<length a. (a ! i = Gone \<longrightarrow> b ! i = Gone)
          \<and> (\<forall>r. recs ! i = Invalid r \<longrightarrow> a ! i = Unknown r \<longrightarrow> b ! i = Unknown r))"

lemma kept_refl [simp]: "kept recs a a"
  by (simp add: kept_def)

lemma kept_trans [trans]: "kept recs a b \<Longrightarrow> kept recs b c \<Longrightarrow> kept recs a c"
  by (simp add: kept_def)

lemma kept_refresh:
  assumes "refresh os (zip recs states) w = (states', w')" "length states = length recs"
  shows "kept recs states states'"
proof -
  have "length states' = length recs"
    using length_refresh [of os "zip recs states" w] assms by simp
  moreover have "states' ! i = Gone" if "i < length recs" "states ! i = Gone" for i
    using refresh_Gone [of i "zip recs states" os w] that assms by simp
  moreover have "states' ! i = Unknown r" if "i < length recs" "recs ! i = Invalid r" "states ! i = Unknown r" for i r
    using refresh_Invalid [of i "zip recs states" r os w] that assms by simp
  ultimately show ?thesis using assms(2) by (simp add: kept_def)
qed

lemma observe_all_Invalid: "i < length recs \<Longrightarrow> recs ! i = Invalid r \<Longrightarrow> fst (observe_all os recs w) ! i = Unknown r"
proof (induction recs arbitrary: i w)
  case (Cons rec recs)
  then show ?case by (cases i) (simp_all add: Let_def case_prod_beta observe_def)
qed simp

section \<open>Invariants of a stop\<close>

text \<open>
  What a property of worlds must survive to hold while groups are stopped on behalf of the
  \<open>known\<close> identities: everything that only looks or waits, and a signal sent right after the read
  that verified its target.
\<close>

locale groups_ops =
  fixes os :: "'w groups_os"
    and P :: "'w \<Rightarrow> bool"
    and known :: "process_identity set"
  assumes read_inv: "P w \<Longrightarrow> P (snd (go_read_process os p w))"
    and boot_inv: "P w \<Longrightarrow> P (snd (go_from_earlier_boot os st w))"
    and inventory_inv: "P w \<Longrightarrow> P (snd (go_group_members os g w))"
    and now_inv: "P w \<Longrightarrow> P (snd (go_now os w))"
    and sleep_inv: "P w \<Longrightarrow> P (go_sleep os d w)"
    and leader_inv: "P w \<Longrightarrow> e \<in> known \<Longrightarrow> gr_read os (pid e) w = (Inr (Some r), w1) \<Longrightarrow>
          identity r = e \<Longrightarrow> \<not> exited r \<Longrightarrow> P (snd (go_kill os (- pid_t (pgid e)) sg w1))"
    and member_inv: "P w \<Longrightarrow> e \<in> known \<Longrightarrow> gr_read os (pid m) w = (Inr (Some r), w1) \<Longrightarrow>
          same_process (identity r) m \<Longrightarrow> pgid (identity r) = pgid e \<Longrightarrow> \<not> exited r \<Longrightarrow>
          pid m \<le> 2147483647 \<Longrightarrow> P (snd (go_kill os (pid_t (pid m)) sg w1))"
begin

lemma read_live_inv: "gr_read os p w = (r, w') \<Longrightarrow> P w \<Longrightarrow> P w'"
  using read_inv [of w p] by (auto simp: read_live_def split: prod.splits sum.splits)

lemma live_members_inv: "P w \<Longrightarrow> P (snd (live_members os g ps live w))"
proof (induction ps arbitrary: live w)
  case (Cons p ps)
  then show ?case
    by (cases "gr_read os p w") (auto split: sum.splits option.splits dest: read_live_inv)
qed simp

lemma members_state_inv: "P w \<Longrightarrow> P (snd (members_state os g w))"
  using inventory_inv [of w g] by (auto simp: members_state_def live_members_inv split: prod.splits sum.splits)

lemma observe_inv: "P w \<Longrightarrow> P (snd (observe os rec w))"
proof (cases rec)
  case (Group e)
  assume P: "P w"
  obtain b w1 where b: "go_from_earlier_boot os (started e) w = (b, w1)" by force
  with boot_inv [OF P, of "started e"] have P1: "P w1" by simp
  obtain r w2 where r: "gr_read os (pid e) w1 = (r, w2)" by force
  with read_live_inv P1 have "P w2" by blast
  with b r P1 Group show ?thesis
    by (auto simp: observe_def members_state_inv split: sum.splits option.splits bool.splits)
qed (simp add: observe_def)

lemma observe_all_inv: "P w \<Longrightarrow> P (snd (observe_all os recs w))"
proof (induction recs arbitrary: w)
  case (Cons rec recs)
  then show ?case using observe_inv [of w rec] by (auto simp: Let_def split: prod.splits) (metis snd_conv)
qed simp

lemma refresh_inv: "P w \<Longrightarrow> P (snd (refresh os rs w))"
proof (induction rs arbitrary: w)
  case (Cons x rs)
  obtain rec st where x: "x = (rec, st)" by force
  define y where "y = (if st \<noteq> Gone then observe os rec w else (st, w))"
  have "P (snd y)" using observe_inv [OF Cons.prems, of rec] Cons.prems by (simp add: y_def)
  with Cons.IH [of "snd y"] show ?case unfolding x refresh.simps y_def [symmetric]
    by (auto simp: Let_def split: prod.splits)
qed simp

lemma signal_members_inv: "P w \<Longrightarrow> e \<in> known \<Longrightarrow> P (signal_members os (pgid e) ms sg w)"
proof (induction ms arbitrary: w)
  case (Cons m ms)
  obtain r w1 where r: "gr_read os (pid m) w = (r, w1)" by force
  then have P1: "P w1" using read_live_inv Cons.prems(1) by blast
  show ?case
    using r P1 Cons member_inv [OF Cons.prems(1,2), of m _ w1 sg]
    by (auto simp: Let_def split: sum.splits option.splits if_splits)
qed simp

lemma signal_led_inv: "P w \<Longrightarrow> e \<in> known \<Longrightarrow> P (signal_group os e Led sg w)"
proof -
  assume P: "P w" and e: "e \<in> known"
  obtain r w1 where r: "gr_read os (pid e) w = (r, w1)" by force
  then have P1: "P w1" using read_live_inv P by blast
  define verified where "verified = (case r of
      Inr (Some leader) \<Rightarrow> identity leader = e \<and> \<not> exited leader | _ \<Rightarrow> False)"
  define k where "k = (if verified then go_kill os (- pid_t (pgid e)) sg w1 else (False, w1))"
  have Pk: "P (snd k)"
    using r P1 leader_inv [OF P e, of _ w1 sg]
    by (auto simp: k_def verified_def split: sum.splits option.splits)
  obtain sent w2 where k: "k = (sent, w2)" by force
  with Pk have P2: "P w2" by simp
  obtain ms w3 where ms: "members_state os (pgid e) w2 = (ms, w3)" by force
  with members_state_inv [OF P2, of "pgid e"] have P3: "P w3" by simp
  then have "P (signal_members os (pgid e) live sg w3)" for live by (rule signal_members_inv [OF _ e])
  moreover have "signal_group os e Led sg w =
      (if sent then w2 else case ms of Leaderless live \<Rightarrow> signal_members os (pgid e) live sg w3 | _ \<Rightarrow> w3)"
    using k by (cases ms) (simp_all add: signal_group_def r verified_def [symmetric] k_def [symmetric] ms Let_def)
  ultimately show ?thesis using P2 P3 by (cases ms) simp_all
qed

lemma signal_group_inv: "P w \<Longrightarrow> e \<in> known \<Longrightarrow> P (signal_group os e st sg w)"
  using signal_led_inv signal_members_inv by (cases st) (simp_all add: signal_group_def)

definition allowed :: "recorded_group list \<Rightarrow> group_state list \<Rightarrow> bool" where
  "allowed recs states \<longleftrightarrow>
     length states = length recs \<and> (\<forall>i<length recs. \<forall>e. recs ! i = Group e \<longrightarrow> states ! i \<noteq> Gone \<longrightarrow> e \<in> known)"

lemma allowed_kept: "allowed recs states \<Longrightarrow> kept recs states states' \<Longrightarrow> allowed recs states'"
  unfolding allowed_def kept_def by metis

lemma signal_present_inv:
  "P w \<Longrightarrow> \<forall>(rec, st)\<in>set rs. \<forall>e. rec = Group e \<longrightarrow> st \<noteq> Gone \<longrightarrow> e \<in> known \<Longrightarrow> P (signal_present os rs sg w)"
proof (induction rs arbitrary: w)
  case (Cons x rs)
  obtain rec st where x: "x = (rec, st)" by force
  show ?case
  proof (cases rec)
    case (Group e)
    have "P (if present st then signal_group os e st sg w else w)"
      using Cons.prems x Group signal_group_inv [of w e st sg] by (cases st) auto
    with Cons x Group show ?thesis by simp
  qed (use Cons x in simp)
qed simp

lemma signal_zip_inv: "P w \<Longrightarrow> allowed recs states \<Longrightarrow> P (signal_present os (zip recs states) sg w)"
  by (rule signal_present_inv) (auto simp: allowed_def in_set_zip)

lemma poll_inv':
  "poll os' recs deadline states w = Some y \<Longrightarrow> os' = os \<Longrightarrow> P w \<Longrightarrow> length states = length recs \<Longrightarrow>
   P (snd y) \<and> kept recs states (fst y)"
proof (induction rule: poll.raw_induct [rotated 1, consumes 1, case_names step])
  case (step again os' recs deadline states w y)
  obtain states1 w1 where r: "refresh os (zip recs states) w = (states1, w1)" by force
  have P1: "P w1" using refresh_inv [OF step(4), of "zip recs states"] r by simp
  have g1: "kept recs states states1" using kept_refresh [OF r step(5)] .
  obtain t w2 where t: "go_now os w1 = (t, w2)" by force
  have P2: "P w2" using now_inv [OF P1] t by simp
  obtain t' w3 where t': "go_now os w2 = (t', w3)" by force
  have P3: "P w3" using now_inv [OF P2] t' by simp
  show ?case
  proof (cases "list_ex present states1 \<and> t < deadline")
    case True
    with step(2,3) r t t' have again: "again os recs deadline states1 (go_sleep os (min POLL (deadline - t')) w3) = Some y"
      by auto
    have "length states1 = length recs" using g1 step(5) by (simp add: kept_def)
    with step(1) [OF again refl sleep_inv [OF P3]] have "P (snd y) \<and> kept recs states1 (fst y)" .
    with g1 show ?thesis using kept_trans by blast
  next
    case False
    with step(2,3) have "y = (states1, w1) \<or> y = (states1, w2)" by (auto simp: r t split: if_splits)
    with P1 P2 g1 show ?thesis by auto
  qed
qed

lemma poll_inv:
  "poll os recs deadline states w = Some (states', w') \<Longrightarrow> P w \<Longrightarrow> length states = length recs \<Longrightarrow>
   P w' \<and> kept recs states states'"
  using poll_inv' by fastforce

lemma run_stages_inv:
  "run_stages os recs stages states w = Some (states', w') \<Longrightarrow> P w \<Longrightarrow> allowed recs states \<Longrightarrow>
   P w' \<and> kept recs states states'"
proof (induction stages arbitrary: states w)
  case (Cons stage stages)
  obtain sg grace where st: "stage = (sg, grace)" by force
  show ?case
  proof (cases "list_ex present states")
    case True
    let ?w1 = "signal_present os (zip recs states) sg w"
    obtain t w2 where t: "go_now os ?w1 = (t, w2)" by force
    have P2: "P w2" using now_inv [OF signal_zip_inv [OF Cons.prems(2,3), of sg]] t by simp
    from True Cons.prems(1) t obtain states1 w3 where
      p: "poll os recs (t + grace) states w2 = Some (states1, w3)"
      and run: "run_stages os recs stages states1 w3 = Some (states', w')"
      by (auto simp: st Let_def split: bind_splits)
    have P3: "P w3" and g1: "kept recs states states1"
      using poll_inv [OF p P2] Cons.prems(3) by (simp_all add: allowed_def)
    from Cons.IH [OF run P3 allowed_kept [OF Cons.prems(3) g1]] g1 show ?thesis
      using kept_trans by blast
  qed (use Cons.prems in \<open>auto simp: st\<close>)
qed auto

lemma stop_inv:
  assumes "P w" "observe_all os recs w = (states, w1)" "allowed recs states"
    and "stop os recs interrupt term w = Some (states', w')"
  shows "P w' \<and> kept recs states states'"
  using run_stages_inv [of recs "stages_of interrupt term" states w1 states' w'] assms observe_all_inv [OF assms(1), of recs]
  by (simp add: stop_def)

end

section \<open>Returning\<close>

text \<open>
  A clock the calls of the system never turn back, that a sleep advances by what it was asked
  for, and that \<open>now\<close> does not run behind.
\<close>

locale polling_clock = monotone_clock "go_now os" "go_sleep os" clock
  for os :: "'w groups_os" and clock :: "'w \<Rightarrow> nat" +
  assumes read_clock: "clock w \<le> clock (snd (go_read_process os p w))"
    and boot_clock: "clock w \<le> clock (snd (go_from_earlier_boot os st w))"
    and inventory_clock: "clock w \<le> clock (snd (go_group_members os g w))"
    and kill_clock: "clock w \<le> clock (snd (go_kill os t sg w))"

context polling_clock
begin

lemma read_live_mono: "gr_read os p w = (r, w') \<Longrightarrow> clock w \<le> clock w'"
  using read_clock [of w p] by (auto simp: read_live_def split: prod.splits sum.splits if_splits)

end

sublocale polling_clock \<subseteq> forward: groups_ops os "\<lambda>w. k \<le> clock w" UNIV for k
proof unfold_locales
  fix w d assume "k \<le> clock w"
  also have "clock w \<le> clock (go_sleep os d w)" using sleep_clock [of w d] by simp
  finally show "k \<le> clock (go_sleep os d w)" .
next
  fix w e r w1 sg assume "k \<le> clock w" "gr_read os (pid e) w = (Inr (Some r), w1)"
  then have "k \<le> clock w1" using read_live_mono order_trans by blast
  then show "k \<le> clock (snd (go_kill os (- pid_t (pgid e)) sg w1))" by (rule order_trans [OF _ kill_clock])
next
  fix w m r w1 sg assume "k \<le> clock w" "gr_read os (pid m) w = (Inr (Some r), w1)"
  then have "k \<le> clock w1" using read_live_mono order_trans by blast
  then show "k \<le> clock (snd (go_kill os (pid_t (pid m)) sg w1))" by (rule order_trans [OF _ kill_clock])
qed (erule order_trans, rule read_clock boot_clock inventory_clock now_mono)+

context polling_clock
begin

lemma poll_returns: "\<exists>r. poll os recs deadline states w = Some r"
proof (induction "deadline - clock w" arbitrary: states w rule: less_induct)
  case less
  obtain states1 w1 where r: "refresh os (zip recs states) w = (states1, w1)" by force
  obtain t w2 where t: "go_now os w1 = (t, w2)" by force
  obtain t' w3 where t': "go_now os w2 = (t', w3)" by force
  show ?case
  proof (cases "list_ex present states1 \<and> t < deadline")
    case True
    let ?w4 = "go_sleep os (min POLL (deadline - t')) w3"
    have "clock w \<le> clock w1" using forward.refresh_inv [of "clock w" w "zip recs states"] r by simp
    moreover have "clock w1 \<le> t" "t \<le> clock w2" using now_clock [of w1] t by simp_all
    moreover have "clock w2 \<le> t'" "t' \<le> clock w3" using now_clock [of w2] t' by simp_all
    moreover have "clock w3 + min POLL (deadline - t') \<le> clock ?w4" by (rule sleep_clock)
    ultimately have "deadline - clock ?w4 < deadline - clock w"
      using True by (auto simp: POLL_def min_def split: if_splits)
    from less [OF this, of states1] show ?thesis
      using True by (subst poll.simps) (simp add: r t t')
  next
    case False
    then show ?thesis by (subst poll.simps) (auto simp: r t)
  qed
qed

lemma run_stages_returns: "\<exists>r. run_stages os recs stages states w = Some r"
proof (induction stages arbitrary: states w)
  case (Cons stage stages)
  obtain sg grace where st: "stage = (sg, grace)" by force
  obtain t w2 where t: "go_now os (signal_present os (zip recs states) sg w) = (t, w2)" by force
  obtain states1 w3 where p: "poll os recs (t + grace) states w2 = Some (states1, w3)"
    using poll_returns [of recs "t + grace" states w2] by auto
  from Cons.IH [of states1 w3] show ?case by (simp add: st t p Let_def)
qed simp

lemma stop_returns: "\<exists>r. stop os recs interrupt term w = Some r"
  using run_stages_returns by (simp add: stop_def split: prod.splits)

end

text \<open>A system with a counter for a clock, which sleeping advances.\<close>

definition timed :: "'w groups_os \<Rightarrow> ('w \<times> nat) groups_os" where
  "timed os =
     \<lparr>go_read_process = (\<lambda>p (w, t). let (r, w) = go_read_process os p w in (r, (w, t))),
      go_from_earlier_boot = (\<lambda>st (w, t). let (r, w) = go_from_earlier_boot os st w in (r, (w, t))),
      go_group_members = (\<lambda>g (w, t). let (r, w) = go_group_members os g w in (r, (w, t))),
      go_kill = (\<lambda>target sg (w, t). let (r, w) = go_kill os target sg w in (r, (w, t))),
      go_now = (\<lambda>(w, t). (t, (w, t))),
      go_sleep = (\<lambda>d (w, t). (go_sleep os d w, t + d))\<rparr>"

interpretation timed: polling_clock "timed os" snd for os :: "'w groups_os"
  by unfold_locales (auto simp: timed_def Let_def split: prod.splits)

section \<open>What the log shows\<close>

datatype group_event = GRead u32 "io_error + process_record" | GKill int int | GOther

definition logging :: "'w groups_os \<Rightarrow> ('w \<times> group_event list) groups_os" where
  "logging os =
     \<lparr>go_read_process = (\<lambda>p (w, l). let (r, w) = go_read_process os p w in (r, (w, GRead p r # l))),
      go_from_earlier_boot = (\<lambda>st (w, l). let (r, w) = go_from_earlier_boot os st w in (r, (w, GOther # l))),
      go_group_members = (\<lambda>g (w, l). let (r, w) = go_group_members os g w in (r, (w, GOther # l))),
      go_kill = (\<lambda>target sg (w, l). let (r, w) = go_kill os target sg w in (r, (w, GKill target sg # l))),
      go_now = (\<lambda>(w, l). let (t, w) = go_now os w in (t, (w, GOther # l))),
      go_sleep = (\<lambda>d (w, l). (go_sleep os d w, GOther # l))\<rparr>"

text \<open>A signal is verified when the event just before it read its target: the recorded leader
  itself, alive, or a live process of the group of a recorded leader.\<close>

definition verified_target :: "process_identity set \<Rightarrow> int \<Rightarrow> group_event list \<Rightarrow> bool" where
  "verified_target known target before =
     (case before of
        GRead p (Inr r) # _ \<Rightarrow>
          \<not> exited r
          \<and> (target = - pid_t (pgid (identity r)) \<and> pid (identity r) = p \<and> identity r \<in> known
             \<or> target = pid_t p \<and> p \<le> 2147483647 \<and> pid (identity r) = p
               \<and> pgid (identity r) \<in> pgid ` known)
      | _ \<Rightarrow> False)"

fun verified_log :: "process_identity set \<Rightarrow> group_event list \<Rightarrow> bool" where
  "verified_log known [] \<longleftrightarrow> True"
| "verified_log known (GKill t sg # l) \<longleftrightarrow> verified_target known t l \<and> verified_log known l"
| "verified_log known (ev # l) \<longleftrightarrow> verified_log known l"

lemma read_logging:
  "gr_read (logging os) p w = (Inr (Some r), w1) \<Longrightarrow> snd w1 = GRead p (Inr r) # snd w"
  by (auto simp: read_live_def logging_def Let_def split: prod.splits sum.splits if_splits)

lemma kill_logging: "snd (snd (go_kill (logging os) t sg w)) = GKill t sg # snd w"
  by (auto simp: logging_def Let_def split: prod.splits)

interpretation logged_os: groups_ops "logging os" "\<lambda>w. verified_log known (snd w)" known
  for os :: "'w groups_os" and known
proof unfold_locales
  fix w w1 :: "'w \<times> group_event list" and e r sg
  assume "verified_log known (snd w)" "e \<in> known" "gr_read (logging os) (pid e) w = (Inr (Some r), w1)"
    "identity r = e" "\<not> exited r"
  then show "verified_log known (snd (snd (go_kill (logging os) (- pid_t (pgid e)) sg w1)))"
    by (auto simp: kill_logging verified_target_def dest!: read_logging)
next
  fix w w1 :: "'w \<times> group_event list" and e m r sg
  assume "verified_log known (snd w)" "e \<in> known" "gr_read (logging os) (pid m) w = (Inr (Some r), w1)"
    "same_process (identity r) m" "pgid (identity r) = pgid e" "\<not> exited r" "pid m \<le> 2147483647"
  then show "verified_log known (snd (snd (go_kill (logging os) (pid_t (pid m)) sg w1)))"
    by (auto simp: kill_logging verified_target_def same_process_def dest!: read_logging)
qed (auto simp: logging_def Let_def split: prod.splits)

section \<open>A fixed process table\<close>

definition group_alive :: "(u32 \<Rightarrow> io_error + process_record) \<Rightarrow> u32 \<Rightarrow> bool" where
  "group_alive table g \<longleftrightarrow> (\<exists>p r. table p = Inr r \<and> pgid (identity r) = g \<and> \<not> exited r)"

definition decided :: "bool \<Rightarrow> group_state \<Rightarrow> bool" where
  "decided b st \<longleftrightarrow> (present st \<longleftrightarrow> b) \<and> (present st \<or> st = Gone)"

lemma scan_entries_table:
  assumes "\<And>p w. rd p w = (table p, w)" "\<And>p e. table p = Inl e \<Longrightarrow> disappeared e"
  shows "index + length names \<le> Suc (2 * MAX_PROCESSES) \<Longrightarrow>
    \<exists>ps. scan_entries rd g index (map Inr names) found w = (Inr ps, w)
      \<and> set ps = set found \<union> {p. \<exists>n\<in>set names. n \<bind> parse_u32 = Some p \<and> (\<exists>r. table p = Inr r \<and> pgid (identity r) = g)}"
proof (induction names arbitrary: index found)
  case (Cons n names)
  have b: "\<not> MAX_PROCESSES * 2 < index" "Suc index + length names \<le> Suc (2 * MAX_PROCESSES)"
    using Cons.prems by simp_all
  show ?case
  proof (cases "n \<bind> parse_u32")
    case None
    with Cons.IH [OF b(2), of found] b(1) show ?thesis by auto
  next
    case (Some p)
    show ?thesis
    proof (cases "table p")
      case (Inl e)
      with Some Cons.IH [OF b(2), of found] b(1) assms show ?thesis by (auto simp: read_live_def)
    next
      case (Inr r)
      with Some Cons.IH [OF b(2), of "if pgid (identity r) = g then found @ [p] else found"] b(1) assms(1)
      show ?thesis by (auto simp: read_live_def)
    qed
  qed
qed simp

lemma live_members_table:
  assumes "\<And>p w. go_read_process os p w = (table p, w)" "\<And>p e. table p = Inl e \<Longrightarrow> disappeared e"
  shows "decided (live \<noteq> [] \<or> (\<exists>p\<in>set ps. \<exists>r. table p = Inr r \<and> pgid (identity r) = g \<and> \<not> exited r))
    (fst (live_members os g ps live w))"
proof (induction ps arbitrary: live)
  case (Cons p ps)
  show ?case
  proof (cases "table p")
    case (Inl e)
    with Cons [of live] assms show ?thesis by (simp add: read_live_def)
  next
    case (Inr r)
    with Cons [of live] Cons [of "live @ [identity r]"] assms(1) show ?thesis by (auto simp: read_live_def)
  qed
qed (simp add: decided_def)

lemma members_decided:
  assumes rd: "\<And>p w. go_read_process os p w = (table p, w)"
    and "\<And>st w. go_from_earlier_boot os st w = (Inr (old st), w)"
    and inv: "go_group_members os = group_members_linux (\<lambda>w. (Inr (map Inr names), w)) (go_read_process os)"
    and len: "length names \<le> 2 * MAX_PROCESSES"
    and listed: "\<And>p r. table p = Inr r \<Longrightarrow> Some (show_nat (unat p)) \<in> set names"
    and gone: "\<And>p e. table p = Inl e \<Longrightarrow> disappeared e"
  shows "decided (group_alive table g) (fst (members_state os g w))"
proof -
  have "0 + length names \<le> Suc (2 * MAX_PROCESSES)" using len by simp
  from scan_entries_table [where rd = "go_read_process os", OF rd gone this] obtain ps where
    ps: "go_group_members os g w = (Inr ps, w)"
      "set ps = {p. \<exists>n\<in>set names. n \<bind> parse_u32 = Some p \<and> (\<exists>r. table p = Inr r \<and> pgid (identity r) = g)}"
    unfolding inv group_members_linux_def by force
  have "p \<in> set ps" if "table p = Inr r" "pgid (identity r) = g" for p r
    using ps(2) that bexI [OF _ listed [OF that(1)], of "\<lambda>n. n \<bind> parse_u32 = Some p"] by auto
  then have "group_alive table g \<longleftrightarrow> (\<exists>p\<in>set ps. \<exists>r. table p = Inr r \<and> pgid (identity r) = g \<and> \<not> exited r)"
    unfolding group_alive_def by blast
  then show ?thesis
    using live_members_table [where os = os, OF rd gone, where live = "[]" and ps = ps and g = g and w = w] ps(1)
    by (simp add: members_state_def)
qed

section \<open>Answers\<close>

definition answered :: "recorded_group list \<Rightarrow> group_state list \<Rightarrow> bool" where
  "answered recs states \<longleftrightarrow>
     length states = length recs \<and> (\<forall>i<length recs. \<forall>r. recs ! i = Invalid r \<longrightarrow> states ! i = Unknown r)"

lemma answered_observe_all: "answered recs (fst (observe_all os recs w))"
  by (simp add: answered_def length_observe_all observe_all_Invalid)

interpretation any_os: groups_ops os "\<lambda>w. True" UNIV for os :: "'w groups_os"
  by unfold_locales simp_all

lemma answered_stop:
  assumes "stop os recs interrupt term w = Some (states, w')"
  shows "answered recs states"
proof -
  obtain states0 w0 where o: "observe_all os recs w = (states0, w0)" by force
  then have a: "answered recs states0" using answered_observe_all by (metis fst_conv)
  then have "kept recs states0 states"
    using any_os.stop_inv [OF TrueI o _ assms] by (simp add: any_os.allowed_def answered_def)
  with a show ?thesis by (simp add: answered_def kept_def)
qed

lemma state_gone: "sr_state (state_report_of st) = ''gone'' \<longleftrightarrow> st = Gone"
  by (cases st) simp_all

lemma groups_run_cases [consumes 1, case_names rejected accepted]:
  assumes "groups_run os js pf from_str args stdin w = Some ((answer, code), w')"
  obtains reason where "answer = Error_line reason" "code = EXIT_BAD_REQUEST" "w' = w"
  | line rq states where "read_request_line stdin = Inr line" "from_str line = Some rq"
    "observe_all os (map (parse_identity js pf) (gq_groups rq)) w = (states, w')
     \<or> (\<exists>interrupt term. stop os (map (parse_identity js pf) (gq_groups rq)) interrupt term w = Some (states, w'))"
    "answer = Report_line (report_of states)" "code = EXIT_OK"
  using assms
  by (auto simp: groups_run_def Let_def split: if_splits sum.splits option.splits bind_splits group_op.splits) blast

section \<open>Properties\<close>


text \<open>A system with one process, which the first signal kills.\<close>

definition mortal_os :: "bool groups_os" where
  "mortal_os =
     \<lparr>go_read_process = (\<lambda>p alive. (if alive then Inr (sample_record p p 1) else Inl (Os ESRCH), alive)),
      go_from_earlier_boot = (\<lambda>st w. (Inr False, w)), go_group_members = (\<lambda>g w. (Inr [g], w)),
      go_kill = (\<lambda>t sg alive. (alive, False)), go_now = (\<lambda>w. (0, w)), go_sleep = (\<lambda>d w. w)\<rparr>"

lemmas logging_mortal = logging_def mortal_os_def read_live_def sample_record_def sample_identity_def
  observe_def members_state_def disappeared_def same_process_def Let_def


text \<open>C20: Observation decides: when every process can be read and \<open>/proc\<close> lists them all, a recorded
  group is reported present exactly when it is of this boot, its pid has not been reused, and
  its group has a live process; otherwise it is reported gone, never unknown.\<close>

theorem observe_decides:
  assumes "\<And>p w. go_read_process os p w = (table p, w)"
    and "\<And>st w. go_from_earlier_boot os st w = (Inr (old st), w)"
    and "go_group_members os = group_members_linux (\<lambda>w. (Inr (map Inr names), w)) (go_read_process os)"
    and "length names \<le> 2 * MAX_PROCESSES"
    and "\<And>p r. table p = Inr r \<Longrightarrow> Some (show_nat (unat p)) \<in> set names"
    and "\<And>p e. table p = Inl e \<Longrightarrow> disappeared e"
  shows "(present (fst (observe os (Group e) w)) \<longleftrightarrow>
        \<not> old (started e) \<and> (\<forall>l. table (pid e) = Inr l \<longrightarrow> same_process (identity l) e) \<and> group_alive table (pgid e))
    \<and> (present (fst (observe os (Group e) w)) \<or> fst (observe os (Group e) w) = Gone)"
proof -
  have m: "decided (group_alive table (pgid e)) (fst (members_state os (pgid e) w))" for w
    using assms by (rule members_decided)
  show ?thesis
  proof (cases "table (pid e)")
    case (Inl x)
    with m [of w] assms(1,2,6) show ?thesis
      by (auto simp: observe_def read_live_def decided_def split: bool.splits)
  next
    case (Inr l)
    have "group_alive table (pgid e)" if "pgid (identity l) = pgid e" "\<not> exited l"
      using Inr that by (auto simp: group_alive_def)
    with Inr m [of w] assms(1,2) show ?thesis
      by (auto simp: observe_def read_live_def decided_def split: bool.splits)
  qed
qed

text \<open>One process beside an entry of \<open>/proc\<close> that is not a pid.\<close>

definition listed_table :: "u32 \<Rightarrow> io_error + process_record" where
  "listed_table p = (if p = 20 then Inr (sample_record 20 20 1) else Inl (Os ESRCH))"

definition listed_os :: "unit groups_os" where
  "listed_os =
     \<lparr>go_read_process = (\<lambda>p w. (listed_table p, w)), go_from_earlier_boot = (\<lambda>st w. (Inr False, w)),
      go_group_members = group_members_linux (\<lambda>w. (Inr (map Inr [Some (str_of ''self''), Some (show_nat 20)]), w))
        (\<lambda>p w. (listed_table p, w)),
      go_kill = (\<lambda>t sg w. (True, w)), go_now = (\<lambda>w. (0, w)), go_sleep = (\<lambda>d w. w)\<rparr>"

theorem observe_decides_witness:
  "present (fst (observe listed_os (Group (sample_identity 20 20)) ()))"
proof -
  have alive: "group_alive listed_table 20"
    by (auto simp: group_alive_def listed_table_def sample_record_def sample_identity_def intro!: exI [of _ 20])
  have "listed_table p = Inr r \<Longrightarrow> Some (show_nat (unat p)) \<in> set [Some (str_of ''self''), Some (show_nat 20)]"
    "listed_table p = Inr r \<Longrightarrow> p = 20 \<and> r = sample_record 20 20 1"
    "listed_table p = Inl e \<Longrightarrow> disappeared e" for p r e
    by (auto simp: listed_table_def disappeared_def split: if_splits)
  note listed = this
  let ?e = "sample_identity 20 20"
  have "present (fst (observe listed_os (Group ?e) ())) \<longleftrightarrow> \<not> False
      \<and> (\<forall>l. listed_table (pid ?e) = Inr l \<longrightarrow> same_process (identity l) ?e) \<and> group_alive listed_table (pgid ?e)"
    by (rule conjunct1 [OF observe_decides [where names = "[Some (str_of ''self''), Some (show_nat 20)]"
          and table = listed_table and old = "\<lambda>st. False"]])
       (use listed(1,3) in \<open>simp_all add: listed_os_def MAX_PROCESSES_def\<close>)
  moreover have "same_process (identity l) ?e" if "listed_table (pid ?e) = Inr l" for l
    using listed(2) [OF that] by (simp add: sample_record_def)
  moreover have "pgid ?e = 20" by (simp add: sample_identity_def)
  ultimately show ?thesis using alive by simp
qed

text \<open>A system where the pid of the leader is taken by another process after the first read.\<close>

definition reused_os :: "nat groups_os" where
  "reused_os =
     \<lparr>go_read_process = (\<lambda>p reads. (Inr \<lparr>identity = \<lparr>pid = p, pgid = 20,
          started = (if reads = 0 then started (sample_identity 20 20) else Linux (str_of ''boot'') 99)\<rparr>,
          ppid = 1, exited = False\<rparr>, Suc reads)),
      go_from_earlier_boot = (\<lambda>st w. (Inr False, w)), go_group_members = (\<lambda>g w. (Inr [20, 21], w)),
      go_kill = (\<lambda>t sg w. (True, w)), go_now = (\<lambda>w. (0, w)), go_sleep = (\<lambda>d w. w)\<rparr>"


text \<open>Groups mode answers every entry: a request that is not accepted is refused with status 2
  before anything is looked at; an accepted one ends with status 0 and a report with one state per
  entry, in order, an entry that names no group is unknown with its reason, and \<open>confirmed\<close> holds
  exactly when every group is gone.\<close>

theorem groups_report_complete:
  assumes "groups_run os js pf from_str args stdin w = Some ((answer, code), w')"
  shows "case answer of
      Error_line reason \<Rightarrow> code = EXIT_BAD_REQUEST \<and> w' = w
    | Report_line rep \<Rightarrow> code = EXIT_OK \<and> (\<exists>line rq. read_request_line stdin = Inr line \<and> from_str line = Some rq
        \<and> length (gr_groups rep) = length (gq_groups rq)
        \<and> (gr_confirmed rep \<longleftrightarrow> (\<forall>s\<in>set (gr_groups rep). sr_state s = ''gone''))
        \<and> (\<forall>i<length (gq_groups rq). \<forall>reason. parse_identity js pf (gq_groups rq ! i) = Invalid reason \<longrightarrow>
             gr_groups rep ! i = \<lparr>sr_state = ''unknown'', sr_reason = Some reason\<rparr>))"
  using assms
proof (cases rule: groups_run_cases)
  case (rejected reason)
  then show ?thesis by simp
next
  case (accepted line rq states)
  let ?recs = "map (parse_identity js pf) (gq_groups rq)"
  have "answered ?recs states" using accepted(3) answered_observe_all answered_stop
    by (metis fst_conv)
  with accepted show ?thesis
    by (auto simp: answered_def report_of_def list_all_iff state_gone)
qed

theorem groups_report_complete_witness:
  "\<exists>rep. groups_run mortal_os \<lparr>js_get = (\<lambda>v k. None), js_u64 = (\<lambda>v. None), js_str = (\<lambda>v. None)\<rparr> OnLinux
      (\<lambda>line. Some \<lparr>gq_op = Check, gq_groups = [()], gq_interrupt_signal = None, gq_interrupt_grace_ms = None,
         gq_kill_grace_ms = 5000\<rparr>) [] ([123, 125, 10], None) True = Some ((Report_line rep, EXIT_OK), True)
     \<and> \<not> gr_confirmed rep"
proof -
  let ?js = "\<lparr>js_get = (\<lambda>v k. None), js_u64 = (\<lambda>v. None), js_str = (\<lambda>v. None)\<rparr> :: unit json"
  let ?rq = "\<lparr>gq_op = Check, gq_groups = [()], gq_interrupt_signal = None, gq_interrupt_grace_ms = None,
         gq_kill_grace_ms = 5000\<rparr>"
  have p: "parse_identity ?js OnLinux () = Invalid ''invalid_identity''"
    by (simp add: parse_identity_def positive_def)
  have "groups_run mortal_os ?js OnLinux (\<lambda>line. Some ?rq) [] ([123, 125, 10], None) True
      = Some ((Report_line (report_of [Unknown ''invalid_identity'']), EXIT_OK), True)"
    by (simp add: groups_run_def read_request_line_def from_utf8_def MAX_REQUEST_BYTES_def MAX_GROUPS_def
        interrupt_of_def MAX_GRACE_MS_def p observe_def)
  from groups_report_complete [OF this] this show ?thesis by (auto simp: report_of_def)
qed

text \<open>C36: Stopping returns: on any system whose calls do not turn its clock back and whose sleeps
  take the time asked for, \<open>stop\<close> ends whatever the processes do, even if a group survives every
  signal.\<close>

theorem stop_always_returns:
  assumes "polling_clock os clock"
  shows "\<exists>states w'. stop os recs interrupt term w = Some (states, w')"
  using polling_clock.stop_returns [OF assms, of recs interrupt "term" w] by auto

text \<open>A system with one process that nothing kills.\<close>

definition immortal_os :: "unit groups_os" where
  "immortal_os =
     \<lparr>go_read_process = (\<lambda>p w. (Inr (sample_record p p 1), w)), go_from_earlier_boot = (\<lambda>st w. (Inr False, w)),
      go_group_members = (\<lambda>g w. (Inr [g], w)), go_kill = (\<lambda>t sg w. (True, w)), go_now = (\<lambda>w. (0, w)),
      go_sleep = (\<lambda>d w. w)\<rparr>"

theorem stop_always_returns_witness:
  "\<exists>states w'. stop (timed immortal_os) [Group (sample_identity 20 20)] (Some 100) 1000 ((), 0) = Some (states, w')"
  by (rule stop_always_returns [OF timed.polling_clock_axioms])

end
