(* ===== verification/Shim.thy ===== *)
theory Shim
  imports StartupReturns ChildInput Lock GroupsMode
begin

text \<open>
  The process: the choice of the mode by \<open>main\<close> of \<open>native/forcola_shim/src/main.rs\<close>, and the monitor
  of the BEAM's end of the output, \<open>PeerMonitor\<close> of \<open>native/forcola_shim/src/supervisor.rs\<close>, on Linux.
\<close>

section \<open>The monitor of the peer\<close>

definition POLLERR :: u16 where "POLLERR = 0x08"
definition POLLHUP :: u16 where "POLLHUP = 0x10"
definition POLLNVAL :: u16 where "POLLNVAL = 0x20"

record peer_monitor =
  pm_fd :: nat
  pm_probe_failed :: bool

text \<open>\<open>poll\<close> on one descriptor returns an error number, or its result and the events; \<open>eprintln\<close> is
  the second operation.\<close>

record 'w peer_os =
  pe_poll :: "nat \<Rightarrow> 'w \<Rightarrow> (int + nat \<times> u16) \<times> 'w"
  pe_print :: "string \<Rightarrow> 'w \<Rightarrow> 'w"

definition peer_new :: "nat \<Rightarrow> io_error + peer_monitor" where
  "peer_new fd = Inr \<lparr>pm_fd = fd, pm_probe_failed = False\<rparr>"

definition peer_monitor :: "'w peer_os \<Rightarrow> (io_error \<Rightarrow> string) \<Rightarrow> nat \<Rightarrow> 'w \<Rightarrow> peer_monitor option \<times> 'w" where
  "peer_monitor os display fd w =
     (case peer_new fd of
        Inr m \<Rightarrow> (Some m, w)
      | Inl e \<Rightarrow>
          (None, pe_print os (''forcola_shim: peer hang-up monitor unavailable, relying on stdin EOF: '' @ display e) w))"

unbundle bit_operations_syntax

definition peer_probe :: "'w peer_os \<Rightarrow> peer_monitor \<Rightarrow> 'w \<Rightarrow> (io_error + bool) \<times> 'w" where
  "peer_probe os m w =
     (case pe_poll os (pm_fd m) w of
        (Inl e, w) \<Rightarrow> (Inl (Os e), w)
      | (Inr (n, revents), w) \<Rightarrow> (Inr (0 < n \<and> revents AND (POLLERR OR POLLHUP OR POLLNVAL) \<noteq> 0), w))"

definition peer_evaluate ::
  "'w peer_os \<Rightarrow> (io_error \<Rightarrow> string) \<Rightarrow> io_error + bool \<Rightarrow> peer_monitor \<Rightarrow> 'w \<Rightarrow> bool \<times> peer_monitor \<times> 'w" where
  "peer_evaluate os display probe m w =
     (case probe of
        Inr hung_up \<Rightarrow> (hung_up, m, w)
      | Inl e \<Rightarrow>
          if kind e = Interrupted then (False, m, w)
          else (False, m\<lparr>pm_probe_failed := True\<rparr>,
            if pm_probe_failed m then w
            else pe_print os (''forcola_shim: peer hang-up probe failed, relying on stdin EOF: '' @ display e) w))"

definition disconnected :: "'w peer_os \<Rightarrow> (io_error \<Rightarrow> string) \<Rightarrow> peer_monitor \<Rightarrow> 'w \<Rightarrow> bool \<times> peer_monitor \<times> 'w" where
  "disconnected os display m w = (case peer_probe os m w of (probe, w) \<Rightarrow> peer_evaluate os display probe m w)"

text \<open>The scans of a session ask again and again.\<close>

fun scans :: "'w peer_os \<Rightarrow> (io_error \<Rightarrow> string) \<Rightarrow> nat \<Rightarrow> peer_monitor \<Rightarrow> 'w \<Rightarrow> bool list \<times> peer_monitor \<times> 'w" where
  "scans os display 0 m w = ([], m, w)"
| "scans os display (Suc n) m w =
     (case disconnected os display m w of
        (b, m, w) \<Rightarrow> (case scans os display n m w of (bs, m, w) \<Rightarrow> (b # bs, m, w)))"

text \<open>A peer whose polls are a script, and the lines it printed.\<close>

definition scripted :: "((int + nat \<times> u16) list \<times> string list) peer_os" where
  "scripted = \<lparr>pe_poll = (\<lambda>fd (rs, l). case rs of [] \<Rightarrow> (Inr (0, 0), ([], l)) | r # rs \<Rightarrow> (r, (rs, l))),
     pe_print = (\<lambda>s (rs, l). (rs, l @ [s]))\<rparr>"

fun hang_up :: "int + nat \<times> u16 \<Rightarrow> bool" where
  "hang_up (Inl e) \<longleftrightarrow> False"
| "hang_up (Inr (n, revents)) \<longleftrightarrow> 0 < n \<and> (bit revents 3 \<or> bit revents 4 \<or> bit revents 5)"

lemma hang_up_mask: "(revents :: u16) AND (POLLERR OR POLLHUP OR POLLNVAL) \<noteq> 0 \<longleftrightarrow> bit revents 3 \<or> bit revents 4 \<or> bit revents 5"
proof -
  have m: "POLLERR OR POLLHUP OR POLLNVAL = (0x38 :: u16)" by (simp add: POLLERR_def POLLHUP_def POLLNVAL_def)
  have p: "bit (push_bit 3 (mask 3) :: u16) n \<longleftrightarrow> n = 3 \<or> n = 4 \<or> n = 5" for n
    unfolding bit_push_bit_iff bit_mask_iff by auto
  have e: "(push_bit 3 (mask 3) :: u16) = 0x38" by (simp add: push_bit_eq_mult mask_eq_exp_minus_1)
  note b = p [unfolded e]
  have iff: "x \<noteq> 0 \<longleftrightarrow> (\<exists>n. bit x n)" for x :: u16
    using bit_eqI [of x 0] by auto
  show ?thesis unfolding m iff bit_and_iff b by auto
qed

lemma scripted_step:
  "disconnected scripted display m (r # rs, l) =
     (hang_up r,
      if (\<exists>e. r = Inl e \<and> kind (Os e) \<noteq> Interrupted) then m\<lparr>pm_probe_failed := True\<rparr> else m,
      (rs, case r of
         Inl e \<Rightarrow> if kind (Os e) = Interrupted \<or> pm_probe_failed m then l
           else l @ [''forcola_shim: peer hang-up probe failed, relying on stdin EOF: '' @ display (Os e)]
       | Inr _ \<Rightarrow> l))"
  by (cases r) (auto simp: disconnected_def peer_probe_def peer_evaluate_def scripted_def hang_up_mask split: prod.splits)

text \<open>The peer is said to be gone exactly when a poll shows a hang-up, never for a failed poll; of
  all the failures in a session at most one is printed.\<close>

lemma peer_errors_are_not_hangups:
  "scans scripted display (length rs) m (rs, l) = (bs, m', (rs', l')) \<Longrightarrow>
   bs = map hang_up rs \<and> rs' = [] \<and> length l' \<le> length l + (if pm_probe_failed m then 0 else 1)"
proof (induction rs arbitrary: m l bs)
  case (Cons r rs)
  obtain m1 l1 where d: "disconnected scripted display m (r # rs, l) = (hang_up r, m1, (rs, l1))"
    and l1: "length l1 + (if pm_probe_failed m1 then 0 else 1) \<le> length l + (if pm_probe_failed m then 0 else 1)"
    unfolding scripted_step by (cases r) auto
  obtain bs1 where s: "scans scripted display (length rs) m1 (rs, l1) = (bs1, m', (rs', l'))" "bs = hang_up r # bs1"
    using Cons.prems d by (auto split: prod.splits)
  from Cons.IH [OF s(1)] s(2) l1 show ?case by auto
qed simp

section \<open>The modes\<close>

text \<open>\<open>lock\<close> and \<open>groups\<close> are chosen by the first argument and get the others; anything else is a
  session on standard input and output, which fails with an I/O error. A groups run prints its
  answer, which is part of the result.\<close>

definition EXIT_SUCCESS :: u8 where "EXIT_SUCCESS = 0"
definition EXIT_FAILURE :: u8 where "EXIT_FAILURE = 1"

definition shim_main ::
  "'w lock_os \<Rightarrow> ('w groups_os \<times> 'v json \<times> platform \<times> (str \<Rightarrow> 'v groups_request option)) \<Rightarrow> 'w session_os \<Rightarrow>
   string list \<Rightarrow> bytes \<times> io_error option \<Rightarrow> stream \<Rightarrow> events_rx \<Rightarrow> 'w \<Rightarrow> ((groups_answer option \<times> u8) \<times> 'w) option" where
  "shim_main lo gs so args line stdin rx w =
     (if args \<noteq> [] \<and> hd args = ''lock'' then
        lock_run lo (tl args) w \<bind> (\<lambda>(code, w). Some ((None, code), w))
      else if args \<noteq> [] \<and> hd args = ''groups'' then
        (case gs of (os, js, pf, from_str) \<Rightarrow>
           groups_run os js pf from_str (tl args) line w \<bind> (\<lambda>((answer, code), w). Some ((Some answer, code), w)))
      else
        run so True stdin rx w \<bind> (\<lambda>(r, w). Some ((None, if isl r then EXIT_FAILURE else EXIT_SUCCESS), w)))"

end
