(* ===== verification/Trace.thy ===== *)
theory Trace
  imports Startup
begin

text \<open>
  A whole session, \<open>run\<close>, by its log: what it writes and does from the first frame to the EXIT
  report, in the order it does so, whatever the input, the child and the system do.
\<close>

section \<open>The log of the supervision\<close>

definition signals :: "startup_event list \<Rightarrow> bool" where
  "signals evs \<longleftrightarrow> (\<forall>ev\<in>set evs. \<exists>g sg. ev = Signalled g sg)"

lemma signals_simps [simp]: "signals []" "signals (sigs @ [Signalled g sg]) = signals sigs"
  by (auto simp: signals_def)

text \<open>While a session is supervised its log grows by signals only.\<close>

definition signalled_since :: "startup_event list \<Rightarrow> 'w \<times> startup_event list \<Rightarrow> bool" where
  "signalled_since base s \<longleftrightarrow> (\<exists>sigs. snd s = base @ sigs \<and> signals sigs)"

lemma signalled_since_same: "signalled_since (snd s) s"
  by (simp add: signalled_since_def exI [of _ "[]"])

lemma signalled_since_log: "signalled_since base s \<Longrightarrow> snd s' = snd s \<Longrightarrow> signalled_since base s'"
  by (simp add: signalled_since_def)

lemma signalled_since_kill:
  assumes "signalled_since base s"
  shows "signalled_since base (snd (po_kill_group (sn_proc (recorded_session os)) g sg s))"
proof -
  from assms obtain sigs where "snd s = base @ sigs" "signals sigs" by (auto simp: signalled_since_def)
  then have "snd (snd (po_kill_group (sn_proc (recorded_session os)) g sg s)) = base @ (sigs @ [Signalled g sg])"
    "signals (sigs @ [Signalled g sg])" by simp_all
  then show ?thesis unfolding signalled_since_def by blast
qed

interpretation supervised: track_world "sn_track (recorded_session os)" "signalled_since base"
  for os :: "'w session_os" and base
  by unfold_locales
     (erule signalled_since_kill signalled_since_log,
       simp add: recorded_defs Let_def case_prod_beta)+

interpretation reported: sup_quiet "tk_sup (sn_track (recorded_session os))" "\<lambda>s. snd s = x" for os :: "'w session_os" and x
  by unfold_locales (auto simp: recorded_defs Let_def split: prod.splits)

lemma write_exit_log: "snd (su_write_exit (tk_sup (sn_track (recorded_session os))) rep s) = snd s @ [Reported rep]"
  by (simp add: recorded_defs Let_def case_prod_beta)

lemma delivered_log: "snd (snd (tk_delivered (sn_track (recorded_session os)) s)) = snd s"
  by (simp add: recorded_defs Let_def case_prod_beta)

lemma drain_inbound_log:
  "snd (snd (drain_inbound_until_closed (tk_sup (sn_track (recorded_session os))) se rx s)) = snd s"
proof (induction rx arbitrary: s)
  case Nil
  show ?case using reported.peer_disconnected_inv [of s "snd s" os se] by (simp add: Let_def case_prod_beta)
next
  case (Cons r rx)
  obtain gone s1 where p: "peer_disconnected (tk_sup (sn_track (recorded_session os))) se s = (gone, s1)"
    by (metis prod.collapse)
  have "snd s1 = snd s" using reported.peer_disconnected_inv [of s "snd s" os se] p by simp
  with Cons p show ?case by (cases gone) (simp_all split: received.split event.split)
qed

lemma linger_log: "snd (linger (recorded_session os) se gone rx s) = snd s"
  by (simp add: linger_def drain_inbound_log)

lemma supervise_child_log:
  assumes "supervise_child (sn_track (recorded_session os)) se child rx tracker s = Some (gone, rx', s')"
  shows "\<exists>sigs ends. snd s' = snd s @ sigs @ ends \<and> signals sigs
    \<and> (ends = [] \<and> gone \<or> (\<exists>rep. ends = [Reported rep]))"
proof -
  let ?os = "sn_track (recorded_session os)"
  have "gone \<and> signalled_since (snd s) s' \<or> (\<exists>rep sigs. snd s' = snd s @ sigs @ [Reported rep] \<and> signals sigs)"
  proof (cases tracker)
    case None
    with assms have "supervise (tk_sup ?os) se rx s = Some (gone, rx', s')" by (simp add: supervise_child_def)
    note inv = supervised.supervise_inv [OF this signalled_since_same]
    show ?thesis
    proof (cases gone)
      case True
      with inv show ?thesis by simp
    next
      case False
      with inv obtain rep s1 where "signalled_since (snd s) s1" "s' = su_write_exit (tk_sup ?os) rep s1" by auto
      moreover from this(2) have "snd s' = snd s1 @ [Reported rep]" by (simp only: write_exit_log)
      ultimately show ?thesis by (auto simp: signalled_since_def)
    qed
  next
    case (Some tr)
    with assms obtain ts where ts: "supervise_tracked ?os se child rx (tr\<lparr>world := s\<rparr>) = Some (gone, rx', ts)" "s' = ts_world ts"
      by (auto simp: supervise_child_def split: bind_splits)
    have "signalled_since (snd s) (world (tr\<lparr>world := s\<rparr>))" using signalled_since_same by simp
    from supervised.supervise_tracked_inv [OF ts(1) this] consider "gone" "signalled_since (snd s) s'"
      | rep s1 where "signalled_since (snd s) s1" "s' = snd (tk_delivered ?os (su_write_exit (tk_sup ?os) rep s1))"
      unfolding ts(2) by blast
    then show ?thesis
    proof cases
      case 2
      from 2(2) have "snd s' = snd s1 @ [Reported rep]" by (simp only: delivered_log write_exit_log)
      with 2(1) show ?thesis by (auto simp: signalled_since_def)
    qed blast
  qed
  then show ?thesis
  proof
    assume "gone \<and> signalled_since (snd s) s'"
    then obtain sigs where "snd s' = snd s @ sigs @ []" "signals sigs" by (auto simp: signalled_since_def)
    with \<open>gone \<and> _\<close> show ?thesis by blast
  next
    assume "\<exists>rep sigs. snd s' = snd s @ sigs @ [Reported rep] \<and> signals sigs"
    then show ?thesis by blast
  qed
qed

section \<open>The log of a session\<close>

text \<open>The answer to a HELLO, if there was one.\<close>

definition answered :: "startup_event list \<Rightarrow> bool" where
  "answered cs \<longleftrightarrow> cs = [] \<or> (\<exists>b. cs = [Wrote TAG_CAPABILITIES b])"

lemma handshake_answered: "handshake os stdin selected first rest cs \<Longrightarrow> answered cs"
  by (auto simp: handshake_def answered_def)

text \<open>What follows the start of a child that is given up: nothing but its introduction, what puts it
  down, and an ERROR frame unless the session ends with an I/O error; only with such an error may the
  child be left as it is.\<close>

definition given_up_log :: "bool \<Rightarrow> startup_event list \<Rightarrow> bool" where
  "given_up_log io_failed evs \<longleftrightarrow>
     (\<exists>child intro ks es. evs = intro @ ks @ es \<and> introductions intro \<and> (put_down child ks \<or> ks = [] \<and> io_failed)
        \<and> at_most_error es \<and> (io_failed \<longrightarrow> es = []))"

text \<open>What follows the start of a child that is supervised.\<close>

definition supervised_log :: "spawn_request \<Rightarrow> startup_event list \<Rightarrow> bool" where
  "supervised_log request evs \<longleftrightarrow>
     (\<exists>selected ch rest b sigs ends.
        evs = introduced selected b @ map Started (session_threads request ch (sel_track_descendants selected) rest) @ sigs @ ends
        \<and> signals sigs \<and> (ends = [] \<or> (\<exists>rep. ends = [Reported rep])))"

lemma given_up_start:
  assumes "start_session (recorded_session os) peer selected request prepared ch rest s = Some (Return x, s')"
    and "prepared \<noteq> None \<longleftrightarrow> sel_track_descendants selected"
  shows "\<exists>evs. snd s' = snd s @ evs \<and> given_up_log (isl x) evs"
proof -
  from start_session_log [OF assms] obtain intro ks es where
    log: "snd s' = snd s @ intro @ ks @ es" and intro: "introductions intro" "at_most_error es" "isl x \<longrightarrow> es = []"
    and ks: "put_down (st_child ch) ks \<or> ks = [] \<and> isl x"
    unfolding step_result.case by blast
  have "given_up_log (isl x) (intro @ ks @ es)"
    unfolding given_up_log_def using intro ks by blast
  with log show ?thesis by blast
qed

lemma supervised_start:
  assumes "start_session (recorded_session os) peer selected request prepared ch rest s = Some (Go (se, tracker), s1)"
    and "prepared \<noteq> None \<longleftrightarrow> sel_track_descendants selected"
    and "supervise_child (sn_track (recorded_session os)) se (st_child ch) rx tracker s1 = Some (gone, rx', s2)"
  shows "\<exists>evs. snd s2 = snd s @ evs \<and> supervised_log request evs"
proof -
  from supervise_child_log [OF assms(3)] obtain sigs ends where
    l: "snd s2 = snd s1 @ sigs @ ends" "signals sigs" "ends = [] \<or> (\<exists>rep. ends = [Reported rep])" by blast
  from start_session_log [OF assms(1,2)] obtain b where
    b: "snd s1 = snd s @ introduced selected b @ map Started (session_threads request ch (sel_track_descendants selected) rest)"
    by auto
  define evs where "evs = introduced selected b
      @ map Started (session_threads request ch (sel_track_descendants selected) rest) @ sigs @ ends"
  have "supervised_log request evs" unfolding supervised_log_def evs_def using l(2,3) by blast
  moreover have "snd s2 = snd s @ evs" using l(1) b by (simp add: evs_def)
  ultimately show ?thesis by blast
qed

text \<open>Which reports each of them can hold.\<close>

lemma no_exit_report:
  "answered cs \<Longrightarrow> Reported rep \<notin> set cs" "at_most_error es \<Longrightarrow> Reported rep \<notin> set es"
  "given_up_log b evs \<Longrightarrow> Reported rep \<notin> set evs"
  by (fastforce simp: answered_def at_most_error_def given_up_log_def introductions_def put_down_def)+

lemma no_error_frame:
  "answered cs \<Longrightarrow> Wrote TAG_ERROR b \<notin> set cs" "supervised_log request evs \<Longrightarrow> Wrote TAG_ERROR b \<notin> set evs"
  by (auto simp: answered_def supervised_log_def introduced_def signals_def TAG_ERROR_def TAG_CAPABILITIES_def
      TAG_SPAWNED_def TAG_TRACKED_def split: if_splits)

text \<open>C5: A session ends in one of three ways, told apart by its log: refused, with no child; given
  up, with a child that ran, was introduced at most, and then was put down, and at most one ERROR
  frame after that; or supervised, when the introduction, the threads and signals to groups follow
  the start of the child in this order and at most one EXIT report comes last. The child that runs is
  that of a request which was read and accepted. No session writes both an ERROR and an EXIT, none
  goes on after either, and one that ends with an I/O error writes neither. The frames the threads
  write and the signals a tracker checks are not part of this log.\<close>

theorem session_trace:
  assumes "run (recorded_session os) peer stdin rx (w, []) = Some (r, (w', l))"
  shows "\<exists>cs. answered cs \<and>
      ((\<exists>es. l = cs @ es \<and> at_most_error es \<and> (isl r \<longrightarrow> es = []))
       \<or> (\<exists>bs request evs. sn_request os bs = Inr request \<and> interrupt_ok request
           \<and> l = cs @ [Running (argv request)] @ evs
           \<and> (given_up_log (isl r) evs \<or> r = Inr () \<and> supervised_log request evs)))"
proof -
  let ?os = "recorded_session os"
  obtain v rest s where o: "open_session ?os (supported_features ?os) stdin (w, []) = (v, rest, s)" by (metis prod.collapse)
  show ?thesis
  proof (cases v)
    case (Return x)
    with assms o have "r = x" "s = (w', l)" by (simp_all add: run_def run_with_capabilities_def)
    with open_session_log [OF o] Return show ?thesis by (auto simp: answered_def)
  next
    case (Go sv)
    then obtain selected request prepared ch where v: "v = Go (selected, request, prepared, ch)" by (cases sv) auto
    from open_session_log [OF o] obtain f cs where hs: "handshake os stdin selected (Some f) rest cs"
      and req: "sn_request os (payload f) = Inr request" "interrupt_ok request"
      and prepared: "prepared \<noteq> None \<longleftrightarrow> sel_track_descendants selected" and log: "snd s = cs @ [Running (argv request)]"
      unfolding v step_result.case prod.case snd_conv append_Nil by blast
    note cs = handshake_answered [OF hs] prepared log
    from assms o v obtain v1 s1 where st: "start_session ?os peer selected request prepared ch rest s = Some (v1, s1)"
      by (auto simp: run_def run_with_capabilities_def split: bind_splits)
    note drop = drop_cgroup_view [OF recorded_fs]
    have "\<exists>evs. l = snd s @ evs \<and> (given_up_log (isl r) evs \<or> r = Inr () \<and> supervised_log request evs)"
    proof (cases v1)
      case (Return x)
      with assms o v st have "r = x" "l = snd s1"
        using drop [of os "st_cgroup ch" s1] by (auto simp: run_def run_with_capabilities_def)
      with given_up_start [OF st [unfolded Return] cs(2)] show ?thesis by blast
    next
      case (Go p)
      then obtain se tracker where p: "v1 = Go (se, tracker)" by (cases p) auto
      with assms o v st obtain gone rx' s2 where
        sup: "supervise_child (sn_track ?os) se (st_child ch) rx tracker s1 = Some (gone, rx', s2)"
        and "r = Inr ()" "(w', l) = drop_cgroup (so_fs (sn_spawn ?os)) (st_cgroup ch) (linger ?os se gone rx' s2)"
        by (auto simp: run_def run_with_capabilities_def split: bind_splits)
      moreover from this(3) have "l = snd s2"
        using drop [of os "st_cgroup ch"] linger_log [of os se gone rx' s2] by (metis snd_conv)
      ultimately show ?thesis using supervised_start [OF st [unfolded p] cs(2) sup] by blast
    qed
    then obtain evs where "l = cs @ [Running (argv request)] @ evs"
      "given_up_log (isl r) evs \<or> r = Inr () \<and> supervised_log request evs" using cs(3) by auto
    with cs(1) req show ?thesis by blast
  qed
qed

text \<open>A session whose child exits: SPAWNED, the threads, the kill sequence and the report.\<close>

abbreviation sample_exit :: events_rx where
  "sample_exit \<equiv> [Got (ChildExited \<lparr>oc_status = Some 0, oc_signal = None\<rparr>)]"

abbreviation sample_supervised :: session where
  "sample_supervised \<equiv> session_of True (default_request [''true'']) (sample_child 3) 2"

lemma sample_session_supervised:
  "\<exists>rep. supervise_child (sn_track (sample_shim 3 f)) sample_supervised 3 sample_exit None ((), l)
     = Some (False, [], ((), l @ [Signalled 3 SIGTERM, Reported rep]))"
proof -
  let ?os = "tk_sup (sn_track (sample_shim 3 f))"
  have calls: "po_now (su_proc ?os) ((), l) = (0, ((), l))" "po_test_group (su_proc ?os) g ((), l) = (Inl ESRCH, ((), l))"
    "po_kill_group (su_proc ?os) g sg ((), l) = (Inr (), ((), l @ [Signalled g sg]))" "su_close_input ?os ((), l) = ((), l)"
    "su_pump_done ?os d ((), l) = (PumpDone, ((), l))" "su_write_exit ?os rep ((), l) = ((), l @ [Reported rep])" for g sg l d rep
    by (simp_all add: recorded_defs noting_def sample_start_defs Let_def case_prod_beta)
  have dead: "group_dead (su_proc ?os) g ((), l) = (True, ((), l))" for g l
    by (simp add: group_dead_def group_alive_def calls)
  have "kill_group (su_proc ?os) 3 5000 None None ((), l) = Some (True, ((), l @ [Signalled 3 SIGTERM]))" for l
    by (simp add: kill_group_def terminate_group_def wait_until_def calls dead wait_loop.simps kill_backstop_def)
  moreover have "drain_pumps ?os 2 ((), l) = (True, ((), l))" for l
    by (simp add: drain_pumps_def calls numeral_2_eq_2 OUTPUT_DRAIN_GRACE_def)
  ultimately show ?thesis
    by (simp add: supervise_child_def supervise_def session_of_def default_request_def default_kill_grace_ms_def
        cleanup_group_def sup_start_def calls finish_session_def on_credits_def on_credit_def teardown_cgroup_def
        drain_output_def Let_def)
qed

theorem session_trace_witness:
  "\<exists>l cs evs rep. run (sample_shim 3 ''spawn_identity_v1'') True sample_stdin sample_exit ((), []) = Some (Inr (), ((), l))
   \<and> answered cs \<and> l = cs @ [Running [''true'']] @ evs \<and> supervised_log (default_request [''true'']) evs
   \<and> last l = Reported rep"
proof -
  let ?os = "sample_shim 3 ''spawn_identity_v1''"
  have argv: "argv (default_request [''true'']) = [''true'']" by (simp add: default_request_def)
  obtain s where o: "open_session ?os (supported_features ?os) sample_stdin ((), [])
      = (Go (sample_selected, default_request [''true''], None, sample_child 3), [], s)"
    using sample_open [of 3] by blast
  obtain x s' where st: "start_session ?os True sample_selected (default_request [''true'']) None (sample_child 3) [] s = Some (Go x, s')"
    using sample_started [of "snd s"] by (cases s) auto
  obtain se tracker where x: "x = (se, tracker)" by (cases x)
  have "case Go x of Go (se, tracker) \<Rightarrow> (tracker \<noteq> None \<longleftrightarrow> False) \<and> se = sample_supervised | Return r \<Rightarrow> True"
    using start_session_log [OF st] by (auto simp: session_pumps_def numeral_2_eq_2)
  then have se: "se = sample_supervised" "tracker = None" by (simp_all add: x)
  obtain l' where l': "s' = ((), l')" by (cases s') simp
  obtain rep where sup: "supervise_child (sn_track ?os) sample_supervised 3 sample_exit None s'
     = Some (False, [], ((), l' @ [Signalled 3 SIGTERM, Reported rep]))"
    using sample_session_supervised unfolding l' by blast
  have credit: "\<not> se_credit sample_supervised" "\<not> se_stderr_credit sample_supervised"
    by (simp_all add: session_of_def default_request_def)
  have run: "run ?os True sample_stdin sample_exit ((), []) = Some (Inr (), ((), l' @ [Signalled 3 SIGTERM, Reported rep]))"
    using sup credit by (simp add: run_def run_with_capabilities_def o st x se linger_def drop_cgroup_def)
  let ?l = "l' @ [Signalled 3 SIGTERM, Reported rep]"
  have "Reported rep \<in> set ?l" by simp
  from session_trace [OF run] obtain cs where cs: "answered cs" and
    "(\<exists>es. ?l = cs @ es \<and> at_most_error es)
     \<or> (\<exists>evs. ?l = cs @ [Running [''true'']] @ evs
          \<and> (given_up_log False evs \<or> supervised_log (default_request [''true'']) evs))"
    by (auto simp: sample_start_def argv)
  then consider es where "?l = cs @ es" "at_most_error es"
    | evs where "?l = cs @ [Running [''true'']] @ evs" "given_up_log False evs \<or> supervised_log (default_request [''true'']) evs"
    by blast
  then have "\<exists>evs. ?l = cs @ [Running [''true'']] @ evs \<and> supervised_log (default_request [''true'']) evs"
  proof cases
    case 1
    with \<open>Reported rep \<in> set ?l\<close> no_exit_report(1) [OF cs, of rep] no_exit_report(2) [of es rep] show ?thesis
      unfolding 1(1) set_append by blast
  next
    case 2
    then have "\<not> given_up_log False evs"
      using \<open>Reported rep \<in> set ?l\<close> no_exit_report(1) [OF cs, of rep] no_exit_report(3) [of False evs rep] unfolding 2(1) by auto
    with 2 show ?thesis by blast
  qed
  with run cs show ?thesis by (metis last_appendR last.simps list.distinct(1))
qed

end
