(* ===== verification/Spec2Isabelle.thy ===== *)
theory Spec2Isabelle
  imports Pump Shim Trace
begin

text \<open>
  A model of the forcola shim, the Rust program under \<open>native/forcola_shim/src\<close> that stands between
  the BEAM and one child process: it reads a SPAWN frame from its standard input, starts the child
  in a process group of its own, forwards its output as frames, and sees to it that nothing of the
  group is left when the child exits, times out, is killed or when the BEAM dies.

  The parts and their theories, in the order of the imports:

  \<^item> \<open>Prelude\<close>, \<open>Text\<close>, \<open>IoError\<close>: words and their bytes, hash maps as association lists in insertion
    order, scripts of read and write outcomes, decimal numbers and words of a line, and \<open>io::Error\<close>
    with the name \<open>spawn_error.rs\<close> gives to each error number.
  \<^item> \<open>Frame\<close> (\<open>frame.rs\<close>): the wire format. A stream is the script of what its reads return, so short
    reads, interruptions and failures are explicit; the lemmas refine \<open>read_frame\<close> to a decoder of
    byte lists and show the round trip of frames over every chunking.
  \<^item> \<open>Credit\<close> (\<open>credit.rs\<close>) and \<open>Pump\<close> (\<open>spawn_output_pump\<close>, \<open>pump_eager\<close> and \<open>pump_gated\<close> of
    \<open>supervisor.rs\<close>): the read budget, and the pump as a step relation with the supervisor and the
    child, whose invariant bounds what is sent by what was granted.
  \<^item> \<open>Protocol\<close> (\<open>protocol.rs\<close>): tags, requests and reports as records.
  \<^item> \<open>SpawnError\<close> (\<open>spawn_error.rs\<close>, with the channel of the reports), \<open>Privdrop\<close> (\<open>privdrop.rs\<close>), \<open>ChildOs\<close>, \<open>Cgroup\<close> (\<open>cgroup.rs\<close>) and
    \<open>ChildSetup\<close> (\<open>spawn_child\<close>, \<open>ChildSetup\<close> and \<open>finish_spawn\<close> of \<open>supervisor.rs\<close>): everything from
    a request to a running child, with the calls of the child between fork and exec as a list of
    steps of which a failure is reported through a pipe and attributed by the parent.
  \<^item> \<open>Identity\<close> (\<open>identity.rs\<close>), \<open>Tracking\<close>, \<open>Discovery\<close>, \<open>Native\<close> and \<open>Escalation\<close> (\<open>tracking.rs\<close>):
    process identities read from the system, the discovery of descendants, checked signals and
    bounded escalation. \<open>Discovery\<close> shows that a scan of an undisturbed process table retains exactly
    the descendants; \<open>Native\<close> is the Linux implementation of the \<open>Source\<close> trait, and carries that
    result down to the texts of \<open>/proc\<close>.
  \<^item> \<open>Waits\<close> (\<open>wait_until\<close>, \<open>kill_group\<close>, \<open>finish_cgroup\<close>, \<open>reap_root\<close>), \<open>Supervise\<close> and
    \<open>SuperviseTracked\<close> (\<open>supervise\<close> and \<open>supervise_tracked\<close> of \<open>supervisor.rs\<close>): the kill sequence, the
    drains, and the two event loops up to the EXIT report.
  \<^item> \<open>ChildInput\<close> (\<open>spawn_stdin_reader\<close>, \<open>ChildInput\<close>, \<open>ChildInputSender\<close> and \<open>InputQueue\<close> of
    \<open>supervisor.rs\<close>): the protocol reader, the queue of child input, its writer and the close flag as
    an interleaving of atomic steps.
  \<^item> \<open>Session\<close> (\<open>run_with_capabilities\<close>, the features, \<open>abort_startup\<close>, \<open>peek_child_exit\<close> and the
    waiters of \<open>supervisor.rs\<close>): a session from its first frame to its end. \<open>open_session\<close> is everything
    that can refuse it, \<open>start_session\<close> what lies between the running child and the event loop, and
    \<open>run\<close> composes them with \<open>spawn_child\<close>, \<open>supervise_child\<close> and the linger for late credit.
    \<open>Startup\<close> proves what the log of a start can be, \<open>StartupReturns\<close> that a start returns, and \<open>Trace\<close>
    what the log of a whole session can be.
  \<^item> \<open>GroupsMode\<close> (\<open>groups.rs\<close>) and \<open>Lock\<close> (\<open>lock.rs\<close>): the two modes without a session; \<open>Shim\<close>
    (\<open>main.rs\<close>, \<open>PeerMonitor\<close> of \<open>supervisor.rs\<close>): the choice of the mode, and the monitor of the
    BEAM's end of the output.

  The operating system, the account database, serde and the other threads are records of
  operations on a world of any type; what a proof needs of them is a locale (\<open>discovery_ops\<close>,
  \<open>tracker_ops\<close>, \<open>quiet_ops\<close>, \<open>proc_ops\<close>, \<open>monotone_clock\<close>, \<open>sup_ops\<close>, \<open>source_world\<close>, \<open>track_world\<close>, ...), interpreted on
  the operations with a log of their calls: a property of what happened is a property of the log.
  Times are numbers of milliseconds. The receives on a channel find the elements of a script, which
  is any interleaving the senders can produce.

  Loops over data are structural or have a measure. The loops that wait are
  \<open>partial_function (option)\<close>: \<open>None\<close> is not returning, and returning is proved where the code
  promises it, on systems whose clock is not turned back. The queue loop of a scan carries the
  source's own bound on attempts, \<open>2 * process_limit + 1\<close>.

  Not modelled: JSON, which serde reads and writes (the parsers and printers are parameters of a
  session); the threads as such (their bodies are definitions, the channels scripts of what is
  received, the shared writer one operation); the macOS platform code other than the reader of a
  process, because it is calls of libproc, sysctl and kqueue; and everything of the repository that
  is not the shim: the Elixir library that drives it, its tests, guides and build files.
\<close>

end
